(* ===== verification/SP_Prelude.thy ===== *)
theory SP_Prelude
  imports Main "HOL-Library.Word"
begin

text \<open>
  Shared vocabulary of the development: the machine integers of the Rust sources as words,
  Rust's \<^verbatim>\<open>to_le_bytes\<close> / \<^verbatim>\<open>from_le_bytes\<close>, \<^verbatim>\<open>chunks_exact\<close>, and the interface
  of a fixed-width byte codec (\<open>fixed_codec\<close>, \<open>exact_codec\<close>) with the lemmas its
  clients share: the receipt ledger, the residue blocks and the similarity signatures are all
  streams of such records.
\<close>

unbundle bit_operations_syntax

type_synonym u8 = "8 word"
type_synonym u16 = "16 word"
type_synonym u32 = "32 word"
type_synonym u64 = "64 word"
type_synonym i32 = "32 word"
type_synonym bytes = "u8 list"

named_theorems codec_simps \<open>lengths and round trips of the byte encodings\<close>

subsection \<open>Little-endian integers\<close>

fun nat_le :: "nat \<Rightarrow> nat \<Rightarrow> bytes" where
  "nat_le 0 v = []"
| "nat_le (Suc k) v = of_nat (v mod 256) # nat_le k (v div 256)"

fun le_nat :: "bytes \<Rightarrow> nat" where
  "le_nat [] = 0"
| "le_nat (b # bs) = unat b + 256 * le_nat bs"

text \<open>\<open>to_le k w\<close> is the \<open>k\<close>-byte \<^verbatim>\<open>w.to_le_bytes()\<close>, \<open>from_le\<close> its inverse.\<close>

definition to_le :: "nat \<Rightarrow> 'a::len word \<Rightarrow> bytes" where
  "to_le k w = nat_le k (unat w)"

definition from_le :: "bytes \<Rightarrow> 'a::len word" where
  "from_le bs = of_nat (le_nat bs)"

lemma length_nat_le [simp, codec_simps]: "length (nat_le k v) = k"
  by (induction k arbitrary: v) auto

lemma length_to_le [simp, codec_simps]: "length (to_le k w) = k"
  by (simp add: to_le_def)

lemma unat_byte_of_mod: "unat (of_nat (v mod 256) :: u8) = v mod 256"
  by (simp add: unat_of_nat)

lemma le_nat_nat_le: "le_nat (nat_le k v) = v mod 256 ^ k"
proof (induction k arbitrary: v)
  case 0
  show ?case by simp
next
  case (Suc k)
  have "v mod (256 * 256 ^ k) = 256 * (v div 256 mod 256 ^ k) + v mod 256"
    by (rule mod_mult2_eq)
  with Suc show ?case by (simp add: unat_byte_of_mod)
qed

lemma le_nat_bound: "le_nat bs < 256 ^ length bs"
proof (induction bs)
  case Nil
  show ?case by simp
next
  case (Cons b bs)
  have "unat b < 256" using unsigned_less [of b] by simp
  with Cons show ?case by simp
qed

lemma nat_le_le_nat: "nat_le (length bs) (le_nat bs) = bs"
proof (induction bs)
  case Nil
  show ?case by simp
next
  case (Cons b bs)
  have "unat b < 256" using unsigned_less [of b] by simp
  then have "(unat b + 256 * le_nat bs) mod 256 = unat b"
    and "(unat b + 256 * le_nat bs) div 256 = le_nat bs" by simp_all
  with Cons show ?case by simp
qed

lemma from_le_to_le:
  fixes w :: "'a::len word"
  assumes "LENGTH('a) \<le> 8 * k"
  shows "from_le (to_le k w) = w"
proof -
  have "unat w < 2 ^ LENGTH('a)" by (rule unsigned_less)
  also have "(2::nat) ^ LENGTH('a) \<le> 2 ^ (8 * k)" using assms by (simp add: power_increasing)
  also have "(2::nat) ^ (8 * k) = 256 ^ k" by (simp add: power_mult)
  finally show ?thesis by (simp add: from_le_def to_le_def le_nat_nat_le)
qed

lemma to_le_from_le:
  assumes "LENGTH('a::len) = 8 * length bs"
  shows "to_le (length bs) (from_le bs :: 'a word) = bs"
proof -
  have "le_nat bs < 256 ^ length bs" by (rule le_nat_bound)
  also have "(256::nat) ^ length bs = 2 ^ LENGTH('a)" by (simp add: assms power_mult)
  finally have "unat (of_nat (le_nat bs) :: 'a word) = le_nat bs"
    by (simp add: unat_of_nat)
  then show ?thesis by (simp add: to_le_def from_le_def nat_le_le_nat)
qed

lemma le_round_trips [simp, codec_simps]:
  "from_le (to_le 2 (h :: u16)) = h"
  "from_le (to_le 4 (w :: u32)) = w"
  "from_le (to_le 8 (d :: u64)) = d"
  by (rule from_le_to_le, simp)+

lemma to_le_from_le_widths [codec_simps]:
  "length bs = 2 \<Longrightarrow> to_le 2 (from_le bs :: u16) = bs"
  "length bs = 4 \<Longrightarrow> to_le 4 (from_le bs :: u32) = bs"
  "length bs = 8 \<Longrightarrow> to_le 8 (from_le bs :: u64) = bs"
  using to_le_from_le [where 'a = 16, of bs] to_le_from_le [where 'a = 32, of bs]
    to_le_from_le [where 'a = 64, of bs] by simp_all

subsection \<open>Slices and chunks\<close>

text \<open>\<open>bslice i j bs\<close> is Rust's \<^verbatim>\<open>&bs[i..j]\<close> (its callers check the bounds).\<close>

definition bslice :: "nat \<Rightarrow> nat \<Rightarrow> 'a list \<Rightarrow> 'a list" where
  "bslice i j xs = take (j - i) (drop i xs)"

lemma length_bslice [simp, codec_simps]: "j \<le> length xs \<Longrightarrow> length (bslice i j xs) = j - i"
  by (simp add: bslice_def)

lemma bslice_append_left [simp]: "j \<le> length xs \<Longrightarrow> bslice i j (xs @ ys) = bslice i j xs"
  by (simp add: bslice_def)

lemma bslice_append_right:
  "length xs \<le> i \<Longrightarrow> bslice i j (xs @ ys) = bslice (i - length xs) (j - length xs) ys"
  by (simp add: bslice_def)

lemma bslice_all [simp]: "length xs = n \<Longrightarrow> bslice 0 n xs = xs"
  by (simp add: bslice_def)

lemma bslice_append_mid:
  "length a = i \<Longrightarrow> i + length b = j \<Longrightarrow> bslice i j (a @ b @ c) = b"
  by (auto simp: bslice_def)

text \<open>Gluing consecutive slices back together.\<close>

lemma bslice_glue: "i \<le> j \<Longrightarrow> j \<le> k \<Longrightarrow> bslice i j xs @ bslice j k xs = bslice i k xs"
proof -
  assume ij: "i \<le> j" and jk: "j \<le> k"
  then have "k - i = (j - i) + (k - j)" by simp
  moreover have "drop (j - i) (drop i xs) = drop j xs" using ij by simp
  ultimately show ?thesis unfolding bslice_def by (metis take_add)
qed

text \<open>Rust's \<^verbatim>\<open>chunks_exact(n)\<close>: the full chunks, a short remainder is dropped.\<close>

function chunks_exact :: "nat \<Rightarrow> 'a list \<Rightarrow> 'a list list" where
  "chunks_exact n xs =
     (if n = 0 \<or> length xs < n then [] else take n xs # chunks_exact n (drop n xs))"
  by pat_completeness auto
termination
  by (relation "measure (\<lambda>(n, xs). length xs)") auto

declare chunks_exact.simps [simp del]

lemma chunks_exact_short [simp]: "length xs < n \<Longrightarrow> chunks_exact n xs = []"
  by (subst chunks_exact.simps) simp

lemma chunks_exact_append [simp]:
  "length c = n \<Longrightarrow> 0 < n \<Longrightarrow> chunks_exact n (c @ xs) = c # chunks_exact n xs"
  by (subst chunks_exact.simps) simp

lemma chunks_exact_lengths: "c \<in> set (chunks_exact n xs) \<Longrightarrow> length c = n"
proof (induction n xs rule: chunks_exact.induct)
  case (1 n xs)
  then show ?case
    by (subst (asm) (2) chunks_exact.simps) (auto split: if_splits)
qed

lemma length_chunks_exact: "0 < n \<Longrightarrow> length (chunks_exact n xs) = length xs div n"
proof (induction n xs rule: chunks_exact.induct)
  case (1 n xs)
  show ?case
  proof (cases "length xs < n")
    case True
    then show ?thesis by simp
  next
    case False
    with "1" have "length (chunks_exact n (drop n xs)) = (length xs - n) div n" by simp
    with False "1.prems" show ?thesis
      by (subst chunks_exact.simps) (simp add: le_div_geq)
  qed
qed

lemma concat_chunks_exact: "0 < n \<Longrightarrow> n dvd length xs \<Longrightarrow> concat (chunks_exact n xs) = xs"
proof (induction n xs rule: chunks_exact.induct)
  case (1 n xs)
  show ?case
  proof (cases "length xs < n")
    case True
    with "1.prems" have "xs = []" by (auto dest: dvd_imp_le)
    with True show ?thesis by simp
  next
    case False
    with "1" have "concat (chunks_exact n (drop n xs)) = drop n xs"
      by (simp add: dvd_diff_nat)
    with False "1.prems" show ?thesis
      by (subst chunks_exact.simps) simp
  qed
qed

subsection \<open>The interface of a fixed-width record encoding\<close>

text \<open>
  A record of type \<open>'a\<close> is written as \<open>w\<close> bytes by \<open>enc\<close> and read back by \<open>dec\<close>;
  \<open>ok\<close> is the type invariant of the record (the lengths of its fixed arrays).
  A stream of records is the concatenation of their encodings.
\<close>

locale fixed_codec =
  fixes enc :: "'a \<Rightarrow> bytes" and dec :: "bytes \<Rightarrow> 'a" and w :: nat and ok :: "'a \<Rightarrow> bool"
  assumes width_pos: "0 < w"
    and enc_length: "ok x \<Longrightarrow> length (enc x) = w"
    and dec_enc: "ok x \<Longrightarrow> dec (enc x) = x"
begin

definition stream :: "'a list \<Rightarrow> bytes" where
  "stream xs = concat (map enc xs)"

lemma stream_append: "stream (xs @ ys) = stream xs @ stream ys"
  by (simp add: stream_def)

lemma length_stream: "list_all ok xs \<Longrightarrow> length (stream xs) = w * length xs"
  by (induction xs) (simp_all add: stream_def enc_length)

lemma chunks_stream: "list_all ok xs \<Longrightarrow> chunks_exact w (stream xs) = map enc xs"
  using width_pos by (induction xs) (simp_all add: stream_def enc_length)

lemma dec_stream: "list_all ok xs \<Longrightarrow> map dec (chunks_exact w (stream xs)) = xs"
  by (induction xs) (simp_all add: stream_def enc_length width_pos dec_enc)

lemma stream_inject:
  assumes "list_all ok xs" and "list_all ok ys" and "stream xs = stream ys"
  shows "xs = ys"
  using assms dec_stream by metis

end

text \<open>An exact codec is onto as well: every \<open>w\<close>-byte block is the encoding of a record.\<close>

locale exact_codec = fixed_codec +
  assumes dec_ok: "length bs = w \<Longrightarrow> ok (dec bs)"
    and enc_dec: "length bs = w \<Longrightarrow> enc (dec bs) = bs"
begin

lemma stream_dec:
  assumes "w dvd length bs"
  shows "stream (map dec (chunks_exact w bs)) = bs"
proof -
  have "map (enc \<circ> dec) (chunks_exact w bs) = chunks_exact w bs"
    by (rule map_idI) (auto dest: chunks_exact_lengths simp: enc_dec)
  then show ?thesis
    using assms width_pos by (simp add: stream_def concat_chunks_exact)
qed

lemma ok_dec_chunks: "list_all ok (map dec (chunks_exact w bs))"
  by (auto simp: list_all_iff dest: chunks_exact_lengths intro: dec_ok)

end

interpretation u32_codec: exact_codec "to_le 4" from_le 4 "\<lambda>_ :: u32. True"
  by unfold_locales (simp_all add: codec_simps)

interpretation u64_codec: exact_codec "to_le 8" from_le 8 "\<lambda>_ :: u64. True"
  by unfold_locales (simp_all add: codec_simps)

subsection \<open>Lists and options\<close>

lemma map_option_Some_iff: "map_option f x = Some y \<longleftrightarrow> (\<exists>z. x = Some z \<and> f z = y)"
  by (cases x) auto

lemma list_all_map_comp: "list_all P (map f xs) \<longleftrightarrow> list_all (\<lambda>x. P (f x)) xs"
  by (induction xs) auto


subsection \<open>Row-major matrices\<close>

text \<open>
  \<^verbatim>\<open>for b in 0..rows { for i in 0..cols { y[b * cols + i] = f(b, i); } }\<close>: the loop nest of the
  reference matrix products.
\<close>

definition fill_row :: "nat \<Rightarrow> (nat \<Rightarrow> 'a) \<Rightarrow> nat \<Rightarrow> 'a list \<Rightarrow> 'a list" where
  "fill_row cols g b y = fold (\<lambda>i y. y[b * cols + i := g i]) [0..<cols] y"

definition fill_rows :: "nat \<Rightarrow> nat \<Rightarrow> (nat \<Rightarrow> nat \<Rightarrow> 'a) \<Rightarrow> 'a list \<Rightarrow> 'a list" where
  "fill_rows rows cols f y = fold (\<lambda>b. fill_row cols (f b) b) [0..<rows] y"

lemma length_fill_row [simp]: "length (fill_row cols g b y) = length y"
  unfolding fill_row_def by (rule fold_invariant [where Q = "\<lambda>_. True"]) auto

lemma length_fill_rows [simp]: "length (fill_rows rows cols f y) = length y"
  unfolding fill_rows_def by (rule fold_invariant [where Q = "\<lambda>_. True"]) auto

lemma fill_row_nth:
  assumes "j < length y"
  shows "fill_row cols g b y ! j =
    (if b * cols \<le> j \<and> j < b * cols + cols then g (j - b * cols) else y ! j)"
proof -
  have "n \<le> cols \<Longrightarrow> length (fold (\<lambda>i y. y[b * cols + i := g i]) [0..<n] y) = length y \<and>
    fold (\<lambda>i y. y[b * cols + i := g i]) [0..<n] y ! j =
    (if b * cols \<le> j \<and> j < b * cols + n then g (j - b * cols) else y ! j)" for n
  proof (induction n)
    case (Suc n)
    then show ?case using assms by (cases "j = b * cols + n") auto
  qed auto
  then show ?thesis by (simp add: fill_row_def)
qed

lemma fill_rows_nth:
  assumes "j < rows * cols" and "length y = rows * cols"
  shows "fill_rows rows cols f y ! j = f (j div cols) (j mod cols)"
proof -
  have c: "0 < cols" using assms(1) by (cases cols) auto
  have "n \<le> rows \<Longrightarrow> length (fold (\<lambda>b. fill_row cols (f b) b) [0..<n] y) = length y \<and>
    (j < n * cols \<longrightarrow> fold (\<lambda>b. fill_row cols (f b) b) [0..<n] y ! j = f (j div cols) (j mod cols))" for n
  proof (induction n)
    case (Suc n)
    have "j div cols = n \<and> j mod cols = j - n * cols" if "n * cols \<le> j" "j < n * cols + cols"
    proof -
      have "j div cols = n" using that by (intro div_nat_eqI) (simp_all add: algebra_simps)
      then show ?thesis by (simp add: minus_div_mult_eq_mod [symmetric])
    qed
    then show ?case using Suc assms by (auto simp: fill_row_nth add.commute)
  qed simp
  then show ?thesis using assms by (simp add: fill_rows_def)
qed

lemma fill_rows_eqI:
  assumes "\<And>b i. b < rows \<Longrightarrow> i < cols \<Longrightarrow> f b i = g b i" and "length y = rows * cols"
  shows "fill_rows rows cols f y = fill_rows rows cols g y"
proof (rule nth_equalityI)
  fix j
  assume "j < length (fill_rows rows cols f y)"
  then have j: "j < rows * cols" using assms by simp
  then have "0 < cols" by (cases cols) auto
  then have "j div cols < rows" "j mod cols < cols"
    using j by (simp_all add: less_mult_imp_div_less)
  then show "fill_rows rows cols f y ! j = fill_rows rows cols g y ! j"
    using j assms by (simp add: fill_rows_nth)
qed simp


subsection \<open>Population count\<close>

definition count_ones :: "'a::len word \<Rightarrow> nat" where
  "count_ones w = length (filter (bit w) [0..<LENGTH('a)])"

lemma count_ones_bits: "count_ones (w :: 'a::len word) = card {i. bit w i}"
proof -
  have "count_ones w = card (set (filter (bit w) [0..<LENGTH('a)]))"
    unfolding count_ones_def by (subst distinct_card) simp_all
  also have "set (filter (bit w) [0..<LENGTH('a)]) = {i. bit w i}"
    by (auto dest: bit_imp_le_length)
  finally show ?thesis .
qed

lemma finite_bits [simp]: "finite {i. bit (w :: 'a::len word) i}"
  by (rule finite_subset [of _ "{..<LENGTH('a)}"]) (auto dest: bit_imp_le_length)

lemma count_ones_le: "count_ones (w :: 'a::len word) \<le> LENGTH('a)"
  by (simp add: count_ones_def) (metis diff_zero length_filter_le length_upt)

lemma bits_xor: "{i. bit (a XOR b) i} = ({i. bit a i} - {i. bit b i}) \<union> ({i. bit b i} - {i. bit (a :: 'a::len word) i})"
  by (auto simp: bit_xor_iff)

lemma count_ones_eq_0: "count_ones (w :: 'a::len word) = 0 \<longleftrightarrow> w = 0"
proof
  assume "count_ones w = 0"
  then have "\<not> bit w n" for n by (simp add: count_ones_bits)
  then show "w = 0" by (intro bit_word_eqI) simp
qed (simp add: count_ones_def)

text \<open>The distance of two words: a metric.\<close>

lemma count_ones_xor:
  fixes a b c :: "'a::len word"
  shows "count_ones (a XOR b) = count_ones (b XOR a)"
    and "count_ones (a XOR b) = 0 \<longleftrightarrow> a = b"
    and "count_ones (a XOR b) \<le> count_ones a + count_ones b"
    and "count_ones (a XOR c) \<le> count_ones (a XOR b) + count_ones (b XOR c)"
proof -
  show "count_ones (a XOR b) = count_ones (b XOR a)" by (simp add: xor.commute)
  have "a XOR b = 0 \<Longrightarrow> a = b"
    by (metis xor.assoc xor.left_neutral xor.right_neutral xor_self_eq)
  then show "count_ones (a XOR b) = 0 \<longleftrightarrow> a = b" by (auto simp: count_ones_eq_0)
  have sub: "count_ones (x XOR y) \<le> count_ones x + count_ones y" for x y :: "'a word"
  proof -
    have "card {i. bit (x XOR y) i} \<le> card ({i. bit x i} \<union> {i. bit y i})"
      by (rule card_mono) (auto simp: bit_xor_iff)
    also have "\<dots> \<le> card {i. bit x i} + card {i. bit y i}" by (rule card_Un_le)
    finally show ?thesis by (simp add: count_ones_bits)
  qed
  then show "count_ones (a XOR b) \<le> count_ones a + count_ones b" .
  have "a XOR c = (a XOR b) XOR (b XOR c)"
    by (metis xor.assoc xor.left_neutral xor_self_eq)
  then show "count_ones (a XOR c) \<le> count_ones (a XOR b) + count_ones (b XOR c)" using sub by simp
qed


subsection \<open>The interface of an insert-or-replace map\<close>

locale upsert =
  fixes ins :: "'k \<Rightarrow> 'v \<Rightarrow> 'm \<Rightarrow> 'm" and look :: "'m \<Rightarrow> 'k \<Rightarrow> 'v option" and inv :: "'m \<Rightarrow> bool"
  assumes inv_ins: "inv m \<Longrightarrow> inv (ins k v m)"
    and look_ins: "inv m \<Longrightarrow> look (ins k v m) = (look m)(k \<mapsto> v)"
begin

definition ins_all :: "('k \<times> 'v) list \<Rightarrow> 'm \<Rightarrow> 'm" where
  "ins_all kvs m = fold (\<lambda>(k, v). ins k v) kvs m"

lemma ins_all_map: "inv m \<Longrightarrow> inv (ins_all kvs m) \<and> look (ins_all kvs m) = look m ++ map_of (rev kvs)"
  unfolding ins_all_def
proof (induction kvs arbitrary: m)
  case (Cons p kvs)
  then show ?case by (cases p) (auto simp: inv_ins look_ins map_add_def fun_eq_iff split: option.splits)
qed simp

end

subsection \<open>Token ids as indices\<close>

text \<open>\<^verbatim>\<open>id as usize\<close> sign-extends to 64 bits.\<close>

definition as_usize :: "i32 \<Rightarrow> nat" where
  "as_usize t = unat (scast t :: u64)"

lemma as_usize_of_nat: "n < 2 ^ 31 \<Longrightarrow> as_usize (of_nat n) = n"
proof -
  assume n: "n < 2 ^ 31"
  have "sint (of_nat n :: i32) = int n"
    using n by (simp add: signed_of_nat signed_take_bit_int_eq_self)
  then have "(scast (of_nat n :: i32) :: u64) = of_nat n"
    by (metis of_int_of_nat_eq of_int_sint)
  moreover have "unat (of_nat n :: u64) = n" using n by (simp add: unat_of_nat)
  ultimately show ?thesis by (simp add: as_usize_def)
qed

lemma as_usize_inv: "as_usize t = j \<Longrightarrow> t = of_nat j"
proof -
  assume "as_usize t = j"
  moreover have "ucast (scast t :: u64) = t"
    by (rule bit_word_eqI) (simp add: bit_simps)
  ultimately show ?thesis by (metis as_usize_def of_nat_unat)
qed

end
