(* ===== verification/Float32.thy ===== *)
theory Float32
  imports SP_Prelude
begin

text \<open>
  The \<^verbatim>\<open>f32\<close> values the decoders compare, as IEEE-754 binary32 bit patterns, with the
  comparison the sources use (\<^verbatim>\<open>>\<close>, \<^verbatim>\<open>partial_cmp\<close>); no arithmetic on them is needed here.
  On top of it the two greedy pickers of the daemon: the running-maximum loop of
  \<^verbatim>\<open>dialogue.rs\<close> (first maximum wins) and the \<^verbatim>\<open>max_by partial_cmp\<close> of \<^verbatim>\<open>spec.rs\<close> and
  \<^verbatim>\<open>sampler.rs\<close> (last maximum wins). Both satisfy the contract \<open>greedy_pick\<close>.
\<close>

type_synonym f32 = "32 word"

definition f32_nan :: "f32 \<Rightarrow> bool" where
  "f32_nan x \<longleftrightarrow> 0x7F800000 < (x AND 0x7FFFFFFF)"

text \<open>
  For values that are not NaN the IEEE order is the order of the signed magnitude
  (so that \<open>-0\<close> and \<open>+0\<close> compare equal).
\<close>

definition f32_key :: "f32 \<Rightarrow> int" where
  "f32_key x = (if bit x 31 then - uint (x AND 0x7FFFFFFF) else uint x)"

definition f32_gt :: "f32 \<Rightarrow> f32 \<Rightarrow> bool" where
  "f32_gt x y \<longleftrightarrow> \<not> f32_nan x \<and> \<not> f32_nan y \<and> f32_key y < f32_key x"

definition NEG_INFINITY :: f32 where
  "NEG_INFINITY = 0xFF800000"

datatype ordering = Less | Equal | Greater

definition partial_cmp :: "f32 \<Rightarrow> f32 \<Rightarrow> ordering option" where
  "partial_cmp x y =
     (if f32_nan x \<or> f32_nan y then None
      else Some (if f32_key x < f32_key y then Less
                 else if f32_key x = f32_key y then Equal else Greater))"

definition nan_free :: "f32 list \<Rightarrow> bool" where
  "nan_free l \<longleftrightarrow> (\<forall>x \<in> set l. \<not> f32_nan x)"

subsection \<open>The pickers\<close>

text \<open>\<^verbatim>\<open>dialogue.rs::argmax\<close>: the loop state is (index, best index, best value).\<close>

fun argmax_loop :: "f32 list \<Rightarrow> nat \<Rightarrow> i32 \<Rightarrow> f32 \<Rightarrow> i32" where
  "argmax_loop [] i best_i best_v = best_i"
| "argmax_loop (v # vs) i best_i best_v =
     (if f32_gt v best_v then argmax_loop vs (Suc i) (of_nat i) v
      else argmax_loop vs (Suc i) best_i best_v)"

definition dialogue_argmax :: "f32 list \<Rightarrow> i32" where
  "dialogue_argmax logits = argmax_loop logits 0 0 NEG_INFINITY"

text \<open>
  \<^verbatim>\<open>spec.rs::argmax\<close>: \<^verbatim>\<open>Iterator::max_by\<close> keeps the accumulator only where the comparison
  says \<open>Greater\<close>, and an unordered pair counts as \<open>Equal\<close>.
\<close>

definition cmp_or_equal :: "f32 \<Rightarrow> f32 \<Rightarrow> ordering" where
  "cmp_or_equal x y = (case partial_cmp x y of Some c \<Rightarrow> c | None \<Rightarrow> Equal)"

fun max_by_loop :: "f32 list \<Rightarrow> nat \<Rightarrow> nat \<Rightarrow> f32 \<Rightarrow> nat" where
  "max_by_loop [] i bi bv = bi"
| "max_by_loop (v # vs) i bi bv =
     (if cmp_or_equal bv v = Greater then max_by_loop vs (Suc i) bi bv
      else max_by_loop vs (Suc i) i v)"

fun spec_argmax :: "f32 list \<Rightarrow> i32" where
  "spec_argmax [] = 0"
| "spec_argmax (v # vs) = of_nat (max_by_loop vs 1 0 v)"

subsection \<open>Comparison lemmas\<close>

lemma f32_key_bound: "\<not> f32_nan x \<Longrightarrow> f32_key NEG_INFINITY \<le> f32_key x"
proof -
  assume "\<not> f32_nan x"
  then have "uint (x AND 0x7FFFFFFF) \<le> 0x7F800000"
    by (simp add: f32_nan_def word_less_def)
  moreover have "f32_key NEG_INFINITY = - 0x7F800000"
    by (simp add: f32_key_def NEG_INFINITY_def bit_numeral_rec)
  moreover have "(0::int) \<le> uint x" by simp
  moreover have "- uint (x AND 0x7FFFFFFF) \<le> f32_key x"
    by (auto simp: f32_key_def intro: order_trans [of _ 0])
  ultimately show ?thesis by linarith
qed

lemma neg_infinity_not_nan [simp]: "\<not> f32_nan NEG_INFINITY"
  by (simp add: f32_nan_def NEG_INFINITY_def)

lemma f32_gt_key [simp]: "\<not> f32_nan x \<Longrightarrow> \<not> f32_nan y \<Longrightarrow> f32_gt x y \<longleftrightarrow> f32_key y < f32_key x"
  by (simp add: f32_gt_def)

lemma cmp_or_equal_Greater [simp]:
  "\<not> f32_nan x \<Longrightarrow> \<not> f32_nan y \<Longrightarrow> cmp_or_equal x y = Greater \<longleftrightarrow> f32_key y < f32_key x"
  by (auto simp: cmp_or_equal_def partial_cmp_def)

lemma nan_free_simps [simp]:
  "nan_free []"
  "nan_free (x # xs) \<longleftrightarrow> \<not> f32_nan x \<and> nan_free xs"
  "nan_free (xs @ ys) \<longleftrightarrow> nan_free xs \<and> nan_free ys"
  by (auto simp: nan_free_def)

lemma nan_free_nth: "nan_free l \<Longrightarrow> j < length l \<Longrightarrow> \<not> f32_nan (l ! j)"
  by (simp add: nan_free_def)

text \<open>\<open>first_max l m\<close>, \<open>last_max l m\<close>: index \<open>m\<close> holds the first / last maximum of \<open>l\<close>.\<close>

definition is_max_at :: "f32 list \<Rightarrow> nat \<Rightarrow> bool" where
  "is_max_at l m \<longleftrightarrow> m < length l \<and> (\<forall>j < length l. f32_key (l ! j) \<le> f32_key (l ! m))"

definition first_max :: "f32 list \<Rightarrow> nat \<Rightarrow> bool" where
  "first_max l m \<longleftrightarrow> is_max_at l m \<and> (\<forall>j < m. f32_key (l ! j) < f32_key (l ! m))"

definition last_max :: "f32 list \<Rightarrow> nat \<Rightarrow> bool" where
  "last_max l m \<longleftrightarrow> is_max_at l m \<and> (\<forall>j < length l. m < j \<longrightarrow> f32_key (l ! j) < f32_key (l ! m))"

lemma first_max_snoc:
  assumes "first_max l m" and "v = l ! m"
  shows "first_max (l @ [x]) (if f32_key v < f32_key x then length l else m)"
  using assms
  by (auto simp: first_max_def is_max_at_def nth_append less_Suc_eq intro: le_less_trans
      order.strict_implies_order)

lemma last_max_snoc:
  assumes "last_max l m" and "v = l ! m"
  shows "last_max (l @ [x]) (if f32_key x < f32_key v then m else length l)"
  using assms
  by (force simp: last_max_def is_max_at_def nth_append less_Suc_eq)

lemma is_max_at_unique_first: "first_max l m \<Longrightarrow> first_max l n \<Longrightarrow> m = n"
  unfolding first_max_def is_max_at_def by (metis linorder_not_less nat_neq_iff)

subsection \<open>The loops find the maximum\<close>

lemma argmax_loop_first:
  assumes "first_max l m" and "nan_free l" and "nan_free vs"
  shows "\<exists>n. argmax_loop vs (length l) (of_nat m) (l ! m) = of_nat n \<and> first_max (l @ vs) n"
  using assms
proof (induction vs arbitrary: l m)
  case Nil
  then show ?case by auto
next
  case (Cons x vs)
  let ?m = "if f32_key (l ! m) < f32_key x then length l else m"
  have m: "m < length l" using Cons.prems(1) by (simp add: first_max_def is_max_at_def)
  have fm: "first_max (l @ [x]) ?m" using first_max_snoc Cons.prems(1) by blast
  have nm: "\<not> f32_nan (l ! m)" using Cons.prems(2) m by (rule nan_free_nth)
  have "\<exists>n. argmax_loop vs (length (l @ [x])) (of_nat ?m) ((l @ [x]) ! ?m) = of_nat n \<and>
      first_max ((l @ [x]) @ vs) n"
    by (rule Cons.IH [OF fm]) (use Cons.prems in auto)
  then show ?case using Cons.prems nm m by (auto simp: nth_append split: if_splits)
qed

lemma max_by_loop_last:
  assumes "last_max l m" and "nan_free l" and "nan_free vs"
  shows "last_max (l @ vs) (max_by_loop vs (length l) m (l ! m))"
  using assms
proof (induction vs arbitrary: l m)
  case Nil
  then show ?case by auto
next
  case (Cons x vs)
  let ?m = "if f32_key x < f32_key (l ! m) then m else length l"
  have m: "m < length l" using Cons.prems(1) by (simp add: last_max_def is_max_at_def)
  have fm: "last_max (l @ [x]) ?m" using last_max_snoc Cons.prems(1) by blast
  have nm: "\<not> f32_nan (l ! m)" using Cons.prems(2) m by (rule nan_free_nth)
  have "last_max ((l @ [x]) @ vs) (max_by_loop vs (length (l @ [x])) ?m ((l @ [x]) ! ?m))"
    by (rule Cons.IH [OF fm]) (use Cons.prems in auto)
  then show ?case using Cons.prems nm m by (auto simp: nth_append split: if_splits)
qed

lemma dialogue_argmax_first_max:
  assumes "nan_free l" and "l \<noteq> []"
  shows "\<exists>n. dialogue_argmax l = of_nat n \<and> first_max l n"
proof -
  obtain x xs where l: "l = x # xs" using assms(2) by (cases l) auto
  have "f32_key NEG_INFINITY \<le> f32_key x" using assms l by (simp add: f32_key_bound)
  then consider "f32_key NEG_INFINITY < f32_key x" | "f32_key x = f32_key NEG_INFINITY" by fastforce
  then show ?thesis
  proof cases
    case 1
    then have "dialogue_argmax l = argmax_loop xs (length [x]) (of_nat 0) ([x] ! 0)"
      using assms l by (simp add: dialogue_argmax_def)
    moreover have "first_max [x] 0" by (simp add: first_max_def is_max_at_def)
    ultimately show ?thesis using argmax_loop_first [of "[x]" 0 xs] assms l by simp
  next
    case 2
    text \<open>The head is \<open>-inf\<close> itself: the loop goes on with index 0 and an equal value.\<close>
    have gt: "f32_gt v NEG_INFINITY = f32_gt v x" if "\<not> f32_nan v" for v
      using that 2 assms l by simp
    have "argmax_loop vs i b NEG_INFINITY = argmax_loop vs i b x" if "nan_free vs" for vs i b
      using that by (induction vs arbitrary: i b) (simp_all del: f32_gt_key add: gt)
    then have "dialogue_argmax l = argmax_loop xs (length [x]) (of_nat 0) ([x] ! 0)"
      using assms l 2 by (simp add: dialogue_argmax_def)
    moreover have "first_max [x] 0" by (simp add: first_max_def is_max_at_def)
    ultimately show ?thesis using argmax_loop_first [of "[x]" 0 xs] assms l by simp
  qed
qed

lemma spec_argmax_last_max:
  assumes "nan_free l" and "l \<noteq> []"
  shows "\<exists>n. spec_argmax l = of_nat n \<and> last_max l n"
proof -
  obtain x xs where l: "l = x # xs" using assms(2) by (cases l) auto
  have "last_max [x] 0" by (simp add: last_max_def is_max_at_def)
  then have "last_max ([x] @ xs) (max_by_loop xs (length [x]) 0 ([x] ! 0))"
    by (rule max_by_loop_last) (use assms l in auto)
  then show ?thesis using l by auto
qed

subsection \<open>The contract of a greedy picker\<close>

text \<open>
  What the decode loops rely on: on a NaN-free row of at most \<open>2^31\<close> logits the pick is
  the index of a maximal logit.
\<close>

definition logits_row :: "f32 list \<Rightarrow> bool" where
  "logits_row l \<longleftrightarrow> nan_free l \<and> l \<noteq> [] \<and> length l \<le> 2 ^ 31"

lemma unat_index: "n < length l \<Longrightarrow> length l \<le> 2 ^ 31 \<Longrightarrow> unat (of_nat n :: i32) = n"
  by (simp add: unat_of_nat)

locale greedy_pick =
  fixes pick :: "f32 list \<Rightarrow> i32"
  assumes pick_is_max: "logits_row l \<Longrightarrow> is_max_at l (unat (pick l))"
begin

lemma pick_in_range: "logits_row l \<Longrightarrow> unat (pick l) < length l"
  using pick_is_max by (auto simp: is_max_at_def)

lemma pick_unique:
  assumes "logits_row l" and "m < length l"
    and "\<And>j. j < length l \<Longrightarrow> j \<noteq> m \<Longrightarrow> f32_key (l ! j) < f32_key (l ! m)"
  shows "pick l = of_nat m"
proof -
  have "unat (pick l) = m"
    using pick_is_max [OF assms(1)] assms(2,3) unfolding is_max_at_def by (metis leD)
  then have "of_nat (unat (pick l)) = (of_nat m :: i32)" by simp
  then show ?thesis by simp
qed

text \<open>A logit forced to \<open>-inf\<close> is not picked while some other logit is above \<open>-inf\<close>.\<close>

lemma masked_not_picked:
  assumes "logits_row l" and "f32_key (l ! unat (pick l)) = f32_key NEG_INFINITY"
    and "j < length l"
  shows "f32_key (l ! j) = f32_key NEG_INFINITY"
proof -
  have "\<not> f32_nan (l ! j)" using assms(1,3) by (simp add: logits_row_def nan_free_nth)
  then have "f32_key NEG_INFINITY \<le> f32_key (l ! j)" by (rule f32_key_bound)
  moreover have "f32_key (l ! j) \<le> f32_key NEG_INFINITY"
    using pick_is_max [OF assms(1)] assms(2,3) by (simp add: is_max_at_def)
  ultimately show ?thesis by simp
qed

end

interpretation dialogue_pick: greedy_pick dialogue_argmax
proof
  fix l assume "logits_row l"
  then show "is_max_at l (unat (dialogue_argmax l))"
    using dialogue_argmax_first_max [of l] unat_index [of _ l]
    by (auto simp: logits_row_def first_max_def is_max_at_def)
qed

interpretation spec_pick: greedy_pick spec_argmax
proof
  fix l assume "logits_row l"
  then show "is_max_at l (unat (spec_argmax l))"
    using spec_argmax_last_max [of l] unat_index [of _ l]
    by (auto simp: logits_row_def last_max_def is_max_at_def)
qed

end
