(* ===== verification/Session.thy ===== *)
theory Session
  imports Float32
begin

text \<open>
  \<^verbatim>\<open>session.rs\<close>: the Rust wrapper around one resident L1 decode session. The C functions behind
  it (\<^verbatim>\<open>sp_prefill_chunk\<close>, \<^verbatim>\<open>sp_decode_step\<close>, \<^verbatim>\<open>sp_session_rewind\<close>,
  \<^verbatim>\<open>sp_session_position\<close>) belong to the math-core submodule, which is not in the repository: they are
  the fields of \<open>l1_api\<close>, an argument of every operation. Each call returns a status, the
  session after the call and the logits buffer as the call left it, also when it failed.
  The Rust side turns a status other than \<^verbatim>\<open>SP_OK\<close> into an \<open>Err\<close>; the detail string of
  \<^verbatim>\<open>sp_last_error\<close> is dropped here.
\<close>

record 's l1_api =
  l1_prefill :: "'s \<Rightarrow> i32 list \<Rightarrow> f32 list \<Rightarrow> i32 \<times> 's \<times> f32 list"
  l1_decode :: "'s \<Rightarrow> i32 \<Rightarrow> f32 list \<Rightarrow> i32 \<times> 's \<times> f32 list"
  l1_rewind :: "'s \<Rightarrow> nat \<Rightarrow> i32 \<times> 's"
  l1_position :: "'s \<Rightarrow> i32 \<times> nat"

definition SP_OK :: i32 where
  "SP_OK = 0"

datatype session_error =
    PrefillFailed i32
  | DecodeFailed i32
  | RewindFailed nat i32
  | PositionFailed i32
  | ArithOverflow

definition position :: "'s l1_api \<Rightarrow> 's \<Rightarrow> session_error + nat" where
  "position api s =
     (case l1_position api s of (status, pos) \<Rightarrow>
        if status = SP_OK then Inr pos else Inl (PositionFailed status))"

definition prefill_chunk ::
  "'s l1_api \<Rightarrow> 's \<Rightarrow> i32 list \<Rightarrow> f32 list \<Rightarrow> (session_error + unit) \<times> 's \<times> f32 list" where
  "prefill_chunk api s tokens logits =
     (case l1_prefill api s tokens logits of (status, s', logits') \<Rightarrow>
        ((if status = SP_OK then Inr () else Inl (PrefillFailed status)), s', logits'))"

definition decode_step ::
  "'s l1_api \<Rightarrow> 's \<Rightarrow> i32 \<Rightarrow> f32 list \<Rightarrow> (session_error + unit) \<times> 's \<times> f32 list" where
  "decode_step api s token logits =
     (case l1_decode api s token logits of (status, s', logits') \<Rightarrow>
        ((if status = SP_OK then Inr () else Inl (DecodeFailed status)), s', logits'))"

definition rewind :: "'s l1_api \<Rightarrow> 's \<Rightarrow> nat \<Rightarrow> (session_error + unit) \<times> 's" where
  "rewind api s n_tokens =
     (case l1_rewind api s n_tokens of (status, s') \<Rightarrow>
        ((if status = SP_OK then Inr () else Inl (RewindFailed n_tokens status)), s'))"

subsection \<open>The documented behaviour of a session\<close>

text \<open>
  \<open>hist s\<close> is the list of tokens in the KV cache, \<open>fwd s h\<close> the logits the model of \<open>s\<close>
  computes after the history \<open>h\<close> (decoding is deterministic), \<open>ctx\<close> the context length.
  A decode within the context appends one token and returns the logits after it; a prefill
  does the same for a chunk; a rewind drops the last \<open>n\<close> tokens, and the session is then
  in the state it had there (the comment on \<^verbatim>\<open>rewind\<close> calls this Corollary T8.1).
\<close>

definition l1_contract ::
  "'s l1_api \<Rightarrow> ('s \<Rightarrow> i32 list) \<Rightarrow> ('s \<Rightarrow> i32 list \<Rightarrow> f32 list) \<Rightarrow> nat \<Rightarrow> bool" where
  "l1_contract api hist fwd ctx \<longleftrightarrow>
     (\<forall>s tok l. length (hist s) < ctx \<longrightarrow>
        (\<exists>s'. l1_decode api s tok l = (SP_OK, s', fwd s (hist s @ [tok])) \<and>
              hist s' = hist s @ [tok] \<and> fwd s' = fwd s)) \<and>
     (\<forall>s toks l. toks \<noteq> [] \<longrightarrow> length (hist s) + length toks \<le> ctx \<longrightarrow>
        (\<exists>s'. l1_prefill api s toks l = (SP_OK, s', fwd s (hist s @ toks)) \<and>
              hist s' = hist s @ toks \<and> fwd s' = fwd s)) \<and>
     (\<forall>s n. n \<le> length (hist s) \<longrightarrow>
        (\<exists>s'. l1_rewind api s n = (SP_OK, s') \<and>
              hist s' = take (length (hist s) - n) (hist s) \<and> fwd s' = fwd s))"

lemma decode_step_contract:
  assumes "l1_contract api hist fwd ctx" and "length (hist s) < ctx"
  obtains s' where "decode_step api s tok l = (Inr (), s', fwd s (hist s @ [tok]))"
    and "hist s' = hist s @ [tok]" and "fwd s' = fwd s"
proof -
  from assms obtain s' where "l1_decode api s tok l = (SP_OK, s', fwd s (hist s @ [tok]))"
    "hist s' = hist s @ [tok]" "fwd s' = fwd s"
    unfolding l1_contract_def by blast
  then show thesis by (intro that [of s']) (simp_all add: decode_step_def)
qed

lemma prefill_chunk_contract:
  assumes "l1_contract api hist fwd ctx" and "toks \<noteq> []" and "length (hist s) + length toks \<le> ctx"
  obtains s' where "prefill_chunk api s toks l = (Inr (), s', fwd s (hist s @ toks))"
    and "hist s' = hist s @ toks" and "fwd s' = fwd s"
proof -
  from assms obtain s' where "l1_prefill api s toks l = (SP_OK, s', fwd s (hist s @ toks))"
    "hist s' = hist s @ toks" "fwd s' = fwd s"
    unfolding l1_contract_def by blast
  then show thesis by (intro that [of s']) (simp_all add: prefill_chunk_def)
qed

lemma rewind_contract:
  assumes "l1_contract api hist fwd ctx" and "n \<le> length (hist s)"
  obtains s' where "rewind api s n = (Inr (), s')"
    and "hist s' = take (length (hist s) - n) (hist s)" and "fwd s' = fwd s"
proof -
  from assms obtain s' where "l1_rewind api s n = (SP_OK, s')"
    "hist s' = take (length (hist s) - n) (hist s)" "fwd s' = fwd s"
    unfolding l1_contract_def by blast
  then show thesis by (intro that [of s']) (simp_all add: rewind_def)
qed

text \<open>A reference session: a model (its logits function) and the tokens in its cache.\<close>

definition ref_api :: "((i32 list \<Rightarrow> f32 list) \<times> i32 list) l1_api" where
  "ref_api = \<lparr>
     l1_prefill = (\<lambda>(f, h) toks l. (SP_OK, (f, h @ toks), f (h @ toks))),
     l1_decode = (\<lambda>(f, h) tok l. (SP_OK, (f, h @ [tok]), f (h @ [tok]))),
     l1_rewind = (\<lambda>(f, h) n. (SP_OK, (f, take (length h - n) h))),
     l1_position = (\<lambda>(f, h). (SP_OK, length h))\<rparr>"

lemma ref_api_contract: "l1_contract ref_api snd fst ctx"
  by (auto simp: l1_contract_def ref_api_def)

subsection \<open>Greedy continuation: the reference the decode loops are compared with\<close>

fun greedy :: "(f32 list \<Rightarrow> i32) \<Rightarrow> (i32 list \<Rightarrow> f32 list) \<Rightarrow> i32 list \<Rightarrow> nat \<Rightarrow> i32 list" where
  "greedy pick f h 0 = []"
| "greedy pick f h (Suc n) = pick (f h) # greedy pick f (h @ [pick (f h)]) n"

lemma length_greedy [simp]: "length (greedy pick f h n) = n"
  by (induction n arbitrary: h) auto

lemma take_greedy: "m \<le> n \<Longrightarrow> take m (greedy pick f h n) = greedy pick f h m"
proof (induction n arbitrary: h m)
  case 0
  then show ?case by simp
next
  case (Suc n)
  then show ?case by (cases m) auto
qed

lemma greedy_add: "greedy pick f h (m + n) = greedy pick f h m @ greedy pick f (h @ greedy pick f h m) n"
  by (induction m arbitrary: h) simp_all

lemma greedy_snoc:
  "greedy pick f h (Suc n) = greedy pick f h n @ [pick (f (h @ greedy pick f h n))]"
  using greedy_add [of pick f h n 1] by simp

lemma nth_greedy: "i < n \<Longrightarrow> greedy pick f h n ! i = pick (f (h @ greedy pick f h i))"
proof -
  assume i: "i < n"
  have "greedy pick f h n ! i = take (Suc i) (greedy pick f h n) ! i" by simp
  also have "\<dots> = greedy pick f h (Suc i) ! i" using i by (simp only: take_greedy)
  finally show ?thesis by (simp del: greedy.simps add: greedy_snoc nth_append)
qed

end
