(* ===== verification/Spec_Decode.thy ===== *)
theory Spec_Decode
  imports Session
begin

text \<open>
  \<^verbatim>\<open>spec.rs\<close>: one speculative decode iteration. The draft session proposes \<open>k\<close> tokens, the
  target session verifies them one by one against its own argmax, and a rejection rewinds the
  draft to the position of the target. The \<^verbatim>\<open>usize\<close> subtraction \<^verbatim>\<open>k - 1 - k_idx\<close> is checked
  (it underflows for \<open>k = 0\<close>).
\<close>

record spec_result =
  accepted :: "i32 list"
  next_target_logits :: "f32 list"
  next_draft_logits :: "f32 list option"

text \<open>Phase 1: \<^verbatim>\<open>for _ in 1..k\<close>, the draft feeds back its last token.\<close>

fun draft_phase ::
  "'s l1_api \<Rightarrow> nat \<Rightarrow> 's \<Rightarrow> f32 list \<Rightarrow> i32 list \<Rightarrow> (session_error + i32 list) \<times> 's \<times> f32 list" where
  "draft_phase api 0 draft d_logits draft_tokens = (Inr draft_tokens, draft, d_logits)"
| "draft_phase api (Suc n) draft d_logits draft_tokens =
     (case decode_step api draft (last draft_tokens) d_logits of
        (Inl e, draft', d_logits') \<Rightarrow> (Inl e, draft', d_logits')
      | (Inr _, draft', d_logits') \<Rightarrow>
          draft_phase api n draft' d_logits' (draft_tokens @ [spec_argmax d_logits']))"

text \<open>
  Phase 2: the target verifies from index \<open>k_idx\<close> on. The result is an early return
  (\<open>Inl e\<close>: an error; \<open>Inr (Some r)\<close>: the rejection result) or \<open>Inr None\<close> when all
  tokens were accepted; with it the two sessions, the accepted tokens and the target logits.
\<close>

fun verify_phase ::
  "'s l1_api \<Rightarrow> nat \<Rightarrow> nat \<Rightarrow> i32 list \<Rightarrow> 's \<Rightarrow> 's \<Rightarrow> f32 list \<Rightarrow> i32 list \<Rightarrow>
   (session_error + spec_result option) \<times> 's \<times> 's \<times> f32 list \<times> i32 list" where
  "verify_phase api k k_idx [] target draft t_logits acc = (Inr None, target, draft, t_logits, acc)"
| "verify_phase api k k_idx (draft_tok # rest) target draft t_logits acc =
     (if spec_argmax t_logits = draft_tok then
        (case decode_step api target draft_tok t_logits of
           (Inl e, target', t_logits') \<Rightarrow> (Inl e, target', draft, t_logits', acc @ [draft_tok])
         | (Inr _, target', t_logits') \<Rightarrow>
             verify_phase api k (Suc k_idx) rest target' draft t_logits' (acc @ [draft_tok]))
      else if k < Suc k_idx then (Inl ArithOverflow, target, draft, t_logits, acc)
      else
        (let rewind_by = k - 1 - k_idx;
             rejected = \<lparr>accepted = acc, next_target_logits = t_logits, next_draft_logits = None\<rparr>
         in if 0 < rewind_by then
              (case rewind api draft rewind_by of
                 (Inl e, draft') \<Rightarrow> (Inl e, target, draft', t_logits, acc)
               | (Inr _, draft') \<Rightarrow> (Inr (Some rejected), target, draft', t_logits, acc))
            else (Inr (Some rejected), target, draft, t_logits, acc)))"

definition spec_step ::
  "'s l1_api \<Rightarrow> 's \<Rightarrow> 's \<Rightarrow> f32 list \<Rightarrow> f32 list \<Rightarrow> nat \<Rightarrow> nat \<Rightarrow>
   (session_error + spec_result) \<times> 's \<times> 's" where
  "spec_step api target draft target_logits draft_logits k vocab_size =
     (case draft_phase api (k - 1) draft (replicate vocab_size 0) [spec_argmax draft_logits] of
        (Inl e, draft', _) \<Rightarrow> (Inl e, target, draft')
      | (Inr draft_tokens, draft', d_logits) \<Rightarrow>
          (case verify_phase api k 0 draft_tokens target draft' target_logits [] of
             (Inl e, target', draft'', _) \<Rightarrow> (Inl e, target', draft'')
           | (Inr (Some r), target', draft'', _) \<Rightarrow> (Inr r, target', draft'')
           | (Inr None, target', draft'', t_logits, acc) \<Rightarrow>
               (case decode_step api draft'' (last draft_tokens) d_logits of
                  (Inl e, draft3, _) \<Rightarrow> (Inl e, target', draft3)
                | (Inr _, draft3, d_logits') \<Rightarrow>
                    (Inr \<lparr>accepted = acc, next_target_logits = t_logits,
                          next_draft_logits = Some d_logits'\<rparr>, target', draft3))))"

subsection \<open>Phase 1 computes the draft's greedy continuation\<close>

lemma draft_phase_greedy:
  assumes "l1_contract api hist fwd ctx"
    and "length (hist draft) + n < ctx \<or> n = 0"
    and "toks \<noteq> []" and "hist draft = h @ butlast toks"
    and "toks = greedy spec_argmax (fwd draft) h (length toks)"
  shows "\<exists>draft' dl'. draft_phase api n draft dl toks =
      (Inr (greedy spec_argmax (fwd draft) h (length toks + n)), draft', dl') \<and>
      hist draft' = h @ butlast (greedy spec_argmax (fwd draft) h (length toks + n)) \<and>
      fwd draft' = fwd draft"
  using assms(2-5)
proof (induction n arbitrary: draft toks dl)
  case 0
  then show ?case by auto
next
  case (Suc n)
  let ?f = "fwd draft"
  have full: "hist draft @ [last toks] = h @ toks"
    using Suc.prems(2,3) by simp
  obtain d' where d: "decode_step api draft (last toks) dl = (Inr (), d', ?f (h @ toks))"
    "hist d' = h @ toks" "fwd d' = ?f"
    using decode_step_contract [OF assms(1), of draft "last toks" dl] Suc.prems(1) full
    by (metis add_lessD1 nat.distinct(1))
  let ?toks = "toks @ [spec_argmax (?f (h @ toks))]"
  have g: "?toks = greedy spec_argmax ?f h (length ?toks)"
    using Suc.prems(4) greedy_snoc [of spec_argmax ?f h "length toks"] by simp
  have "\<exists>draft' dl'. draft_phase api n d' (?f (h @ toks)) ?toks =
      (Inr (greedy spec_argmax (fwd d') h (length ?toks + n)), draft', dl') \<and>
      hist draft' = h @ butlast (greedy spec_argmax (fwd d') h (length ?toks + n)) \<and>
      fwd draft' = fwd d'"
  proof (rule Suc.IH)
    show "length (hist d') + n < ctx \<or> n = 0"
      using Suc.prems(1) d(2) full by (metis add_Suc_shift length_append_singleton nat.distinct(1))
    show "?toks = greedy spec_argmax (fwd d') h (length ?toks)" using g d(3) by simp
  qed (use d in auto)
  then show ?case using d by simp
qed

subsection \<open>Phase 2 accepts the longest common prefix\<close>

text \<open>The number of leading positions on which two token lists agree.\<close>

fun agree_len :: "'a list \<Rightarrow> 'a list \<Rightarrow> nat" where
  "agree_len (x # xs) (y # ys) = (if x = y then Suc (agree_len xs ys) else 0)"
| "agree_len _ _ = 0"

lemma agree_len_le: "agree_len xs ys \<le> length xs" "agree_len xs ys \<le> length ys"
  by (induction xs ys rule: agree_len.induct) auto

lemma take_agree_len: "take (agree_len xs ys) xs = take (agree_len xs ys) ys"
  by (induction xs ys rule: agree_len.induct) auto

lemma nth_agree_len:
  "agree_len xs ys < length xs \<Longrightarrow> agree_len xs ys < length ys \<Longrightarrow>
   xs ! agree_len xs ys \<noteq> ys ! agree_len xs ys"
  by (induction xs ys rule: agree_len.induct) auto

lemma verify_phase_prefix:
  assumes "l1_contract api hist fwd ctx"
    and "length (hist target) + length toks \<le> ctx"
    and "t_logits = fwd target (hist target)"
    and "k_idx + length toks = k"
    and "length toks - 1 \<le> length (hist draft)"
  shows "let f = fwd target; h = hist target;
             a = agree_len (greedy spec_argmax f h (length toks)) toks
         in \<exists>target' draft'. hist target' = h @ take a toks \<and> fwd target' = f \<and> fwd draft' = fwd draft \<and>
           hist draft' = take (length (hist draft) - (length toks - 1 - a)) (hist draft) \<and>
           verify_phase api k k_idx toks target draft t_logits acc =
             ((if a < length toks
               then Inr (Some \<lparr>accepted = acc @ take a toks, next_target_logits = f (h @ take a toks),
                               next_draft_logits = None\<rparr>)
               else Inr None),
              target', draft', f (h @ take a toks), acc @ take a toks)"
  using assms(2-5)
proof (induction toks arbitrary: target t_logits k_idx acc)
  case Nil
  then show ?case by auto
next
  case (Cons tok toks)
  let ?f = "fwd target" and ?h = "hist target"
  show ?case
  proof (cases "spec_argmax (?f ?h) = tok")
    case True
    have lt: "length ?h < ctx" using Cons.prems(1) by simp
    obtain t' where t: "decode_step api target tok t_logits = (Inr (), t', ?f (?h @ [tok]))"
      "hist t' = ?h @ [tok]" "fwd t' = ?f"
      using decode_step_contract [OF assms(1) lt] by metis
    let ?a = "agree_len (greedy spec_argmax ?f (?h @ [tok]) (length toks)) toks"
    have IH: "let f = fwd t'; h = hist t'; a = agree_len (greedy spec_argmax f h (length toks)) toks
        in \<exists>target' draft'. hist target' = h @ take a toks \<and> fwd target' = f \<and> fwd draft' = fwd draft \<and>
           hist draft' = take (length (hist draft) - (length toks - 1 - a)) (hist draft) \<and>
           verify_phase api k (Suc k_idx) toks t' draft (?f (?h @ [tok])) (acc @ [tok]) =
             ((if a < length toks
               then Inr (Some \<lparr>accepted = (acc @ [tok]) @ take a toks, next_target_logits = f (h @ take a toks),
                               next_draft_logits = None\<rparr>)
               else Inr None),
              target', draft', f (h @ take a toks), (acc @ [tok]) @ take a toks)"
      by (rule Cons.IH) (use Cons.prems t in auto)
    then obtain target' draft' where o: "hist target' = hist t' @ take ?a toks" "fwd target' = ?f"
        "fwd draft' = fwd draft"
        "hist draft' = take (length (hist draft) - (length toks - 1 - ?a)) (hist draft)"
        "verify_phase api k (Suc k_idx) toks t' draft (?f (?h @ [tok])) (acc @ [tok]) =
          ((if ?a < length toks
            then Inr (Some \<lparr>accepted = (acc @ [tok]) @ take ?a toks,
                            next_target_logits = ?f (hist t' @ take ?a toks), next_draft_logits = None\<rparr>)
            else Inr None),
           target', draft', ?f (hist t' @ take ?a toks), (acc @ [tok]) @ take ?a toks)"
      unfolding Let_def t(2,3) by blast
    show ?thesis unfolding Let_def
      by (rule exI [of _ target'], rule exI [of _ draft']) (use o t True Cons.prems in simp)
  next
    case False
    have k: "Suc k_idx \<le> k" "k - Suc k_idx = length toks" using Cons.prems(3) by auto
    show ?thesis
    proof (cases "toks = []")
      case True
      then show ?thesis using False Cons.prems k by (auto simp: Let_def)
    next
      case ne: False
      then have le: "length toks \<le> length (hist draft)" using Cons.prems(4) by simp
      obtain d' where "rewind api draft (length toks) = (Inr (), d')"
        "hist d' = take (length (hist draft) - length toks) (hist draft)" "fwd d' = fwd draft"
        using rewind_contract [OF assms(1) le] by metis
      then show ?thesis using False Cons.prems k ne by (auto simp: Let_def)
    qed
  qed
qed

subsection \<open>One iteration, end to end\<close>

lemma take_butlast_less: "a < length xs \<Longrightarrow> take a (butlast xs) = take a xs"
  by (simp add: butlast_conv_take)

text \<open>
  C1. One speculative iteration returns exactly the longest common prefix of the target's and the
  draft's greedy continuations: every accepted token is the token the target would have produced
  alone, both sessions end at the position after it, the returned target logits are those of that
  position, and draft logits are returned exactly when all \<open>k\<close> proposals were accepted.
\<close>

theorem spec_step_correct:
  assumes contract: "l1_contract api hist fwd ctx"
    and aligned: "hist draft = hist target"
    and t_logits: "target_logits = fwd target (hist target)"
    and d_logits: "draft_logits = fwd draft (hist draft)"
    and k: "0 < k" and room: "length (hist target) + k \<le> ctx"
  defines "g \<equiv> greedy spec_argmax (fwd target) (hist target) k"
    and "d \<equiv> greedy spec_argmax (fwd draft) (hist target) k"
  shows "\<exists>r target' draft'.
    spec_step api target draft target_logits draft_logits k vocab_size = (Inr r, target', draft') \<and>
    accepted r = take (agree_len g d) g \<and>
    hist target' = hist target @ accepted r \<and> hist draft' = hist target @ accepted r \<and>
    next_target_logits r = fwd target (hist target @ accepted r) \<and>
    next_draft_logits r =
      (if agree_len g d < k then None else Some (fwd draft (hist target @ accepted r)))"
proof -
  let ?h = "hist target" and ?a = "agree_len g d"
  have len: "length g = k" "length d = k" by (simp_all add: g_def d_def)
  have ak: "?a \<le> k" using agree_len_le(1) [of g d] len by simp
  have same: "take ?a d = take ?a g" by (simp add: take_agree_len)
  have one: "[spec_argmax draft_logits] = greedy spec_argmax (fwd draft) ?h (length [spec_argmax draft_logits])"
    by (simp add: d_logits aligned)
  have room1: "length (hist draft) + (k - 1) < ctx \<or> k - 1 = 0"
    using aligned k room by (simp, linarith)
  obtain d1 dl where p1: "draft_phase api (k - 1) draft (replicate vocab_size 0)
        [spec_argmax draft_logits] = (Inr d, d1, dl)"
      "hist d1 = ?h @ butlast d" "fwd d1 = fwd draft"
    using draft_phase_greedy [OF contract room1 _ _ one, of "replicate vocab_size 0"] aligned k
    by (auto simp: d_def)
  obtain t2 d2 where p2: "hist t2 = ?h @ take ?a d" "fwd d2 = fwd d1"
      "hist d2 = take (length (hist d1) - (k - 1 - ?a)) (hist d1)"
      "verify_phase api k 0 d target d1 target_logits [] =
         ((if ?a < k then Inr (Some \<lparr>accepted = [] @ take ?a d,
              next_target_logits = fwd target (?h @ take ?a d), next_draft_logits = None\<rparr>)
           else Inr None), t2, d2, fwd target (?h @ take ?a d), [] @ take ?a d)"
    using verify_phase_prefix [OF contract, of target d target_logits 0 k d1 "[]"] t_logits room len p1(2)
    by (auto simp: Let_def g_def)
  show ?thesis
  proof (cases "?a < k")
    case True
    then have "hist d2 = ?h @ take ?a g"
      using p2(3) p1(2) len same by (simp add: take_butlast_less)
    then show ?thesis using p1 p2 True same by (simp add: spec_step_def)
  next
    case False
    then have a: "?a = k" using ak by simp
    then have gd: "g = d" using same len by simp
    have h2: "hist d2 = ?h @ butlast d" using p2(3) p1(2) a len by simp
    have "d \<noteq> []" using len k by auto
    then have l: "hist d2 @ [last d] = ?h @ d" using h2 by simp
    obtain d3 where p3: "decode_step api d2 (last d) dl = (Inr (), d3, fwd draft (?h @ d))"
        "hist d3 = ?h @ d"
      using decode_step_contract [OF contract, of d2 "last d" dl] h2 l len k room p1(3) p2(2)
      by (metis (no_types, lifting) add_diff_inverse_nat add_less_cancel_left diff_less le_less_trans
          length_append length_butlast less_one less_le_trans not_less_zero zero_less_one)
    show ?thesis using p1 p2 p3 a gd len by (simp add: spec_step_def)
  qed
qed

text \<open>A target that alternates 0 and 1, a draft that always proposes 1.\<close>

lemma spec_step_correct_witness:
  fixes tgt drf :: "i32 list \<Rightarrow> f32 list"
  defines "tgt \<equiv> \<lambda>h. if even (length h) then [0x3F800000, 0] else [0, 0x3F800000]"
    and "drf \<equiv> \<lambda>h. [0, 0x3F800000]"
  shows "\<exists>r t' d'. spec_step ref_api (tgt, [7]) (drf, [7]) (tgt [7]) (drf [7]) 3 2 = (Inr r, t', d') \<and>
    accepted r = [1] \<and> snd t' = [7, 1] \<and> snd d' = [7, 1] \<and> next_draft_logits r = None"
proof -
  have k: "f32_key 0 = 0" "f32_key 0x3F800000 = 0x3F800000" "\<not> f32_nan 0" "\<not> f32_nan 0x3F800000"
    by (simp_all add: f32_key_def f32_nan_def bit_numeral_rec)
  have p: "spec_argmax [0, 0x3F800000] = 1" "spec_argmax [0x3F800000, 0] = 0" by (simp_all add: k)
  have g: "greedy spec_argmax tgt [7] 3 = [1, 0, 1]" "greedy spec_argmax drf [7] 3 = [1, 1, 1]"
    by (simp_all del: spec_argmax.simps add: tgt_def drf_def p numeral_3_eq_3)
  have pre: "snd (drf, [7]) = snd (tgt, [7])" "tgt [7] = fst (tgt, [7]) (snd (tgt, [7]))"
    "drf [7] = fst (drf, [7]) (snd (drf, [7]))" "(0::nat) < 3" "length (snd (tgt, [7 :: i32])) + 3 \<le> 10"
    by simp_all
  obtain r t' d' where o: "spec_step ref_api (tgt, [7]) (drf, [7]) (tgt [7]) (drf [7]) 3 2 = (Inr r, t', d')"
      "accepted r = take (agree_len [1, 0, 1] [1, 1, 1 :: i32]) [1, 0, 1]"
      "snd t' = [7] @ accepted r" "snd d' = [7] @ accepted r"
      "next_draft_logits r = (if agree_len [1, 0, 1] [1, 1, 1 :: i32] < 3 then None
         else Some (drf ([7] @ accepted r)))"
    using spec_step_correct [OF ref_api_contract pre, of 2] unfolding fst_conv snd_conv g by blast
  show ?thesis using o by (intro exI [of _ r] exI [of _ t'] exI [of _ d']) simp
qed

end
