(* ===== verification/Dialogue.thy ===== *)
theory Dialogue
  imports Session
begin

text \<open>
  \<^verbatim>\<open>dialogue.rs\<close> and \<^verbatim>\<open>dialogue_runner.rs\<close>: the 64-byte \<^verbatim>\<open>SpinorReceipt\<close> with its wire
  form, and the three-turn dialogue (Grounding, Entity ID, Synthesis) that mints one receipt per
  turn. SHA-256 (the \<^verbatim>\<open>sha2\<close> crate), the tokenizer and the clock are arguments.
\<close>

subsection \<open>The receipt\<close>

record spinor_receipt =
  turn_index :: u8
  model_id :: u8
  pad :: bytes
  wall_us :: u32
  input_hash :: bytes
  output_hash :: bytes
  n_input_tokens :: u32
  n_output_tokens :: u8
  reserved :: bytes
  sentinel :: u8

definition MODEL_ID_EXECUTIVE :: u8 where "MODEL_ID_EXECUTIVE = 0xE"
definition MODEL_ID_MEMORY :: u8 where "MODEL_ID_MEMORY = 0x4D"
definition SPINOR_SENTINEL :: u8 where "SPINOR_SENTINEL = 0xA5"
definition RECEIPT_BYTES :: nat where "RECEIPT_BYTES = 64"

text \<open>The fixed array lengths of the Rust struct.\<close>

definition receipt_ok :: "spinor_receipt \<Rightarrow> bool" where
  "receipt_ok r \<longleftrightarrow> length (pad r) = 2 \<and> length (input_hash r) = 24 \<and>
     length (output_hash r) = 24 \<and> length (reserved r) = 2"

text \<open>\<^verbatim>\<open>as_bytes\<close>: the \<^verbatim>\<open>repr(C, packed)\<close> image on the little-endian targets of the code.\<close>

definition as_bytes :: "spinor_receipt \<Rightarrow> bytes" where
  "as_bytes r =
     [turn_index r, model_id r] @ pad r @ to_le 4 (wall_us r) @ input_hash r @ output_hash r @
     to_le 4 (n_input_tokens r) @ [n_output_tokens r] @ reserved r @ [sentinel r]"

text \<open>\<^verbatim>\<open>pouw_ledger.rs::receipt_from_bytes\<close>: the bit-for-bit copy back.\<close>

definition receipt_from_bytes :: "bytes \<Rightarrow> spinor_receipt" where
  "receipt_from_bytes buf = \<lparr>
     turn_index = buf ! 0, model_id = buf ! 1, pad = bslice 2 4 buf,
     wall_us = from_le (bslice 4 8 buf), input_hash = bslice 8 32 buf,
     output_hash = bslice 32 56 buf, n_input_tokens = from_le (bslice 56 60 buf),
     n_output_tokens = buf ! 60, reserved = bslice 61 63 buf, sentinel = buf ! 63\<rparr>"

definition hash_buf :: "(bytes \<Rightarrow> bytes) \<Rightarrow> u8 \<Rightarrow> u8 \<Rightarrow> i32 list \<Rightarrow> bytes" where
  "hash_buf sha256 turn model tokens =
     take 24 (sha256 ([model, turn] @ concat (map (to_le 4) tokens)))"

definition mint ::
  "(bytes \<Rightarrow> bytes) \<Rightarrow> u8 \<Rightarrow> u8 \<Rightarrow> i32 list \<Rightarrow> i32 list \<Rightarrow> u64 \<Rightarrow> spinor_receipt" where
  "mint sha256 turn model input_tokens output_tokens wall = \<lparr>
     turn_index = turn, model_id = model, pad = [0, 0],
     wall_us = ucast (min wall 0xFFFFFFFF),
     input_hash = hash_buf sha256 turn model input_tokens,
     output_hash = hash_buf sha256 turn model output_tokens,
     n_input_tokens = of_nat (min (length input_tokens) 0xFFFFFFFF),
     n_output_tokens = of_nat (min (length output_tokens) 0xFF),
     reserved = [0, 0], sentinel = SPINOR_SENTINEL\<rparr>"

definition sentinel_ok :: "spinor_receipt \<Rightarrow> bool" where
  "sentinel_ok r \<longleftrightarrow> sentinel r = SPINOR_SENTINEL"

definition hashes_nonzero :: "spinor_receipt \<Rightarrow> bool" where
  "hashes_nonzero r \<longleftrightarrow> list_ex (\<lambda>b. b \<noteq> 0) (input_hash r) \<and> list_ex (\<lambda>b. b \<noteq> 0) (output_hash r)"

definition with_sequence_rank :: "spinor_receipt \<Rightarrow> u16 \<Rightarrow> spinor_receipt" where
  "with_sequence_rank r rank = r\<lparr>reserved := to_le 2 rank\<rparr>"

definition sequence_rank :: "spinor_receipt \<Rightarrow> u16" where
  "sequence_rank r = from_le (reserved r)"

subsection \<open>The wire form is an exact codec\<close>

lemma length_as_bytes: "receipt_ok r \<Longrightarrow> length (as_bytes r) = RECEIPT_BYTES"
  by (simp add: receipt_ok_def as_bytes_def RECEIPT_BYTES_def)

lemma as_bytes_last: "receipt_ok r \<Longrightarrow> as_bytes r ! 63 = sentinel r"
  by (simp add: receipt_ok_def as_bytes_def nth_append)

lemma receipt_of_as_bytes: "receipt_ok r \<Longrightarrow> receipt_from_bytes (as_bytes r) = r"
  by (cases r) (simp add: receipt_ok_def as_bytes_def receipt_from_bytes_def bslice_def nth_append
      take_Cons' drop_Cons')

lemma receipt_from_bytes_ok: "length bs = RECEIPT_BYTES \<Longrightarrow> receipt_ok (receipt_from_bytes bs)"
  by (simp add: receipt_ok_def receipt_from_bytes_def RECEIPT_BYTES_def)

lemma nth_bslice: "i < length bs \<Longrightarrow> [bs ! i] = bslice i (Suc i) bs"
  by (simp add: bslice_def take_Suc_conv_app_nth Cons_nth_drop_Suc [symmetric])

lemma as_bytes_of_receipt:
  assumes "length bs = RECEIPT_BYTES"
  shows "as_bytes (receipt_from_bytes bs) = bs"
proof -
  have n: "bs ! i # xs = bslice i (i + 1) bs @ xs" if "i < 64" for i xs
    using that assms nth_bslice [of i bs] by (simp add: RECEIPT_BYTES_def)
  have "as_bytes (receipt_from_bytes bs) =
      bslice 0 1 bs @ bslice 1 2 bs @ bslice 2 4 bs @ bslice 4 8 bs @ bslice 8 32 bs @ bslice 32 56 bs @
      bslice 56 60 bs @ bslice 60 61 bs @ bslice 61 63 bs @ bslice 63 64 bs"
    using assms by (simp add: as_bytes_def receipt_from_bytes_def n RECEIPT_BYTES_def
        to_le_from_le_widths numeral_2_eq_2 [symmetric])
  also have "\<dots> = bslice 0 64 bs"
    by (simp add: bslice_glue append.assoc [symmetric])
  finally show ?thesis using assms by (simp add: RECEIPT_BYTES_def)
qed

interpretation receipt_codec: exact_codec as_bytes receipt_from_bytes RECEIPT_BYTES receipt_ok
  by unfold_locales
    (simp_all add: length_as_bytes receipt_of_as_bytes receipt_from_bytes_ok as_bytes_of_receipt,
      simp add: RECEIPT_BYTES_def)

text \<open>What the rest relies on about SHA-256: its digests are 32 bytes.\<close>

definition digest32 :: "(bytes \<Rightarrow> bytes) \<Rightarrow> bool" where
  "digest32 sha256 \<longleftrightarrow> (\<forall>m. length (sha256 m) = 32)"

lemma mint_ok: "digest32 sha256 \<Longrightarrow> receipt_ok (mint sha256 t m i out w)"
  by (simp add: receipt_ok_def mint_def hash_buf_def digest32_def)

lemma mint_sentinel: "sentinel_ok (mint sha256 t m i out w)"
  by (simp add: sentinel_ok_def mint_def)

lemma with_sequence_rank_ok: "receipt_ok r \<Longrightarrow> receipt_ok (with_sequence_rank r k)"
  by (simp add: receipt_ok_def with_sequence_rank_def)

lemma sequence_rank_with [simp]: "sequence_rank (with_sequence_rank r k) = k"
  by (simp add: sequence_rank_def with_sequence_rank_def)

lemma with_sequence_rank_bytes:
  assumes "receipt_ok r"
  shows "as_bytes (with_sequence_rank r k) = take 61 (as_bytes r) @ to_le 2 k @ [sentinel r]"
  using assms by (simp add: receipt_ok_def with_sequence_rank_def as_bytes_def take_Cons')


subsection \<open>Properties\<close>

text \<open>
  The wire form of a receipt is exact: a well-formed receipt is 64 bytes long with the sentinel
  last and reads back equal, and every 64-byte block is the image of exactly one well-formed receipt.
\<close>

theorem receipt_wire_exact:
  "(receipt_ok r \<longrightarrow> length (as_bytes r) = 64 \<and> as_bytes r ! 63 = sentinel r \<and>
      receipt_from_bytes (as_bytes r) = r) \<and>
   (length bs = 64 \<longrightarrow> receipt_ok (receipt_from_bytes bs) \<and> as_bytes (receipt_from_bytes bs) = bs)"
  by (simp add: length_as_bytes as_bytes_last receipt_of_as_bytes receipt_from_bytes_ok
      as_bytes_of_receipt RECEIPT_BYTES_def [symmetric])

lemma receipt_wire_exact_witness:
  "receipt_ok (receipt_from_bytes (replicate 64 3)) \<and>
    as_bytes (receipt_from_bytes (replicate 64 3)) = replicate 64 3 \<and>
    receipt_from_bytes (as_bytes (receipt_from_bytes (replicate 64 3))) = receipt_from_bytes (replicate 64 3)"
  using receipt_wire_exact [of "receipt_from_bytes (replicate 64 3)" "replicate 64 3"] by simp

text \<open>
  Rank stamping is local: \<^verbatim>\<open>with_sequence_rank\<close> makes \<^verbatim>\<open>sequence_rank\<close> read the new
  rank and changes no byte of the wire form other than bytes 61 and 62.
\<close>

theorem rank_stamp_local:
  assumes "receipt_ok r"
  shows "sequence_rank (with_sequence_rank r k) = k \<and> receipt_ok (with_sequence_rank r k) \<and>
    (\<forall>i\<in>{..<64} - {61, 62}. as_bytes (with_sequence_rank r k) ! i = as_bytes r ! i)"
proof -
  have l: "length (as_bytes r) = 64" using assms by (simp add: length_as_bytes RECEIPT_BYTES_def)
  have "as_bytes (with_sequence_rank r k) ! i = as_bytes r ! i" if "i < 64" "i \<noteq> 61" "i \<noteq> 62" for i
  proof (cases "i < 61")
    case True
    then show ?thesis using assms l by (simp add: with_sequence_rank_bytes nth_append)
  next
    case False
    then have "i = 63" using that by linarith
    then show ?thesis using assms l by (simp add: with_sequence_rank_bytes nth_append as_bytes_last)
  qed
  then show ?thesis using assms by (simp add: with_sequence_rank_ok)
qed

lemma rank_stamp_local_witness:
  "sequence_rank (with_sequence_rank (receipt_from_bytes (replicate 64 3)) 513) = 513 \<and>
    as_bytes (with_sequence_rank (receipt_from_bytes (replicate 64 3)) 513) ! 60 =
      as_bytes (receipt_from_bytes (replicate 64 3)) ! 60 \<and>
    as_bytes (with_sequence_rank (receipt_from_bytes (replicate 64 3)) 513) ! 63 =
      as_bytes (receipt_from_bytes (replicate 64 3)) ! 63"
  using rank_stamp_local [of "receipt_from_bytes (replicate 64 3)" 513]
  by (simp add: receipt_from_bytes_ok RECEIPT_BYTES_def)

end
