(* ===== verification/Pouw_Ledger.thy ===== *)
theory Pouw_Ledger
  imports Dialogue "HOL-Library.List_Lexorder" "HOL-Library.Product_Lexorder" "HOL-Library.Multiset"
begin

text \<open>
  \<^verbatim>\<open>pouw_ledger.rs\<close>: the append-only receipt ledger (a file of 64-byte records), its iterator,
  replay, canonical sort and broadcast. The file system is explicit state: a map from paths to
  contents and the set of paths that may be opened for writing. Every file may hold arbitrary
  bytes, so torn and corrupt files are covered; a device that fails in the middle of a write is
  not modelled (the code's comments assume atomic 64-byte appends).
\<close>

datatype io_error = NotFound | PermissionDenied | InvalidInput | UnexpectedEof

datatype ledger_error =
    Io io_error
  | BadSentinel nat u8
  | PartialTail nat

record fs =
  files :: "string \<Rightarrow> bytes option"
  writable :: "string \<Rightarrow> bool"

record ledger =
  path :: string
  bytes_written :: nat

subsection \<open>Open, append\<close>

definition ledger_open :: "string \<Rightarrow> fs \<Rightarrow> (ledger_error + ledger) \<times> fs" where
  "ledger_open p w =
     (if \<not> writable w p then (Inl (Io PermissionDenied), w)
      else (case files w p of
              None \<Rightarrow> (Inr \<lparr>path = p, bytes_written = 0\<rparr>, w\<lparr>files := (files w)(p \<mapsto> [])\<rparr>)
            | Some c \<Rightarrow> (Inr \<lparr>path = p, bytes_written = length c\<rparr>, w)))"

text \<open>
  \<^verbatim>\<open>Ledger::append\<close>: the write goes to the end of the file (\<^verbatim>\<open>O_APPEND\<close>); the returned offset
  is the cached counter.
\<close>

definition append_receipt :: "ledger \<Rightarrow> spinor_receipt \<Rightarrow> fs \<Rightarrow> (ledger_error + nat) \<times> ledger \<times> fs" where
  "append_receipt l receipt w =
     (case files w (path l) of
        None \<Rightarrow> (Inl (Io NotFound), l, w)
      | Some c \<Rightarrow>
          (Inr (bytes_written l),
           l\<lparr>bytes_written := bytes_written l + RECEIPT_BYTES\<rparr>,
           w\<lparr>files := (files w)(path l \<mapsto> c @ as_bytes receipt)\<rparr>))"

definition len_bytes :: "ledger \<Rightarrow> nat" where
  "len_bytes l = bytes_written l"

subsection \<open>The iterator\<close>

text \<open>\<open>it_file\<close> is the part of the file after the read cursor.\<close>

record ledger_iter =
  it_file :: bytes
  remaining :: nat
  index :: nat
  finished :: bool

definition ledger_iter :: "ledger \<Rightarrow> fs \<Rightarrow> ledger_error + ledger_iter" where
  "ledger_iter l w =
     (case files w (path l) of
        None \<Rightarrow> Inl (Io NotFound)
      | Some c \<Rightarrow> Inr \<lparr>it_file = c, remaining = length c, index = 0, finished = False\<rparr>)"

definition iter_next :: "ledger_iter \<Rightarrow> (ledger_error + spinor_receipt) option \<times> ledger_iter" where
  "iter_next it =
     (if finished it then (None, it)
      else if remaining it = 0 then (None, it\<lparr>finished := True\<rparr>)
      else if remaining it < RECEIPT_BYTES then
        (Some (Inl (PartialTail (remaining it))), it\<lparr>finished := True\<rparr>)
      else if length (it_file it) < RECEIPT_BYTES then
        (Some (Inl (Io UnexpectedEof)), it\<lparr>finished := True\<rparr>)
      else
        (let buf = take RECEIPT_BYTES (it_file it);
             it' = it\<lparr>it_file := drop RECEIPT_BYTES (it_file it),
                      remaining := remaining it - RECEIPT_BYTES\<rparr>
         in if buf ! 63 \<noteq> SPINOR_SENTINEL
            then (Some (Inl (BadSentinel (index it) (buf ! 63))), it'\<lparr>finished := True\<rparr>)
            else (Some (Inr (receipt_from_bytes buf)), it'\<lparr>index := index it + 1\<rparr>)))"

definition iter_measure :: "ledger_iter \<Rightarrow> nat" where
  "iter_measure it = (if finished it then 0 else Suc (remaining it))"

lemma iter_next_decreases: "iter_next it = (Some x, it') \<Longrightarrow> iter_measure it' < iter_measure it"
  by (auto simp: iter_next_def iter_measure_def Let_def RECEIPT_BYTES_def split: if_splits)

text \<open>Running \<^verbatim>\<open>next\<close> until it yields \<^verbatim>\<open>None\<close>: the loop of every consumer.\<close>

function iter_items :: "ledger_iter \<Rightarrow> (ledger_error + spinor_receipt) list" where
  "iter_items it =
     (case iter_next it of (None, _) \<Rightarrow> [] | (Some x, it') \<Rightarrow> x # iter_items it')"
  by pat_completeness auto
termination
  by (relation "measure iter_measure") (use iter_next_decreases in \<open>auto dest: sym\<close>)

declare iter_items.simps [simp del]

text \<open>\<^verbatim>\<open>collect::<Result<Vec<_>, _>>()\<close>: the first error wins.\<close>

fun collect_results :: "('e + 'a) list \<Rightarrow> 'e + 'a list" where
  "collect_results [] = Inr []"
| "collect_results (Inl e # xs) = Inl e"
| "collect_results (Inr x # xs) = map_sum id (Cons x) (collect_results xs)"

subsection \<open>Canonical sort and replay\<close>

definition canonical_key :: "spinor_receipt \<Rightarrow> u16 \<times> bytes" where
  "canonical_key r = (sequence_rank r, input_hash r)"

definition canonical_sort :: "ledger \<Rightarrow> fs \<Rightarrow> ledger_error + spinor_receipt list" where
  "canonical_sort l w =
     (case ledger_iter l w of
        Inl e \<Rightarrow> Inl e
      | Inr it \<Rightarrow> map_sum id (sort_key canonical_key) (collect_results (iter_items it)))"

fun append_all :: "spinor_receipt list \<Rightarrow> ledger \<Rightarrow> fs \<Rightarrow> (ledger_error + unit) \<times> ledger \<times> fs" where
  "append_all [] dest w = (Inr (), dest, w)"
| "append_all (r # rs) dest w =
     (case append_receipt dest r w of
        (Inl e, dest', w') \<Rightarrow> (Inl e, dest', w')
      | (Inr _, dest', w') \<Rightarrow> append_all rs dest' w')"

definition replay_canonical_into :: "ledger \<Rightarrow> ledger \<Rightarrow> fs \<Rightarrow> (ledger_error + nat) \<times> ledger \<times> fs" where
  "replay_canonical_into l dest w =
     (case canonical_sort l w of
        Inl e \<Rightarrow> (Inl e, dest, w)
      | Inr recs \<Rightarrow>
          (case append_all recs dest w of
             (Inl e, dest', w') \<Rightarrow> (Inl e, dest', w')
           | (Inr _, dest', w') \<Rightarrow> (Inr (length recs), dest', w')))"

text \<open>\<^verbatim>\<open>LedgerReplayer::replay_from\<close>: append while iterating, stop at the first error.\<close>

fun replay_loop ::
  "(ledger_error + spinor_receipt) list \<Rightarrow> nat \<Rightarrow> ledger \<Rightarrow> fs \<Rightarrow> (ledger_error + nat) \<times> ledger \<times> fs" where
  "replay_loop [] appended into w = (Inr appended, into, w)"
| "replay_loop (Inl e # items) appended into w = (Inl e, into, w)"
| "replay_loop (Inr r # items) appended into w =
     (case append_receipt into r w of
        (Inl e, into', w') \<Rightarrow> (Inl e, into', w')
      | (Inr _, into', w') \<Rightarrow> replay_loop items (Suc appended) into' w')"

definition replay_from :: "ledger \<Rightarrow> ledger \<Rightarrow> fs \<Rightarrow> (ledger_error + nat) \<times> ledger \<times> fs" where
  "replay_from source into w =
     (case ledger_iter source w of
        Inl e \<Rightarrow> (Inl e, into, w)
      | Inr it \<Rightarrow> replay_loop (iter_items it) 0 into w)"

definition replay_list ::
  "spinor_receipt list \<Rightarrow> ledger \<Rightarrow> fs \<Rightarrow> (ledger_error + nat) \<times> ledger \<times> fs" where
  "replay_list receipts into w =
     (case append_all receipts into w of
        (Inl e, into', w') \<Rightarrow> (Inl e, into', w')
      | (Inr _, into', w') \<Rightarrow> (Inr (length receipts), into', w'))"

subsection \<open>Broadcast\<close>

datatype read_outcome = Full bytes bytes | Eof | Short nat

text \<open>\<^verbatim>\<open>read_exact_or_eof\<close>: \<open>Full buf rest\<close>, clean end, or the count of a short last read.\<close>

definition read_exact_or_eof :: "bytes \<Rightarrow> read_outcome" where
  "read_exact_or_eof f =
     (if f = [] then Eof
      else if length f < RECEIPT_BYTES then Short (length f)
      else Full (take RECEIPT_BYTES f) (drop RECEIPT_BYTES f))"

function broadcast_loop :: "bytes \<Rightarrow> nat \<Rightarrow> spinor_receipt list \<Rightarrow> ledger_error + spinor_receipt list" where
  "broadcast_loop f idx out =
     (case read_exact_or_eof f of
        Eof \<Rightarrow> Inr out
      | Short extra \<Rightarrow> Inl (PartialTail extra)
      | Full buf rest \<Rightarrow>
          if buf ! 63 \<noteq> SPINOR_SENTINEL then Inl (BadSentinel idx (buf ! 63))
          else broadcast_loop rest (idx + 1) (out @ [receipt_from_bytes buf]))"
  by pat_completeness auto
termination
  by (relation "measure (\<lambda>(f, idx, out). length f)")
    (auto simp: read_exact_or_eof_def RECEIPT_BYTES_def split: if_splits)

declare broadcast_loop.simps [simp del]

definition broadcast_to_peers :: "ledger \<Rightarrow> nat \<Rightarrow> fs \<Rightarrow> ledger_error + spinor_receipt list" where
  "broadcast_to_peers l since_offset w =
     (if since_offset mod RECEIPT_BYTES \<noteq> 0 then Inl (Io InvalidInput)
      else (case files w (path l) of
              None \<Rightarrow> Inl (Io NotFound)
            | Some c \<Rightarrow> broadcast_loop (drop since_offset c) (since_offset div RECEIPT_BYTES) []))"

subsection \<open>What a file means: the reference reading\<close>

text \<open>
  \<open>valid r\<close>: a well-formed receipt with the sentinel; \<open>ledger_bytes rs\<close>: the file holding
  exactly \<open>rs\<close>; \<open>scan i c\<close>: the items of a file \<open>c\<close> whose first record has index \<open>i\<close>.
\<close>

definition valid :: "spinor_receipt \<Rightarrow> bool" where
  "valid r \<longleftrightarrow> receipt_ok r \<and> sentinel_ok r"

definition ledger_bytes :: "spinor_receipt list \<Rightarrow> bytes" where
  "ledger_bytes rs = concat (map as_bytes rs)"

function scan :: "nat \<Rightarrow> bytes \<Rightarrow> (ledger_error + spinor_receipt) list" where
  "scan i c =
     (if c = [] then []
      else if length c < 64 then [Inl (PartialTail (length c))]
      else if c ! 63 \<noteq> SPINOR_SENTINEL then [Inl (BadSentinel i (c ! 63))]
      else Inr (receipt_from_bytes (take 64 c)) # scan (i + 1) (drop 64 c))"
  by pat_completeness auto
termination
  by (relation "measure (\<lambda>(i, c). length c)") auto

declare scan.simps [simp del]

lemma scan_Nil [simp]: "scan i [] = []"
  by (simp add: scan.simps)

lemma ledger_bytes_simps [simp]:
  "ledger_bytes [] = []"
  "ledger_bytes (r # rs) = as_bytes r @ ledger_bytes rs"
  "ledger_bytes (rs @ rs') = ledger_bytes rs @ ledger_bytes rs'"
  by (simp_all add: ledger_bytes_def)

lemma ledger_bytes_stream: "ledger_bytes = receipt_codec.stream"
  by (rule ext) (simp add: ledger_bytes_def receipt_codec.stream_def)

lemma valid_as_bytes [simp]:
  assumes "valid r"
  shows "length (as_bytes r) = 64" and "as_bytes r ! 63 = SPINOR_SENTINEL"
    and "receipt_from_bytes (as_bytes r) = r"
  using assms length_as_bytes [of r]
  by (simp_all add: valid_def as_bytes_last sentinel_ok_def receipt_of_as_bytes RECEIPT_BYTES_def)

lemma valid_not_Nil [simp]: "valid r \<Longrightarrow> as_bytes r \<noteq> []"
  by (metis length_0_conv valid_as_bytes(1) zero_neq_numeral)

lemma length_ledger_bytes: "list_all valid rs \<Longrightarrow> length (ledger_bytes rs) = 64 * length rs"
  by (induction rs) simp_all

lemma scan_as_bytes [simp]: "valid r \<Longrightarrow> scan i (as_bytes r @ c) = Inr r # scan (Suc i) c"
  by (subst scan.simps) (auto simp: nth_append)

lemma scan_ledger_bytes:
  "list_all valid rs \<Longrightarrow> scan i (ledger_bytes rs @ c) = map Inr rs @ scan (i + length rs) c"
  by (induction rs arbitrary: i) simp_all

lemma scan_short: "c \<noteq> [] \<Longrightarrow> length c < 64 \<Longrightarrow> scan i c = [Inl (PartialTail (length c))]"
  by (simp add: scan.simps)

lemma iter_items_scan:
  assumes "\<not> finished it" and "remaining it = length (it_file it)"
  shows "iter_items it = scan (index it) (it_file it)"
  using assms
proof (induction it rule: iter_items.induct)
  case (1 it)
  consider "it_file it = []" | "it_file it \<noteq> []" "length (it_file it) < 64"
    | "64 \<le> length (it_file it)" "it_file it ! 63 \<noteq> SPINOR_SENTINEL"
    | "64 \<le> length (it_file it)" "it_file it ! 63 = SPINOR_SENTINEL" by fastforce
  then show ?case
  proof cases
    case 4
    let ?it = "it\<lparr>it_file := drop 64 (it_file it), remaining := remaining it - 64, index := index it + 1\<rparr>"
    have n: "iter_next it = (Some (Inr (receipt_from_bytes (take 64 (it_file it)))), ?it)"
      using 4 "1.prems" by (auto simp: iter_next_def RECEIPT_BYTES_def Let_def)
    have "iter_items ?it = scan (index it + 1) (drop 64 (it_file it))"
      using "1.IH" [OF n [symmetric]] "1.prems" by simp
    moreover have "it_file it \<noteq> []" using 4 by auto
    ultimately show ?thesis
      using n 4 by (simp add: iter_items.simps [of it] scan.simps [of _ "it_file it"])
  qed (use "1.prems" in \<open>auto simp: iter_items.simps iter_next_def scan.simps RECEIPT_BYTES_def Let_def\<close>)
qed

lemma collect_map_Inr [simp]: "collect_results (map Inr xs) = Inr xs"
  by (induction xs) simp_all

lemma collect_append_Inl: "collect_results (map Inr xs @ Inl e # ys) = Inl e"
  by (induction xs) simp_all

lemma collect_Inr_iff: "collect_results xs = Inr ys \<longleftrightarrow> xs = map Inr ys"
  by (induction xs arbitrary: ys rule: collect_results.induct)
    (auto simp: map_sum_def split: sum.splits)

lemma scan_valid_iff: "scan i c = map Inr rs \<longleftrightarrow> c = ledger_bytes rs \<and> list_all valid rs"
proof (induction i c arbitrary: rs rule: scan.induct)
  case (1 i c)
  show ?case
  proof (cases "c = [] \<or> length c < 64 \<or> c ! 63 \<noteq> SPINOR_SENTINEL")
    case True
    have "rs = []" if "c = ledger_bytes rs" "list_all valid rs"
      using True that by (cases rs) (auto simp: nth_append)
    with True show ?thesis by (subst scan.simps) (auto simp: Cons_eq_map_conv)
  next
    case False
    let ?r = "receipt_from_bytes (take 64 c)"
    have len: "length (take 64 c) = RECEIPT_BYTES" using False by (simp add: RECEIPT_BYTES_def)
    have ab: "as_bytes ?r = take 64 c" using len by (rule as_bytes_of_receipt)
    have v: "valid ?r"
      using receipt_from_bytes_ok [OF len] False
      by (simp add: valid_def sentinel_ok_def receipt_from_bytes_def)
    have c: "c = as_bytes ?r @ drop 64 c" by (simp add: ab)
    have s: "scan i c = Inr ?r # scan (i + 1) (drop 64 c)"
      using False by (simp add: scan.simps [of i c])
    have IH: "scan (i + 1) (drop 64 c) = map Inr rs' \<longleftrightarrow> drop 64 c = ledger_bytes rs' \<and> list_all valid rs'"
      for rs' using "1.IH" [of rs'] False by simp
    show ?thesis
    proof (cases rs)
      case Nil
      then show ?thesis using s False by simp
    next
      case (Cons r rs')
      have "c = as_bytes r @ ledger_bytes rs' \<and> valid r \<longleftrightarrow> r = ?r \<and> drop 64 c = ledger_bytes rs'"
        using c v by (metis append_eq_conv_conj valid_as_bytes(1,3))
      then show ?thesis using Cons s IH by auto
    qed
  qed
qed

lemma collect_scan_iff:
  "collect_results (scan i c) = Inr rs \<longleftrightarrow> c = ledger_bytes rs \<and> list_all valid rs"
  by (simp add: collect_Inr_iff scan_valid_iff)

lemma ledger_iter_items:
  "files w (path l) = Some c \<Longrightarrow>
   \<exists>it. ledger_iter l w = Inr it \<and> iter_items it = scan 0 c"
  by (simp add: ledger_iter_def iter_items_scan)

lemma append_all_files:
  assumes "files w (path l) = Some c"
  shows "append_all rs l w =
    (Inr (), l\<lparr>bytes_written := bytes_written l + 64 * length rs\<rparr>,
     w\<lparr>files := (files w)(path l \<mapsto> c @ ledger_bytes rs)\<rparr>)"
  using assms
proof (induction rs arbitrary: l w c)
  case Nil
  then show ?case by (simp add: fun_upd_idem)
next
  case (Cons r rs)
  then show ?case
    by (simp add: append_receipt_def RECEIPT_BYTES_def cong: if_cong)
qed

lemma replay_loop_Inr:
  "replay_loop (map Inr rs @ items) n l w =
     (case append_all rs l w of
        (Inl e, l', w') \<Rightarrow> (Inl e, l', w')
      | (Inr _, l', w') \<Rightarrow> replay_loop items (n + length rs) l' w')"
  by (induction rs arbitrary: n l w) (auto split: prod.splits sum.splits)

lemma broadcast_loop_scan:
  "broadcast_loop f idx out = map_sum id ((@) out) (collect_results (scan idx f))"
proof (induction f idx out rule: broadcast_loop.induct)
  case (1 f idx out)
  consider "f = []" | "f \<noteq> []" "length f < 64" | "64 \<le> length f" "f ! 63 \<noteq> SPINOR_SENTINEL"
    | "64 \<le> length f" "f ! 63 = SPINOR_SENTINEL" by fastforce
  then show ?case
  proof cases
    case 4
    then have ne: "f \<noteq> []" by auto
    have r: "read_exact_or_eof f = Full (take 64 f) (drop 64 f)"
      using 4 ne by (simp add: read_exact_or_eof_def RECEIPT_BYTES_def)
    have IH: "broadcast_loop (drop 64 f) (idx + 1) (out @ [receipt_from_bytes (take 64 f)]) =
        map_sum id ((@) (out @ [receipt_from_bytes (take 64 f)])) (collect_results (scan (idx + 1) (drop 64 f)))"
      by (rule "1.IH" [OF r]) (use 4 in simp)
    show ?thesis
      using r IH 4 ne by (simp add: broadcast_loop.simps [of f] scan.simps [of idx f] map_sum_def split: sum.splits)
  qed (auto simp: broadcast_loop.simps [of f] broadcast_loop.simps [of "[]"]
      scan.simps [of idx f] read_exact_or_eof_def RECEIPT_BYTES_def)
qed

subsection \<open>The ledger's properties\<close>

text \<open>
  C39. Reading a ledger back succeeds exactly on the files that are a stream of well-formed receipts
  with intact sentinels, and then yields those receipts in file order: no other byte string (torn,
  misaligned, corrupt) is accepted, and no accepted file is misread.
\<close>

theorem ledger_reads_back_iff:
  "files w (path l) = Some c \<Longrightarrow>
   (\<exists>it. ledger_iter l w = Inr it \<and> collect_results (iter_items it) = Inr rs) \<longleftrightarrow>
   c = ledger_bytes rs \<and> list_all valid rs"
  using ledger_iter_items [of w l c] collect_scan_iff [of 0 c rs] by auto

text \<open>A concrete receipt and file system for the examples.\<close>

definition sample_receipt :: "u32 \<Rightarrow> spinor_receipt" where
  "sample_receipt wall = \<lparr>turn_index = 1, model_id = MODEL_ID_EXECUTIVE, pad = [0, 0], wall_us = wall,
     input_hash = replicate 24 1, output_hash = replicate 24 2, n_input_tokens = 3,
     n_output_tokens = 2, reserved = [0, 0], sentinel = SPINOR_SENTINEL\<rparr>"

lemma sample_valid [simp]: "valid (sample_receipt v)"
  by (simp add: valid_def sample_receipt_def receipt_ok_def sentinel_ok_def)

lemma sample_inject [simp]: "sample_receipt v = sample_receipt v' \<longleftrightarrow> v = v'"
  by (simp add: sample_receipt_def)

definition sample_fs :: "(string \<times> bytes) list \<Rightarrow> fs" where
  "sample_fs xs = \<lparr>files = map_of xs, writable = (\<lambda>_. True)\<rparr>"

definition sample_ledger :: "string \<Rightarrow> ledger" where
  "sample_ledger p = \<lparr>path = p, bytes_written = 0\<rparr>"

lemma sample_ledger_path [simp]: "path (sample_ledger p) = p"
  by (simp add: sample_ledger_def)

lemma ledger_reads_back_iff_witness:
  "\<exists>it. ledger_iter (sample_ledger ''a'') (sample_fs [(''a'', as_bytes (sample_receipt 5))]) = Inr it \<and>
     collect_results (iter_items it) = Inr [sample_receipt 5]"
  using ledger_reads_back_iff [of "sample_fs [(''a'', as_bytes (sample_receipt 5))]" "sample_ledger ''a''"
      "as_bytes (sample_receipt 5)" "[sample_receipt 5]"]
  by (simp add: sample_fs_def)

text \<open>
  Replaying a clean source ledger appends exactly its bytes to the destination (so into an
  empty destination the copy is byte-identical), counts its receipts and changes no other file.
\<close>

theorem replay_from_byte_identical:
  assumes "files w (path source) = Some (ledger_bytes rs)" and "list_all valid rs"
    and "files w (path into) = Some dst"
  shows "replay_from source into w =
    (Inr (length rs), into\<lparr>bytes_written := bytes_written into + 64 * length rs\<rparr>,
     w\<lparr>files := (files w)(path into \<mapsto> dst @ ledger_bytes rs)\<rparr>)"
proof -
  obtain it where it: "ledger_iter source w = Inr it" "iter_items it = scan 0 (ledger_bytes rs)"
    using ledger_iter_items [OF assms(1)] by blast
  have "scan 0 (ledger_bytes rs) = map Inr rs" using assms(2) by (simp add: scan_valid_iff)
  then show ?thesis
    using it replay_loop_Inr [of rs "[]" 0 into w] append_all_files [OF assms(3)]
    by (simp add: replay_from_def)
qed

lemma replay_from_byte_identical_witness:
  "replay_from (sample_ledger ''a'') (sample_ledger ''b'')
     (sample_fs [(''a'', ledger_bytes [sample_receipt 5]), (''b'', [])]) =
   (Inr 1, sample_ledger ''b''\<lparr>bytes_written := 64\<rparr>,
    sample_fs [(''a'', ledger_bytes [sample_receipt 5]), (''b'', [])]
      \<lparr>files := (map_of [(''a'', ledger_bytes [sample_receipt 5]), (''b'', [])])
         (''b'' \<mapsto> ledger_bytes [sample_receipt 5])\<rparr>)"
  using replay_from_byte_identical [of "sample_fs [(''a'', ledger_bytes [sample_receipt 5]), (''b'', [])]"
      "sample_ledger ''a''" "[sample_receipt 5]" "sample_ledger ''b''" "[]"]
  by (simp add: sample_fs_def sample_ledger_def)

text \<open>
  Replaying a damaged source copies exactly the intact records before the damage and then
  reports it: the number of stray bytes of a torn tail, or the index and byte of a bad sentinel.
\<close>

theorem replay_from_stops_at_damage:
  assumes "files w (path source) = Some (ledger_bytes rs @ bad)" and "list_all valid rs"
    and "bad \<noteq> []" and "length bad < 64 \<or> bad ! 63 \<noteq> SPINOR_SENTINEL"
    and "files w (path into) = Some dst"
  shows "replay_from source into w =
    (Inl (if length bad < 64 then PartialTail (length bad) else BadSentinel (length rs) (bad ! 63)),
     into\<lparr>bytes_written := bytes_written into + 64 * length rs\<rparr>,
     w\<lparr>files := (files w)(path into \<mapsto> dst @ ledger_bytes rs)\<rparr>)"
proof -
  obtain it where it: "ledger_iter source w = Inr it" "iter_items it = scan 0 (ledger_bytes rs @ bad)"
    using ledger_iter_items [OF assms(1)] by blast
  have "scan (length rs) bad =
      [Inl (if length bad < 64 then PartialTail (length bad) else BadSentinel (length rs) (bad ! 63))]"
    using assms(3,4) by (auto simp: scan.simps)
  then have "iter_items it = map Inr rs @
      [Inl (if length bad < 64 then PartialTail (length bad) else BadSentinel (length rs) (bad ! 63))]"
    using it(2) scan_ledger_bytes [OF assms(2), of 0 bad] by simp
  then show ?thesis
    using it replay_loop_Inr append_all_files [OF assms(5)] by (simp add: replay_from_def)
qed

lemma replay_from_stops_at_damage_witness:
  "fst (replay_from (sample_ledger ''a'') (sample_ledger ''b'')
     (sample_fs [(''a'', ledger_bytes [sample_receipt 5] @ [7, 7]), (''b'', [])])) = Inl (PartialTail 2)"
  using replay_from_stops_at_damage [of "sample_fs [(''a'', ledger_bytes [sample_receipt 5] @ [7, 7]), (''b'', [])]"
      "sample_ledger ''a''" "[sample_receipt 5]" "[7, 7]" "sample_ledger ''b''" "[]"]
  by (simp add: sample_fs_def)

text \<open>
  A torn tail is permanent: once a file's length is not a multiple of 64, then whatever receipts
  are appended through a reopened ledger, \<^verbatim>\<open>canonical_sort\<close> (and every full read) fails, although
  the module comment says partial records are skipped on read.
\<close>

theorem torn_tail_is_permanent:
  assumes "files w (path l) = Some c" and "length c mod 64 \<noteq> 0" and "list_all valid rs"
    and "append_all rs l w = (Inr (), l', w')"
  shows "\<exists>e. canonical_sort l' w' = Inl e"
proof -
  have l': "path l' = path l" and f: "files w' (path l') = Some (c @ ledger_bytes rs)"
    using append_all_files [OF assms(1), of rs] assms(4) by auto
  obtain it where it: "ledger_iter l' w' = Inr it" "iter_items it = scan 0 (c @ ledger_bytes rs)"
    using ledger_iter_items [OF f] by blast
  show ?thesis
  proof (cases "collect_results (scan 0 (c @ ledger_bytes rs))")
    case (Inl e)
    then show ?thesis using it by (simp add: canonical_sort_def)
  next
    case (Inr rs')
    then have "c @ ledger_bytes rs = ledger_bytes rs'" and "list_all valid rs'"
      by (simp_all add: collect_scan_iff)
    then have "length c + 64 * length rs = 64 * length rs'"
      using length_ledger_bytes assms(3) by (metis length_append)
    with assms(2) show ?thesis by presburger
  qed
qed

lemma torn_tail_is_permanent_witness:
  "\<exists>e l' w'. append_all [sample_receipt 5] (sample_ledger ''a'') (sample_fs [(''a'', [1, 2, 3])]) = (Inr (), l', w') \<and>
     canonical_sort l' w' = Inl e"
proof -
  let ?w = "sample_fs [(''a'', [1, 2, 3])]" and ?l = "sample_ledger ''a''"
  have c: "files ?w (path ?l) = Some [1, 2, 3]" by (simp add: sample_fs_def)
  obtain l' w' where a: "append_all [sample_receipt 5] ?l ?w = (Inr (), l', w')"
    using append_all_files [OF c] by blast
  show ?thesis using torn_tail_is_permanent [OF c _ _ a] a by auto
qed

text \<open>
  \<^verbatim>\<open>canonical_sort\<close> of a clean ledger is a stable sort by (rank, input hash): a permutation of
  the records, ascending in the key, and records with equal keys keep their file order.
\<close>

theorem canonical_sort_correct:
  assumes "files w (path l) = Some (ledger_bytes rs)" and "list_all valid rs"
  shows "\<exists>s. canonical_sort l w = Inr s \<and> mset s = mset rs \<and> sorted (map canonical_key s) \<and>
    (\<forall>k. filter (\<lambda>r. canonical_key r = k) s = filter (\<lambda>r. canonical_key r = k) rs)"
proof -
  have "canonical_sort l w = Inr (sort_key canonical_key rs)"
    using ledger_iter_items [OF assms(1)] assms(2) scan_valid_iff [of 0 "ledger_bytes rs" rs]
    by (auto simp: canonical_sort_def)
  then show ?thesis by (simp add: sort_key_stable)
qed

lemma canonical_sort_correct_witness:
  "\<exists>s. canonical_sort (sample_ledger ''a'') (sample_fs [(''a'', ledger_bytes [sample_receipt 5])]) = Inr s \<and>
     mset s = {#sample_receipt 5#}"
  using canonical_sort_correct [of "sample_fs [(''a'', ledger_bytes [sample_receipt 5])]"
      "sample_ledger ''a''" "[sample_receipt 5]"] by (auto simp: sample_fs_def)

lemma canonical_sort_clean:
  "files w (path l) = Some (ledger_bytes rs) \<Longrightarrow> list_all valid rs \<Longrightarrow>
   canonical_sort l w = Inr (sort_key canonical_key rs)"
  using ledger_iter_items [of w l "ledger_bytes rs"] scan_valid_iff [of 0 "ledger_bytes rs" rs]
  by (auto simp: canonical_sort_def)

lemma replay_canonical_clean:
  assumes "files w (path l) = Some (ledger_bytes rs)" and "list_all valid rs"
    and "files w (path dest) = Some dst"
  shows "\<exists>dest'. replay_canonical_into l dest w = (Inr (length rs), dest',
    w\<lparr>files := (files w)(path dest \<mapsto> dst @ ledger_bytes (sort_key canonical_key rs))\<rparr>)"
  using canonical_sort_clean [OF assms(1,2)] append_all_files [OF assms(3)]
  by (simp add: replay_canonical_into_def)

text \<open>A list with the same elements in another order sorts to the same list when keys identify them.\<close>

lemma sort_key_unique:
  assumes "mset xs = mset ys" and "inj_on f (set xs)"
  shows "sort_key f xs = sort_key f ys"
proof (rule properties_for_sort_key)
  show "mset (sort_key f ys) = mset xs" using assms(1) by simp
  show "sorted (map f (sort_key f ys))" by simp
next
  fix k assume k: "k \<in> set (sort_key f ys)"
  have s: "set xs = set ys" using assms(1) by (metis set_mset_mset)
  have r: "filter (\<lambda>x. f k = f x) zs = replicate (count (mset zs) k) k" if "set zs = set ys" for zs
  proof -
    have "filter (\<lambda>x. f k = f x) zs = filter (HOL.eq k) zs"
      using that k assms(2) s by (intro filter_cong) (auto dest: inj_onD)
    then show ?thesis by (simp add: replicate_count_mset_eq_filter_eq)
  qed
  show "filter (\<lambda>x. f k = f x) (sort_key f ys) = filter (\<lambda>x. f k = f x) xs"
    using r [of xs] r [of "sort_key f ys"] s assms(1) by simp
qed

text \<open>
  C2. Cross-device convergence: two ledgers that hold the same receipts in any order replay
  canonically into byte-identical files, provided no two different receipts share (rank, input
  hash).
\<close>

theorem replay_canonical_converges:
  assumes "files w (path a) = Some (ledger_bytes rs)" and "files w (path b) = Some (ledger_bytes rs')"
    and "list_all valid rs" and "mset rs = mset rs'" and "inj_on canonical_key (set rs)"
    and "files w (path dest) = Some []"
  shows "\<exists>da wa db wb. replay_canonical_into a dest w = (Inr (length rs), da, wa) \<and>
    replay_canonical_into b dest w = (Inr (length rs), db, wb) \<and>
    files wa (path dest) = files wb (path dest)"
proof -
  have "list_all valid rs'"
    using assms(3,4) by (metis list_all_iff set_mset_mset)
  moreover have "length rs' = length rs" using assms(4) by (metis size_mset)
  moreover have "sort_key canonical_key rs = sort_key canonical_key rs'"
    using sort_key_unique assms(4,5) by blast
  ultimately show ?thesis
    using replay_canonical_clean [OF assms(1,3,6)] replay_canonical_clean [OF assms(2) _ assms(6)]
    by auto
qed

lemma replay_canonical_converges_witness:
  fixes r2 :: spinor_receipt
  defines "r2 \<equiv> with_sequence_rank (sample_receipt 6) 1"
  defines "w \<equiv> sample_fs [(''a'', ledger_bytes [sample_receipt 5, r2]),
      (''b'', ledger_bytes [r2, sample_receipt 5]), (''c'', [])]"
  shows "\<exists>da wa db wb.
    replay_canonical_into (sample_ledger ''a'') (sample_ledger ''c'') w = (Inr 2, da, wa) \<and>
    replay_canonical_into (sample_ledger ''b'') (sample_ledger ''c'') w = (Inr 2, db, wb) \<and>
    files wa ''c'' = files wb ''c''"
proof -
  have v: "valid r2"
    using sample_valid [of 6] by (simp add: r2_def valid_def with_sequence_rank_ok sentinel_ok_def)
      (simp add: with_sequence_rank_def)
  have "sequence_rank (sample_receipt 5) = 0"
    by (simp add: sequence_rank_def sample_receipt_def from_le_def)
  then have i: "inj_on canonical_key (set [sample_receipt 5, r2])"
    by (auto simp: canonical_key_def r2_def)
  show ?thesis
    using replay_canonical_converges [of w "sample_ledger ''a''" "[sample_receipt 5, r2]"
        "sample_ledger ''b''" "[r2, sample_receipt 5]" "sample_ledger ''c''"] v i
    by (simp add: w_def sample_fs_def numeral_2_eq_2)
qed

text \<open>
  Without that proviso convergence fails: two different receipts with the same rank and input
  hash (the same turn run twice, with another wall-clock time) are neither deduplicated nor ordered
  by content, and the two replay orders give different files.
\<close>

theorem replay_canonical_diverges:
  assumes "valid r" and "valid r'" and "canonical_key r = canonical_key r'" and "r \<noteq> r'"
    and "files w (path a) = Some (ledger_bytes [r, r'])" and "files w (path b) = Some (ledger_bytes [r', r])"
    and "files w (path dest) = Some []"
  shows "\<exists>da wa db wb. replay_canonical_into a dest w = (Inr 2, da, wa) \<and>
    replay_canonical_into b dest w = (Inr 2, db, wb) \<and>
    files wa (path dest) \<noteq> files wb (path dest)"
proof -
  have ok: "list_all receipt_ok [r, r']" "list_all receipt_ok [r', r]"
    using assms(1,2) by (simp_all add: valid_def)
  have "ledger_bytes [r, r'] \<noteq> ledger_bytes [r', r]"
    using receipt_codec.stream_inject [OF ok] assms(4) unfolding ledger_bytes_stream by auto
  moreover have "sort_key canonical_key [r, r'] = [r, r']" "sort_key canonical_key [r', r] = [r', r]"
    using assms(3) by simp_all
  ultimately show ?thesis
    using replay_canonical_clean [OF assms(5) _ assms(7)] replay_canonical_clean [OF assms(6) _ assms(7)]
      assms(1,2) by (auto simp: numeral_2_eq_2)
qed

lemma replay_canonical_diverges_witness:
  defines "w \<equiv> sample_fs [(''a'', ledger_bytes [sample_receipt 5, sample_receipt 6]),
      (''b'', ledger_bytes [sample_receipt 6, sample_receipt 5]), (''c'', [])]"
  shows "\<exists>da wa db wb.
    replay_canonical_into (sample_ledger ''a'') (sample_ledger ''c'') w = (Inr 2, da, wa) \<and>
    replay_canonical_into (sample_ledger ''b'') (sample_ledger ''c'') w = (Inr 2, db, wb) \<and>
    files wa ''c'' \<noteq> files wb ''c''"
proof -
  have k: "canonical_key (sample_receipt 5) = canonical_key (sample_receipt 6)"
    by (simp add: canonical_key_def sequence_rank_def sample_receipt_def)
  show ?thesis
    using replay_canonical_diverges [OF sample_valid sample_valid k, of w "sample_ledger ''a''"
        "sample_ledger ''b''" "sample_ledger ''c''"]
    by (simp add: w_def sample_fs_def)
qed

text \<open>
  \<^verbatim>\<open>broadcast_to_peers\<close> from any aligned offset is a full read that starts there: on a clean
  ledger it returns the receipts after the first \<open>k\<close>, from an offset past the end none, and a
  misaligned offset is refused.
\<close>

theorem broadcast_suffix:
  assumes "files w (path l) = Some (ledger_bytes rs)" and "list_all valid rs"
  shows "broadcast_to_peers l since w =
    (if since mod 64 = 0 then Inr (drop (since div 64) rs) else Inl (Io InvalidInput))"
proof (cases "since mod 64 = 0")
  case True
  let ?k = "since div 64"
  have k: "since = 64 * ?k" using True by auto
  have d: "drop (64 * n) (ledger_bytes xs) = ledger_bytes (drop n xs)" if "list_all valid xs" for n xs
    using that
  proof (induction xs arbitrary: n)
    case (Cons x xs)
    then show ?case by (cases n) simp_all
  qed simp
  have "list_all valid (drop ?k rs)" using assms(2) by (auto simp: list_all_iff dest: in_set_dropD)
  then have "collect_results (scan ?k (ledger_bytes (drop ?k rs))) = Inr (drop ?k rs)"
    by (simp add: collect_scan_iff)
  moreover have "drop since (ledger_bytes rs) = ledger_bytes (drop ?k rs)"
    using d [OF assms(2), of ?k] k by simp
  ultimately show ?thesis
    using assms(1) True by (simp add: broadcast_to_peers_def RECEIPT_BYTES_def broadcast_loop_scan)
qed (simp add: broadcast_to_peers_def RECEIPT_BYTES_def)

lemma broadcast_suffix_witness:
  "broadcast_to_peers (sample_ledger ''a'')  64
     (sample_fs [(''a'', ledger_bytes [sample_receipt 5, sample_receipt 6])]) = Inr [sample_receipt 6]"
  using broadcast_suffix [of "sample_fs [(''a'', ledger_bytes [sample_receipt 5, sample_receipt 6])]"
      "sample_ledger ''a''" "[sample_receipt 5, sample_receipt 6]" 64]
  by (simp add: sample_fs_def)

end
