(* ===== verification/Crt_Garner.thy ===== *)
theory Crt_Garner
  imports SP_Prelude
begin

text \<open>
  The dual-prime integer arithmetic of \<^verbatim>\<open>sp_trick1/src/lib.rs\<close> (and its twins
  \<^verbatim>\<open>sp_barrett_oracle.rs\<close>, \<^verbatim>\<open>sp_matmul_q_ref.rs\<close> of the DSP smoke crate): Barrett
  reduction, the mod-q matrix product, the int8 lift, and Garner recombination, at the machine
  widths of the sources. Operations that overflow wrap, as in the release build.
\<close>

subsection \<open>Constants\<close>

definition SP_NTT_Q1 :: u32 where "SP_NTT_Q1 = 1073738753"
definition SP_NTT_Q2 :: u32 where "SP_NTT_Q2 = 1073732609"
definition SP_MU_Q1 :: u32 where "SP_MU_Q1 = 1073744895"
definition SP_MU_Q2 :: u32 where "SP_MU_Q2 = 1073751039"
definition Q1_INV_MOD_Q2 :: u32 where "Q1_INV_MOD_Q2 = 894602413"
definition M_Q1Q2 :: u64 where "M_Q1Q2 = ucast SP_NTT_Q1 * ucast SP_NTT_Q2"

definition q_mu :: "i32 \<Rightarrow> u32 \<times> u32" where
  "q_mu q_idx = (if q_idx = 0 then (SP_NTT_Q1, SP_MU_Q1) else (SP_NTT_Q2, SP_MU_Q2))"

lemma unat_u32_u64 [simp]: "unat (ucast (c :: u32) :: u64) = unat c"
  by (simp add: unsigned_ucast_eq take_bit_nat_eq_self_iff less_le_trans [OF unsigned_less [of c]])

subsection \<open>Barrett reduction\<close>

definition barrett_reduce32 :: "u64 \<Rightarrow> u32 \<Rightarrow> u32 \<Rightarrow> u32" where
  "barrett_reduce32 x q mu =
     (let qhat = drop_bit 31 (drop_bit 29 x * ucast mu);
          r0 = x - qhat * ucast q;
          r1 = if ucast q \<le> r0 then r0 - ucast q else r0;
          r2 = if ucast q \<le> r1 then r1 - ucast q else r1
      in ucast r2)"

definition modmul_q1 :: "u32 \<Rightarrow> u32 \<Rightarrow> u32" where
  "modmul_q1 a b = barrett_reduce32 (ucast a * ucast b) SP_NTT_Q1 SP_MU_Q1"

definition modmul_q2 :: "u32 \<Rightarrow> u32 \<Rightarrow> u32" where
  "modmul_q2 a b = barrett_reduce32 (ucast a * ucast b) SP_NTT_Q2 SP_MU_Q2"

text \<open>The arithmetic heart, on naturals: the estimate is at most two short.\<close>

lemma barrett_estimate:
  fixes x q mu :: nat
  assumes x: "x < 2 ^ 60" and q: "2 ^ 29 \<le> q" "q < 2 ^ 30"
    and mu: "mu * q \<le> 2 ^ 60" "2 ^ 60 < (mu + 1) * q"
  defines "qhat \<equiv> x div 2 ^ 29 * mu div 2 ^ 31"
  shows "qhat * q \<le> x" and "x < qhat * q + 3 * q"
proof -
  define a where "a = x div 2 ^ 29"
  have a1: "a * 2 ^ 29 \<le> x" and a2: "x < a * 2 ^ 29 + 2 ^ 29" and a3: "a < 2 ^ 31"
    using x unfolding a_def by simp_all
  have h1: "qhat * 2 ^ 31 \<le> a * mu" and h2: "a * mu < qhat * 2 ^ 31 + 2 ^ 31"
    unfolding qhat_def a_def by simp_all
  have "qhat * q * 2 ^ 31 \<le> a * (mu * q)"
    using mult_right_mono [OF h1, of q] by (simp add: ac_simps)
  also have "\<dots> \<le> a * 2 ^ 60" using mu(1) by simp
  finally have "qhat * q \<le> a * 2 ^ 29" by (simp add: mult.commute)
  then show "qhat * q \<le> x" using a1 by linarith
  have "a * (2 ^ 60) \<le> a * ((mu + 1) * q)" using mu(2) by simp
  also have "\<dots> = a * mu * q + a * q" by (simp add: algebra_simps)
  also have "\<dots> \<le> (qhat * 2 ^ 31 + 2 ^ 31) * q + 2 ^ 31 * q"
    using h2 a3 by (intro add_mono mult_right_mono) simp_all
  finally have "a * 2 ^ 29 \<le> qhat * q + 2 * q" by (simp add: algebra_simps)
  then show "x < qhat * q + 3 * q" using a2 q(1) by simp
qed

lemma two_subtractions:
  fixes r q :: nat
  assumes "r < 3 * q"
  shows "(let r1 = if q \<le> r then r - q else r in if q \<le> r1 then r1 - q else r1) = r mod q"
proof -
  consider "r < q" | "q \<le> r" "r < 2 * q" | "2 * q \<le> r" by linarith
  then show ?thesis
  proof cases
    case 2
    then show ?thesis by (simp add: Let_def le_mod_geq)
  next
    case 3
    then have "r mod q = (r - q - q) mod q" by (simp add: le_mod_geq)
    with 3 assms show ?thesis by (simp add: Let_def)
  qed simp
qed

text \<open>
  The interface of a CRT prime: a modulus below \<open>2^30\<close> with its Barrett constant
  \<open>floor(2^60 / q)\<close>. The reduction and everything built on it is proved once from this.
\<close>

locale crt_prime =
  fixes q mu :: u32
  assumes q_lower: "2 ^ 29 \<le> unat q" and q_upper: "unat q < 2 ^ 30"
    and mu_le: "unat mu * unat q \<le> 2 ^ 60" and mu_gt: "2 ^ 60 < (unat mu + 1) * unat q"
begin

lemma mu_small: "unat mu < 2 ^ 31 + 1"
proof -
  have "unat mu * 2 ^ 29 \<le> unat mu * unat q" using q_lower by simp
  then have "unat mu * 2 ^ 29 \<le> 2 ^ 60" using mu_le by linarith
  then show ?thesis by simp
qed

lemma barrett_mod:
  assumes x: "unat x < 2 ^ 60"
  shows "unat (barrett_reduce32 x q mu) = unat x mod unat q"
proof -
  let ?Q = "ucast q :: u64"
  define qhat where "qhat = drop_bit 31 (drop_bit 29 x * ucast mu)"
  have a: "unat (drop_bit 29 x) = unat x div 2 ^ 29" by (simp add: drop_bit_eq_div unat_div)
  have "unat x div 2 ^ 29 < 2 ^ 31" using x by simp
  then have "unat x div 2 ^ 29 * unat mu \<le> 2 ^ 31 * 2 ^ 31"
    using mu_small by (intro mult_mono) simp_all
  then have prod: "unat (drop_bit 29 x * ucast mu :: u64) = unat x div 2 ^ 29 * unat mu"
    using a by (simp add: unat_word_ariths)
  have qh: "unat qhat = unat x div 2 ^ 29 * unat mu div 2 ^ 31"
    using prod by (simp add: qhat_def drop_bit_eq_div unat_div)
  note est = barrett_estimate [OF x q_lower q_upper mu_le mu_gt, folded qh]
  have qq: "unat (qhat * ?Q) = unat qhat * unat q"
    using est(1) x by (simp add: unat_word_ariths)
  define r0 where "r0 = x - qhat * ?Q"
  have r0: "unat r0 = unat x - unat qhat * unat q"
    using est(1) qq by (simp add: r0_def unat_sub word_le_nat_alt)
  have lt: "unat r0 < 3 * unat q" using est r0 by linarith
  define r1 where "r1 = (if ?Q \<le> r0 then r0 - ?Q else r0)"
  define r2 where "r2 = (if ?Q \<le> r1 then r1 - ?Q else r1)"
  have r1: "unat r1 = (if unat q \<le> unat r0 then unat r0 - unat q else unat r0)"
    by (simp add: r1_def word_le_nat_alt unat_sub)
  have r2: "unat r2 = (if unat q \<le> unat r1 then unat r1 - unat q else unat r1)"
    by (simp add: r2_def word_le_nat_alt unat_sub)
  have "unat r2 = unat r0 mod unat q"
    by (simp only: r2 r1 two_subtractions [OF lt, unfolded Let_def])
  also have "\<dots> = unat x mod unat q"
    using r0 est(1) by (metis le_add_diff_inverse mod_mult_self3)
  finally have res: "unat r2 = unat x mod unat q" .
  have "unat r2 < 2 ^ 30" using res q_lower q_upper
    by (metis le_less_trans less_imp_le mod_less_divisor zero_less_numeral zero_less_power less_le_trans)
  then have "unat (ucast r2 :: u32) = unat r2" by (simp add: unsigned_ucast_eq take_bit_nat_eq_self_iff)
  moreover have "barrett_reduce32 x q mu = ucast r2"
    by (simp add: barrett_reduce32_def Let_def r2_def r1_def r0_def qhat_def)
  ultimately show ?thesis using res by simp
qed

lemma barrett_mul:
  fixes a b :: u32
  assumes "unat a < 2 ^ 30" and "unat b < 2 ^ 30"
  shows "unat (barrett_reduce32 (ucast a * ucast b) q mu) = unat a * unat b mod unat q"
proof -
  have "unat a * unat b < 2 ^ 30 * 2 ^ 30" using assms by (intro mult_strict_mono') simp_all
  then have "unat (ucast a * ucast b :: u64) = unat a * unat b" and "unat a * unat b < 2 ^ 60"
    by (simp_all add: unat_word_ariths)
  then show ?thesis using barrett_mod [of "ucast a * ucast b"] by simp
qed

end

interpretation q1_prime: crt_prime SP_NTT_Q1 SP_MU_Q1
  by unfold_locales (simp_all add: SP_NTT_Q1_def SP_MU_Q1_def)

interpretation q2_prime: crt_prime SP_NTT_Q2 SP_MU_Q2
  by unfold_locales (simp_all add: SP_NTT_Q2_def SP_MU_Q2_def)

subsection \<open>The mod-q matrix product\<close>

text \<open>The body of the \<^verbatim>\<open>k\<close> loop and the loop: \<open>acc\<close> starts at 0.\<close>

definition mac_step :: "u32 \<Rightarrow> u32 \<Rightarrow> u32 \<Rightarrow> u32 \<Rightarrow> u32 \<Rightarrow> u32" where
  "mac_step q mu xv wv acc =
     (let prod = barrett_reduce32 (ucast xv * ucast wv) q mu;
          sum = acc + prod
      in if q \<le> sum then sum - q else sum)"

definition matmul_lane :: "u32 \<Rightarrow> u32 \<Rightarrow> nat \<Rightarrow> nat \<Rightarrow> u32 list \<Rightarrow> u32 list \<Rightarrow> nat \<Rightarrow> nat \<Rightarrow> u32" where
  "matmul_lane q mu d_in d_out x w b i =
     fold (\<lambda>k acc. mac_step q mu (x ! (b * d_in + k)) (w ! (k * d_out + i)) acc) [0..<d_in] 0"

definition matmul_q_scalar_ref ::
  "i32 \<Rightarrow> nat \<Rightarrow> nat \<Rightarrow> nat \<Rightarrow> u32 list \<Rightarrow> u32 list \<Rightarrow> u32 list option" where
  "matmul_q_scalar_ref q_idx batch d_in d_out x w =
     (if length x \<noteq> batch * d_in \<or> length w \<noteq> d_in * d_out then None
      else let (q, mu) = q_mu q_idx
           in Some (fill_rows batch d_out (matmul_lane q mu d_in d_out x w) (replicate (batch * d_out) 0)))"

context crt_prime
begin

lemma q_pos: "0 < unat q" using q_lower by (rule less_le_trans [rotated]) simp

lemma mac_step_mod:
  assumes "unat xv < 2 ^ 30" and "unat wv < 2 ^ 30" and "unat acc = A mod unat q"
  shows "unat (mac_step q mu xv wv acc) = (A + unat xv * unat wv) mod unat q"
proof -
  let ?p = "barrett_reduce32 (ucast xv * ucast wv) q mu"
  have p: "unat ?p = unat xv * unat wv mod unat q" using assms by (intro barrett_mul)
  have lt: "unat ?p < unat q" "unat acc < unat q" using p assms(3) q_pos by simp_all
  then have sum: "unat (acc + ?p) = unat acc + unat ?p"
    using q_upper by (simp add: unat_word_ariths)
  have "unat (mac_step q mu xv wv acc) = (unat acc + unat ?p) mod unat q"
    using lt by (simp add: mac_step_def Let_def word_le_nat_alt sum unat_sub mod_if)
  then show ?thesis using p assms(3) by (simp add: mod_add_eq)
qed

lemma matmul_lane_mod:
  assumes "\<And>k. k < d_in \<Longrightarrow> unat (x ! (b * d_in + k)) < 2 ^ 30"
    and "\<And>k. k < d_in \<Longrightarrow> unat (w ! (k * d_out + i)) < 2 ^ 30"
  shows "unat (matmul_lane q mu d_in d_out x w b i) =
    (\<Sum>k<d_in. unat (x ! (b * d_in + k)) * unat (w ! (k * d_out + i))) mod unat q"
proof -
  have "n \<le> d_in \<Longrightarrow> unat (fold (\<lambda>k. mac_step q mu (x ! (b * d_in + k)) (w ! (k * d_out + i))) [0..<n] 0) =
    (\<Sum>k<n. unat (x ! (b * d_in + k)) * unat (w ! (k * d_out + i))) mod unat q" for n
  proof (induction n)
    case (Suc n)
    then show ?case using assms by (simp add: mac_step_mod)
  qed simp
  then show ?thesis by (simp add: matmul_lane_def)
qed

end

subsection \<open>The int8 lift\<close>

definition lift_q8_to_zq :: "8 word \<Rightarrow> u32 \<Rightarrow> u32" where
  "lift_q8_to_zq code q = (if 0 \<le>s code then scast code else q - (- scast code))"

subsection \<open>Garner recombination\<close>

definition garner_diff :: "u32 \<Rightarrow> u32 \<Rightarrow> u64" where
  "garner_diff a b = (if a \<le> b then ucast (b - a) else ucast SP_NTT_Q2 - ucast (a - b))"

definition garner_unsigned_one :: "u32 \<Rightarrow> u32 \<Rightarrow> u64" where
  "garner_unsigned_one a b =
     (let diff = garner_diff a b;
          t = (diff * ucast Q1_INV_MOD_Q2) mod ucast SP_NTT_Q2
      in ucast a + ucast SP_NTT_Q1 * t)"

definition garner_one :: "u32 \<Rightarrow> u32 \<Rightarrow> 64 word" where
  "garner_one a b =
     (let half_m = M_Q1Q2 div 2;
          v = garner_unsigned_one a b
      in if half_m <s v then v - M_Q1Q2 else v)"

definition garner_combine_q1_q2_signed :: "u32 list \<Rightarrow> u32 list \<Rightarrow> 64 word list option" where
  "garner_combine_q1_q2_signed r1 r2 =
     (if length r1 \<noteq> length r2 then None else Some (map (\<lambda>(a, b). garner_one a b) (zip r1 r2)))"

definition garner_combine_q1_q2_unsigned :: "u32 list \<Rightarrow> u32 list \<Rightarrow> u64 list option" where
  "garner_combine_q1_q2_unsigned r1 r2 =
     (if length r1 \<noteq> length r2 then None
      else Some (map (\<lambda>(a, b). garner_unsigned_one a b) (zip r1 r2)))"

subsection \<open>The signed reference product\<close>

definition int8_lane :: "nat \<Rightarrow> nat \<Rightarrow> 8 word list \<Rightarrow> 8 word list \<Rightarrow> nat \<Rightarrow> nat \<Rightarrow> 64 word" where
  "int8_lane d_in d_out x_codes w_codes b i =
     fold (\<lambda>k acc. acc + scast (x_codes ! (b * d_in + k)) * scast (w_codes ! (k * d_out + i)))
       [0..<d_in] 0"

definition matmul_int8_signed_ref ::
  "nat \<Rightarrow> nat \<Rightarrow> nat \<Rightarrow> 8 word list \<Rightarrow> 8 word list \<Rightarrow> 64 word list option" where
  "matmul_int8_signed_ref batch d_in d_out x_codes w_codes =
     (if length x_codes \<noteq> batch * d_in \<or> length w_codes \<noteq> d_in * d_out then None
      else Some (fill_rows batch d_out (int8_lane d_in d_out x_codes w_codes)
             (replicate (batch * d_out) 0)))"

text \<open>\<^verbatim>\<open>matmul_60bit_ref\<close> (in \<^verbatim>\<open>sp_matmul_q_ref.rs\<close>): exact sums in \<^verbatim>\<open>u128\<close>; \<open>Some None\<close> when a lane reaches
  \<open>M\<close>, \<open>None\<close> when an assertion on the lengths fails.\<close>

definition lane_60bit :: "nat \<Rightarrow> nat \<Rightarrow> u32 list \<Rightarrow> u32 list \<Rightarrow> nat \<Rightarrow> nat \<Rightarrow> 128 word" where
  "lane_60bit d_in d_out x w b i =
     fold (\<lambda>k acc. acc + ucast (x ! (b * d_in + k)) * ucast (w ! (k * d_out + i))) [0..<d_in] 0"

definition matmul_60bit_ref ::
  "nat \<Rightarrow> nat \<Rightarrow> nat \<Rightarrow> u32 list \<Rightarrow> u32 list \<Rightarrow> u64 list option option" where
  "matmul_60bit_ref batch d_in d_out x w =
     (if length x \<noteq> batch * d_in \<or> length w \<noteq> d_in * d_out then None
      else if list_ex (\<lambda>b. list_ex (\<lambda>i. ucast M_Q1Q2 \<le> lane_60bit d_in d_out x w b i) [0..<d_out])
                [0..<batch]
      then Some None
      else Some (Some (fill_rows batch d_out (\<lambda>b i. ucast (lane_60bit d_in d_out x w b i))
                        (replicate (batch * d_out) 0))))"

subsection \<open>Facts about the two primes\<close>

abbreviation Q1 :: int where "Q1 \<equiv> 1073738753"
abbreviation Q2 :: int where "Q2 \<equiv> 1073732609"

lemma q_values [simp]:
  "unat SP_NTT_Q1 = 1073738753" "unat SP_NTT_Q2 = 1073732609" "unat Q1_INV_MOD_Q2 = 894602413"
  by (simp_all add: SP_NTT_Q1_def SP_NTT_Q2_def Q1_INV_MOD_Q2_def)

lemma m_value: "M_Q1Q2 = 1152908312643096577"
  by (simp add: M_Q1Q2_def SP_NTT_Q1_def SP_NTT_Q2_def)

lemma q1_inverse: "Q1 * 894602413 mod Q2 = 1"
  by simp

lemma q1_q2_coprime: "coprime Q1 Q2"
proof (rule coprimeI)
  fix c assume c: "c dvd Q1" "c dvd Q2"
  have "c dvd Q1 * 894602413 mod Q2" using c by (intro dvd_mod) (rule dvd_mult2)
  then show "is_unit c" by (simp only: q1_inverse)
qed

text \<open>Two residues determine a number below \<open>M = q1 * q2\<close> (the Chinese remainder step).\<close>

lemma crt_unique:
  assumes "r mod Q1 = v mod Q1" and "r mod Q2 = v mod Q2"
  shows "r mod (Q1 * Q2) = v mod (Q1 * Q2)"
  using assms q1_q2_coprime by (simp only: mod_eq_dvd_iff divides_mult)

lemma mod_linear:
  "(a + p * (x mod m * k mod m)) mod m = (a + p * (x * k)) mod (m :: int)"
  "(a + (p mod m) * x) mod m = (a + p * x) mod m"
  "(a + p * (x mod m)) mod m = (a + p * x) mod m"
  by (metis mod_add_right_eq mod_mult_left_eq mod_mult_right_eq)
    (metis mod_add_right_eq mod_mult_left_eq mod_mult_right_eq)+

lemma garner_int:
  assumes a: "0 \<le> a" "a < Q1" and b: "0 \<le> b" "b < Q2"
  defines "r \<equiv> a + Q1 * ((b - a) mod Q2 * 894602413 mod Q2)"
  shows "r mod Q1 = a" and "r mod Q2 = b" and "0 \<le> r" and "r < Q1 * Q2"
proof -
  let ?t = "(b - a) mod Q2 * 894602413 mod Q2"
  have t: "0 \<le> ?t" "?t \<le> Q2 - 1" by simp_all
  show "r mod Q1 = a" using a by (simp only: r_def mod_mult_self2 mod_pos_pos_trivial)
  have "r mod Q2 = (a + Q1 * ((b - a) * 894602413)) mod Q2"
    unfolding r_def by (rule mod_linear)
  also have "\<dots> = (a + (Q1 * 894602413) * (b - a)) mod Q2" by (simp only: ac_simps)
  also have "\<dots> = (a + (Q1 * 894602413 mod Q2) * (b - a)) mod Q2" by (rule mod_linear(2) [symmetric])
  also have "\<dots> = b" using b by (simp only: q1_inverse) simp
  finally show "r mod Q2 = b" .
  show "0 \<le> r" using a t unfolding r_def by linarith
  show "r < Q1 * Q2" using a t unfolding r_def by linarith
qed

lemma garner_diff_int:
  assumes "unat b < 1073732609" and "unat a \<le> unat b + 1073732609"
  shows "int (unat (garner_diff a b)) = (int (unat b) - int (unat a)) mod Q2"
proof (cases "a \<le> b")
  case True
  have "(int (unat b) - int (unat a)) mod Q2 = int (unat b) - int (unat a)"
    using True assms unfolding word_le_nat_alt by (intro mod_pos_pos_trivial) linarith+
  then show ?thesis using True
    by (simp add: garner_diff_def unat_sub word_le_nat_alt of_nat_diff)
next
  case False
  then have "unat (garner_diff a b) = 1073732609 - (unat a - unat b)"
    using assms by (simp add: garner_diff_def unat_sub word_le_nat_alt)
  moreover have "(int (unat b) - int (unat a)) mod Q2 = (int (unat b) - int (unat a) + Q2) mod Q2"
    by simp
  moreover have "(int (unat b) - int (unat a) + Q2) mod Q2 = int (unat b) - int (unat a) + Q2"
    using False assms unfolding word_le_nat_alt by (intro mod_pos_pos_trivial) linarith+
  ultimately show ?thesis using False assms by (simp add: word_le_nat_alt of_nat_diff)
qed

lemma garner_unsigned_int:
  assumes a: "unat a < 1073738753" and b: "unat b < 1073732609"
    and ab: "unat a \<le> unat b + 1073732609"
  shows "int (unat (garner_unsigned_one a b)) =
    int (unat a) + Q1 * ((int (unat b) - int (unat a)) mod Q2 * 894602413 mod Q2)"
proof -
  let ?d = "garner_diff a b"
  note d = garner_diff_int [OF b ab]
  have d_lt: "unat ?d < 1073732609"
    using d by (metis of_nat_less_iff of_nat_numeral pos_mod_bound zero_less_numeral)
  have "unat ?d * 894602413 < 2 ^ 64" using d_lt by simp
  then have t: "unat (?d * ucast Q1_INV_MOD_Q2 mod ucast SP_NTT_Q2 :: u64) =
      unat ?d * 894602413 mod 1073732609"
    by (simp add: unat_mod unat_word_ariths)
  have wrap: "unat ?d * 894602413 mod 18446744073709551616 = unat ?d * 894602413"
    using d_lt by simp
  have lt: "1073738753 * (unat ?d * 894602413 mod 1073732609) \<le> 1073738753 * (1073732609 - 1)"
    by (intro mult_le_mono2) simp
  have "unat (garner_unsigned_one a b) = unat a + 1073738753 * (unat ?d * 894602413 mod 1073732609)"
    using a lt by (simp add: garner_unsigned_one_def Let_def unat_word_ariths unat_mod wrap)
  then show ?thesis unfolding d [symmetric] by (simp only: of_nat_add of_nat_mult zmod_int of_nat_numeral)
qed

lemma m_half: "M_Q1Q2 div 2 = 576454156321548288"
  by (simp add: m_value)

lemma garner_centre:
  assumes "int (unat (garner_unsigned_one a b)) = r" and "r < Q1 * Q2"
  shows "sint (garner_one a b) = (if r \<le> 576454156321548288 then r else r - Q1 * Q2)"
proof -
  define u where "u = garner_unsigned_one a b"
  have "0 \<le> r" using assms(1) by (metis of_nat_0_le_iff)
  then have r: "0 \<le> r" "r < 1152908312643096577" using assms(2) by simp_all
  have "signed_take_bit 63 r = r"
    by (rule signed_take_bit_int_eq_self) (use r in simp_all)
  then have su: "sint u = r" using assms(1) by (simp add: u_def [symmetric] sint_uint)
  have "sint (u - M_Q1Q2) = r - 1152908312643096577"
    using su r by (simp add: m_value sint_word_ariths signed_take_bit_int_eq_self)
  then show ?thesis using su
    by (simp add: garner_one_def Let_def m_half word_sless_alt u_def [symmetric])
qed

lemma garner_one_int:
  assumes a: "unat a < 1073738753" and b: "unat b < 1073732609"
    and ab: "unat a \<le> unat b + 1073732609"
    and va: "v mod Q1 = int (unat a)" and vb: "v mod Q2 = int (unat b)"
    and v: "\<bar>v\<bar> \<le> 576454156321548288"
  shows "sint (garner_one a b) = v"
proof -
  define r where "r = int (unat (garner_unsigned_one a b))"
  have r_eq: "r = int (unat a) + Q1 * ((int (unat b) - int (unat a)) mod Q2 * 894602413 mod Q2)"
    unfolding r_def using a b ab by (rule garner_unsigned_int)
  have r: "r mod Q1 = int (unat a)" "r mod Q2 = int (unat b)" "0 \<le> r" "r < Q1 * Q2"
    unfolding r_eq by (rule garner_int; use a b in linarith)+
  have M: "r mod (Q1 * Q2) = v mod (Q1 * Q2)"
    using r va vb by (intro crt_unique) simp_all
  have r_cases: "r = (if 0 \<le> v then v else v + 1152908312643096577)"
  proof (cases "0 \<le> v")
    case True
    then have "v mod (Q1 * Q2) = v" using v by (intro mod_pos_pos_trivial) simp_all
    moreover have "r mod (Q1 * Q2) = r" using r by (intro mod_pos_pos_trivial) simp_all
    ultimately show ?thesis using M True by simp
  next
    case False
    have "(v + Q1 * Q2) mod (Q1 * Q2) = v + Q1 * Q2"
      using False v by (intro mod_pos_pos_trivial) simp_all
    moreover have "r mod (Q1 * Q2) = r" using r by (intro mod_pos_pos_trivial) simp_all
    ultimately show ?thesis using M False by simp
  qed
  show ?thesis
    unfolding garner_centre [OF r_def [symmetric] r(4)] using r_cases v
    by (cases "0 \<le> v") (simp_all add: abs_le_iff)
qed

subsection \<open>Rows and columns\<close>

lemma row_index: "b < batch \<Longrightarrow> k < d_in \<Longrightarrow> b * d_in + k < batch * (d_in :: nat)"
proof -
  assume "b < batch" "k < d_in"
  then have "b * d_in + k < Suc b * d_in" by simp
  also have "\<dots> \<le> batch * d_in" using \<open>b < batch\<close> by (intro mult_le_mono1) simp
  finally show ?thesis .
qed

text \<open>The product in \<open>\<int>\<close> that every variant computes.\<close>

definition dot :: "(nat \<Rightarrow> int) \<Rightarrow> (nat \<Rightarrow> int) \<Rightarrow> nat \<Rightarrow> nat \<Rightarrow> nat \<Rightarrow> nat \<Rightarrow> int" where
  "dot x w d_in d_out b i = (\<Sum>k<d_in. x (b * d_in + k) * w (k * d_out + i))"

lemma q_mu_cases:
  "q_mu q_idx = (SP_NTT_Q1, SP_MU_Q1) \<or> q_mu q_idx = (SP_NTT_Q2, SP_MU_Q2)"
  by (simp add: q_mu_def)

subsection \<open>The int8 lift and the signed product\<close>

lemma sint_byte: "- 128 \<le> sint (c :: 8 word)" "sint c < 128"
  using sint_range_size [of c] by (simp_all add: word_size)

lemma of_int_sint_id: "word_of_int (sint w) = (w :: 'a::len word)"
  by (simp add: of_int_sint)

lemma lift_mod:
  assumes q: "128 \<le> unat q" "unat q < 2 ^ 30"
  shows "int (unat (lift_q8_to_zq c q)) = sint c mod int (unat q)"
proof -
  define n where "n = int (unat q)"
  define v where "v = (if 0 \<le> sint c then sint c else n + sint c)"
  note c = sint_byte [of c]
  have "unat q < 1073741824" using q(2) by simp
  then have n: "128 \<le> n" "n < 1073741824" unfolding n_def using q(1) by linarith+
  have v: "0 \<le> v" "v < n" using c n by (simp_all add: v_def)
  have "lift_q8_to_zq c q = word_of_int v"
  proof (cases "0 \<le> sint c")
    case True
    then show ?thesis by (simp add: lift_q8_to_zq_def word_sle_eq v_def)
  next
    case False
    have "word_of_int (n + sint c) = q + scast c" by (simp add: n_def)
    with False show ?thesis by (simp add: lift_q8_to_zq_def word_sle_eq v_def)
  qed
  moreover have "uint (word_of_int v :: u32) = v"
    using v n by (simp add: uint_word_of_int)
  moreover have "sint c mod n = v"
  proof -
    have "sint c mod n = v mod n" by (simp add: v_def)
    then show ?thesis using v by (simp add: mod_pos_pos_trivial)
  qed
  ultimately show ?thesis by (simp add: n_def)
qed

lemma int8_lane_int:
  "int8_lane d_in d_out x w b i = word_of_int (dot (\<lambda>j. sint (x ! j)) (\<lambda>j. sint (w ! j)) d_in d_out b i)"
proof -
  have "fold (\<lambda>k acc. acc + scast (x ! (b * d_in + k)) * scast (w ! (k * d_out + i))) [0..<n] 0 =
    (word_of_int (\<Sum>k<n. sint (x ! (b * d_in + k)) * sint (w ! (k * d_out + i))) :: 64 word)" for n
    by (induction n) simp_all
  then show ?thesis by (simp add: int8_lane_def dot_def)
qed

lemma dot_bound:
  assumes "d_in \<le> 65535"
  shows "\<bar>dot (\<lambda>j. sint (x ! j :: 8 word)) (\<lambda>j. sint (w ! j :: 8 word)) d_in d_out b i\<bar> < Q2"
proof -
  have p: "\<bar>sint c * sint d\<bar> \<le> 16384" for c d :: "8 word"
  proof -
    have "\<bar>sint c\<bar> * \<bar>sint d\<bar> \<le> 128 * 128"
      using sint_byte [of c] sint_byte [of d] by (intro mult_mono) linarith+
    then show ?thesis by (simp add: abs_mult)
  qed
  have "\<bar>dot (\<lambda>j. sint (x ! j)) (\<lambda>j. sint (w ! j)) d_in d_out b i\<bar> \<le> (\<Sum>k<d_in. 16384)"
    unfolding dot_def by (rule order_trans [OF sum_abs sum_mono]) (rule p)
  then show ?thesis using assms by simp
qed

text \<open>One lane of the product of the lifted codes is the exact product mod \<open>q\<close>.\<close>

context crt_prime
begin

lemma lifted_lane:
  fixes x w :: "8 word list"
  assumes len: "length x = batch * d_in" "length w = d_in * d_out" and bi: "b < batch" "i < d_out"
  shows "int (unat (matmul_lane q mu d_in d_out (map (\<lambda>c. lift_q8_to_zq c q) x)
      (map (\<lambda>c. lift_q8_to_zq c q) w) b i)) =
    dot (\<lambda>j. sint (x ! j)) (\<lambda>j. sint (w ! j)) d_in d_out b i mod int (unat q)"
proof -
  let ?L = "\<lambda>c. lift_q8_to_zq c q"
  have q128: "128 \<le> unat q" using q_lower by simp
  note lift = lift_mod [OF q128 q_upper]
  have lift_lt: "unat (?L c) < 2 ^ 30" for c
  proof -
    have "int (unat (?L c)) < int (unat q)" unfolding lift using q_pos by (intro pos_mod_bound) linarith
    then show ?thesis using q_upper by linarith
  qed
  have ix: "b * d_in + k < length x" "k * d_out + i < length w" if "k < d_in" for k
    using that bi len row_index by auto
  have "unat (matmul_lane q mu d_in d_out (map ?L x) (map ?L w) b i) =
    (\<Sum>k<d_in. unat (?L (x ! (b * d_in + k))) * unat (?L (w ! (k * d_out + i)))) mod unat q"
    using ix lift_lt by (subst matmul_lane_mod) simp_all
  then have "int (unat (matmul_lane q mu d_in d_out (map ?L x) (map ?L w) b i)) =
    (\<Sum>k<d_in. (sint (x ! (b * d_in + k)) mod int (unat q)) *
      (sint (w ! (k * d_out + i)) mod int (unat q))) mod int (unat q)"
    by (simp only: zmod_int of_nat_sum of_nat_mult lift)
  also have "\<dots> = (\<Sum>k<d_in. sint (x ! (b * d_in + k)) * sint (w ! (k * d_out + i))) mod int (unat q)"
    by (subst (1 2) mod_sum_eq [symmetric]) (simp only: mod_mult_eq)
  finally show ?thesis by (simp only: dot_def)
qed

end

lemma int8_lane_crt:
  fixes x w :: "8 word list"
  assumes len: "length x = batch * d_in" "length w = d_in * d_out"
    and bi: "b < batch" "i < d_out" and d: "d_in \<le> 65535"
  shows "garner_one
      (matmul_lane SP_NTT_Q1 SP_MU_Q1 d_in d_out (map (\<lambda>c. lift_q8_to_zq c SP_NTT_Q1) x)
        (map (\<lambda>c. lift_q8_to_zq c SP_NTT_Q1) w) b i)
      (matmul_lane SP_NTT_Q2 SP_MU_Q2 d_in d_out (map (\<lambda>c. lift_q8_to_zq c SP_NTT_Q2) x)
        (map (\<lambda>c. lift_q8_to_zq c SP_NTT_Q2) w) b i) =
    int8_lane d_in d_out x w b i" (is "garner_one ?a ?b = _")
proof -
  define v where "v = dot (\<lambda>j. sint (x ! j)) (\<lambda>j. sint (w ! j)) d_in d_out b i"
  have v: "\<bar>v\<bar> < Q2" unfolding v_def using d by (rule dot_bound)
  have a: "int (unat ?a) = v mod Q1" and b: "int (unat ?b) = v mod Q2"
    using q1_prime.lifted_lane [OF len bi] q2_prime.lifted_lane [OF len bi]
    by (simp_all only: v_def q_values of_nat_numeral)
  have neg: "v mod Q1 = v + Q1" "v mod Q2 = v + Q2" if "v < 0"
  proof -
    have "(v + Q1) mod Q1 = v + Q1" "(v + Q2) mod Q2 = v + Q2"
      using v that by (intro mod_pos_pos_trivial; linarith)+
    then show "v mod Q1 = v + Q1" "v mod Q2 = v + Q2" by simp_all
  qed
  have pos: "v mod Q1 = v" "v mod Q2 = v" if "0 \<le> v"
    using v that by (intro mod_pos_pos_trivial; linarith)+
  have "sint (garner_one ?a ?b) = v"
  proof (rule garner_one_int)
    show "unat ?a \<le> unat ?b + 1073732609"
      using a b pos neg v by (cases "0 \<le> v") linarith+
    show "unat ?a < 1073738753"
      using a pos_mod_bound [of Q1 v] by linarith
    show "unat ?b < 1073732609"
      using b pos_mod_bound [of Q2 v] by linarith
  qed (use a b v in linarith)+
  then have "garner_one ?a ?b = word_of_int v"
    by (metis of_int_sint_id)
  then show ?thesis by (simp only: v_def int8_lane_int)
qed

text \<open>
  Outside the range \<open>a \<le> b + q2\<close> the subtraction \<^verbatim>\<open>q2_64 - (a - b)\<close> goes below zero, and the
  wrapped value is never the right residue, because \<open>2^64\<close> is not a multiple of \<open>q2\<close>.
\<close>

lemma garner_one_underflow:
  assumes a: "unat a < 1073738753" and ab: "unat b + 1073732609 < unat a"
    and vb: "v mod Q2 = int (unat b)"
  shows "sint (garner_one a b) \<noteq> v"
proof
  assume eq: "sint (garner_one a b) = v"
  define e where "e = unat a - unat b - 1073732609"
  have e: "0 < e" "e \<le> 6143" using a ab by (auto simp: e_def)
  have "unat (a - b) = e + 1073732609"
    using ab by (simp add: e_def unat_sub word_le_nat_alt)
  then have ab': "(ucast (a - b) :: u64) = of_nat (e + 1073732609)"
    by (metis of_nat_unat)
  have d: "garner_diff a b = - of_nat e"
    using ab ab' by (simp add: garner_diff_def word_le_nat_alt SP_NTT_Q2_def)
  define P where "P = e * 894602413"
  have P: "0 < P" "P < 2 ^ 43" using e by (simp_all add: P_def)
  have "unat (- of_nat P :: u64) = 2 ^ 64 - P"
  proof -
    have "- of_nat P = (of_nat (2 ^ 64 - P) :: u64)"
      using P by (simp add: of_nat_diff)
    then show ?thesis using P by (simp only: unat_of_nat) simp
  qed
  moreover have "garner_diff a b * ucast Q1_INV_MOD_Q2 = - of_nat P"
    by (simp add: d P_def Q1_INV_MOD_Q2_def)
  ultimately have t: "unat (garner_diff a b * ucast Q1_INV_MOD_Q2 mod ucast SP_NTT_Q2) =
      (2 ^ 64 - P) mod 1073732609"
    by (simp add: unat_mod)
  have lt: "1073738753 * ((2 ^ 64 - P) mod 1073732609) \<le> 1073738753 * (1073732609 - 1)"
    by (intro mult_le_mono2) simp
  have r_nat: "unat (garner_unsigned_one a b) = unat a + 1073738753 * ((2 ^ 64 - P) mod 1073732609)"
    using a lt unfolding garner_unsigned_one_def Let_def
    by (simp only: unat_word_ariths(1,2) t unat_u32_u64 q_values) simp
  define t where "t = (2 ^ 64 - int P) mod Q2"
  have "int ((2 ^ 64 - P) mod 1073732609) = t"
    using P by (simp add: t_def zmod_int of_nat_diff)
  then have r: "int (unat (garner_unsigned_one a b)) = int (unat a) + Q1 * t"
    unfolding r_nat by (simp only: of_nat_add of_nat_mult of_nat_numeral)
  moreover have "int (unat a) + Q1 * t < Q1 * Q2"
    using a pos_mod_bound [of Q2 "2 ^ 64 - int P"] unfolding t_def by linarith
  ultimately have "v = int (unat a) + Q1 * t \<or> v = int (unat a) + Q1 * t - Q1 * Q2"
    using garner_centre [of a b] eq by auto
  then have "Q2 dvd v - (int (unat a) + Q1 * t)" by (elim disjE) simp_all
  moreover have "Q2 dvd v - int (unat b)" using dvd_minus_mod [of Q2 v] unfolding vb .
  ultimately have "Q2 dvd (v - int (unat b)) - (v - (int (unat a) + Q1 * t))" by (rule dvd_diff [rotated])
  moreover have "(v - int (unat b)) - (v - (int (unat a) + Q1 * t)) = (int e + Q1 * t) + Q2"
    using ab by (simp only: e_def)
  ultimately have "(int e + Q1 * t) mod Q2 = 0"
    by (simp only: dvd_add_triv_right_iff flip: dvd_eq_mod_eq_0)
  moreover have "(int e + Q1 * t) mod Q2 = (int e + Q1 * (2 ^ 64 - int P)) mod Q2"
    unfolding t_def by (rule mod_linear(3))
  moreover have "int e + Q1 * (2 ^ 64 - int P) = Q1 * 2 ^ 64 + Q2 * (- 894607532 * int e)"
    by (simp add: P_def)
  ultimately have "(Q1 * 2 ^ 64 + Q2 * (- 894607532 * int e)) mod Q2 = 0" by (simp only:)
  then show False by (simp only: mod_mult_self2) simp
qed


subsection \<open>Properties\<close>

text \<open>
  For either prime and every product below \<open>2^60\<close>, Barrett reduction returns exactly the
  remainder: the estimate is never more than two multiples short, and no step overflows.
\<close>

theorem barrett_reduce32_correct:
  assumes "unat x < 2 ^ 60" and "q_mu q_idx = (q, mu)"
  shows "unat (barrett_reduce32 x q mu) = unat x mod unat q"
  using assms q_mu_cases [of q_idx] q1_prime.barrett_mod q2_prime.barrett_mod by auto

lemma barrett_reduce32_correct_witness:
  "unat (barrett_reduce32 1152921504606846975 SP_NTT_Q1 SP_MU_Q1) =
    unat (1152921504606846975 :: u64) mod unat SP_NTT_Q1"
  by (rule barrett_reduce32_correct [of _ 0]) (simp_all add: q_mu_def)

text \<open>
  The scalar mod-q matrix product: it answers exactly when both operands have the declared
  shape, and then every lane is the sum of products mod the selected prime (operands below
  \<open>2^30\<close>, as residues are).
\<close>

theorem matmul_q_scalar_ref_correct:
  assumes len: "length x = batch * d_in" "length w = d_in * d_out"
    and x: "\<forall>c\<in>set x. unat c < 2 ^ 30" and w: "\<forall>c\<in>set w. unat c < 2 ^ 30"
    and q: "q_mu q_idx = (q, mu)"
  shows "\<exists>y. matmul_q_scalar_ref q_idx batch d_in d_out x w = Some y \<and> length y = batch * d_out \<and>
    (\<forall>b<batch. \<forall>i<d_out. unat (y ! (b * d_out + i)) =
      (\<Sum>k<d_in. unat (x ! (b * d_in + k)) * unat (w ! (k * d_out + i))) mod unat q)"
proof -
  let ?y = "fill_rows batch d_out (matmul_lane q mu d_in d_out x w) (replicate (batch * d_out) 0)"
  have lane: "unat (matmul_lane q mu d_in d_out x w b i) =
      (\<Sum>k<d_in. unat (x ! (b * d_in + k)) * unat (w ! (k * d_out + i))) mod unat q"
    if "b < batch" "i < d_out" for b i
  proof -
    have ix: "b * d_in + k < length x" "k * d_out + i < length w" if "k < d_in" for k
      using that \<open>b < batch\<close> \<open>i < d_out\<close> len row_index by auto
    from q_mu_cases [of q_idx] q
    consider "q = SP_NTT_Q1" "mu = SP_MU_Q1" | "q = SP_NTT_Q2" "mu = SP_MU_Q2" by auto
    then show ?thesis
      using ix x w q1_prime.matmul_lane_mod q2_prime.matmul_lane_mod by cases (simp_all add: nth_mem)
  qed
  have "?y ! (b * d_out + i) = matmul_lane q mu d_in d_out x w b i" if "b < batch" "i < d_out" for b i
    using that row_index [of b batch i d_out] by (simp add: fill_rows_nth)
  with lane have "\<forall>b<batch. \<forall>i<d_out. unat (?y ! (b * d_out + i)) =
      (\<Sum>k<d_in. unat (x ! (b * d_in + k)) * unat (w ! (k * d_out + i))) mod unat q"
    by simp
  moreover have "matmul_q_scalar_ref q_idx batch d_in d_out x w = Some ?y" "length ?y = batch * d_out"
    using len q by (simp_all add: matmul_q_scalar_ref_def)
  ultimately show ?thesis by blast
qed

lemma matmul_q_scalar_ref_correct_witness:
  "\<exists>y. matmul_q_scalar_ref 1 1 2 1 [1073732608, 5] [1073732608, 7] = Some y \<and> length y = 1 * 1 \<and>
    (\<forall>b<1. \<forall>i<1. unat (y ! (b * 1 + i)) =
      (\<Sum>k<2. unat ([1073732608, 5] ! (b * 2 + k) :: u32) * unat ([1073732608, 7] ! (k * 1 + i) :: u32))
        mod unat SP_NTT_Q2)"
  by (rule matmul_q_scalar_ref_correct) (simp_all add: q_mu_def)

text \<open>
  C38. Signed Garner recombination, with its exact domain: for residues \<open>a\<close>, \<open>b\<close> of a number
  \<open>v\<close> of the symmetric range (at most \<open>(M - 1) / 2\<close> in absolute value), the code returns \<open>v\<close>
  if and only if \<open>a \<le> b + q2\<close>. On the other pairs the subtraction \<^verbatim>\<open>q2_64 - (a - b)\<close>
  underflows and the result is always wrong.
\<close>

theorem garner_one_exact_domain:
  assumes "v mod int (unat SP_NTT_Q1) = int (unat a)" and "v mod int (unat SP_NTT_Q2) = int (unat b)"
    and "\<bar>v\<bar> \<le> (int (unat M_Q1Q2) - 1) div 2"
  shows "sint (garner_one a b) = v \<longleftrightarrow> unat a \<le> unat b + unat SP_NTT_Q2"
proof -
  have v: "v mod Q1 = int (unat a)" "v mod Q2 = int (unat b)" "\<bar>v\<bar> \<le> 576454156321548288"
    using assms by (simp_all add: m_value)
  have lt: "unat a < 1073738753" "unat b < 1073732609"
    using v pos_mod_bound [of Q1 v] pos_mod_bound [of Q2 v] by linarith+
  show ?thesis
    using garner_one_int [OF lt _ v] garner_one_underflow [OF lt(1) _ v(2)] by (simp add: not_less) linarith
qed

lemma garner_one_exact_domain_witness:
  "sint (garner_one 1073738752 5118) = 187648731951785 \<longleftrightarrow>
    unat (1073738752 :: u32) \<le> unat (5118 :: u32) + unat SP_NTT_Q2"
  by (rule garner_one_exact_domain) (simp_all add: m_value)

text \<open>
  C4. The two-prime int8 pipeline is exact: lifting the codes to both primes, multiplying mod each
  prime and recombining gives, byte for byte, the signed reference product, for every pair of
  shaped operands with \<open>d_in\<close> up to 65535 (the underflow of the recombination is out of reach).
\<close>

theorem trick1_matmul_exact:
  assumes len: "length x = batch * d_in" "length w = d_in * d_out" and d: "d_in \<le> 65535"
  shows "\<exists>y1 y2 y. matmul_q_scalar_ref 0 batch d_in d_out
      (map (\<lambda>c. lift_q8_to_zq c SP_NTT_Q1) x) (map (\<lambda>c. lift_q8_to_zq c SP_NTT_Q1) w) = Some y1 \<and>
    matmul_q_scalar_ref 1 batch d_in d_out
      (map (\<lambda>c. lift_q8_to_zq c SP_NTT_Q2) x) (map (\<lambda>c. lift_q8_to_zq c SP_NTT_Q2) w) = Some y2 \<and>
    garner_combine_q1_q2_signed y1 y2 = Some y \<and>
    matmul_int8_signed_ref batch d_in d_out x w = Some y"
proof -
  define z :: "u32 list" where "z = replicate (batch * d_out) 0"
  define f1 where "f1 = matmul_lane SP_NTT_Q1 SP_MU_Q1 d_in d_out (map (\<lambda>c. lift_q8_to_zq c SP_NTT_Q1) x)
        (map (\<lambda>c. lift_q8_to_zq c SP_NTT_Q1) w)"
  define f2 where "f2 = matmul_lane SP_NTT_Q2 SP_MU_Q2 d_in d_out (map (\<lambda>c. lift_q8_to_zq c SP_NTT_Q2) x)
        (map (\<lambda>c. lift_q8_to_zq c SP_NTT_Q2) w)"
  have "map (\<lambda>(a, b). garner_one a b) (zip (fill_rows batch d_out f1 z) (fill_rows batch d_out f2 z)) =
      fill_rows batch d_out (int8_lane d_in d_out x w) (replicate (batch * d_out) 0)"
    (is "?l = ?r")
  proof (rule nth_equalityI)
    fix j
    assume "j < length ?l"
    then have j: "j < batch * d_out" by (simp add: z_def)
    then have "0 < d_out" by (cases d_out) auto
    then have "j div d_out < batch" "j mod d_out < d_out"
      using j by (simp_all add: less_mult_imp_div_less)
    then show "?l ! j = ?r ! j"
      using j len d int8_lane_crt by (simp add: z_def fill_rows_nth f1_def f2_def)
  qed (simp add: z_def)
  then show ?thesis
    using len by (simp add: matmul_q_scalar_ref_def q_mu_def garner_combine_q1_q2_signed_def
        matmul_int8_signed_ref_def z_def f1_def f2_def)
qed

lemma trick1_matmul_exact_witness:
  "\<exists>y1 y2 y. matmul_q_scalar_ref 0 1 2 1
      (map (\<lambda>c. lift_q8_to_zq c SP_NTT_Q1) [127, - 127]) (map (\<lambda>c. lift_q8_to_zq c SP_NTT_Q1) [- 3, 5]) = Some y1 \<and>
    matmul_q_scalar_ref 1 1 2 1
      (map (\<lambda>c. lift_q8_to_zq c SP_NTT_Q2) [127, - 127]) (map (\<lambda>c. lift_q8_to_zq c SP_NTT_Q2) [- 3, 5]) = Some y2 \<and>
    garner_combine_q1_q2_signed y1 y2 = Some y \<and>
    matmul_int8_signed_ref 1 2 1 [127, - 127] [- 3, 5] = Some y"
  by (rule trick1_matmul_exact) simp_all

end
