(* ===== verification/Dialogue_Runner.thy ===== *)
theory Dialogue_Runner
  imports Dialogue
begin

text \<open>
  \<^verbatim>\<open>dialogue_runner.rs\<close> with the buffers of \<^verbatim>\<open>dialogue.rs\<close>: the three-turn dialogue over
  an Executive and a Memory session. The buffers are token vectors with the capacity their
  allocation got; \<open>alloc n\<close> is what \<^verbatim>\<open>Vec::with_capacity(n)\<close> reserves (at least \<open>n\<close>). The
  tokenizer is an argument (a record of the operations used), the clock readings are arguments, and
  \<open>final_answer\<close> is kept as the bytes handed to \<^verbatim>\<open>String::from_utf8_lossy\<close>.
\<close>

subsection \<open>Caps and pool\<close>

record dialogue_caps =
  max_prompt_tokens :: nat
  max_query_tokens :: nat
  max_response_tokens :: nat
  max_answer_tokens :: nat

definition dialogue_caps_default :: dialogue_caps where
  "dialogue_caps_default = \<lparr>max_prompt_tokens = 64, max_query_tokens = 64,
     max_response_tokens = 128, max_answer_tokens = 128\<rparr>"

record token_vec =
  items :: "i32 list"
  capacity :: nat

definition with_capacity :: "(nat \<Rightarrow> nat) \<Rightarrow> nat \<Rightarrow> token_vec" where
  "with_capacity alloc n = \<lparr>items = [], capacity = alloc n\<rparr>"

record dialogue_pool =
  exec_logits :: "f32 list"
  memo_logits :: "f32 list"
  prompt_tokens :: token_vec
  grounding_query :: token_vec
  memory_response :: token_vec
  final_answer_vec :: token_vec

definition dialogue_pool_new :: "(nat \<Rightarrow> nat) \<Rightarrow> nat \<Rightarrow> nat \<Rightarrow> dialogue_caps \<Rightarrow> dialogue_pool" where
  "dialogue_pool_new alloc vocab_exec vocab_memo caps = \<lparr>
     exec_logits = replicate vocab_exec 0,
     memo_logits = replicate vocab_memo 0,
     prompt_tokens = with_capacity alloc (max_prompt_tokens caps),
     grounding_query = with_capacity alloc (max_query_tokens caps),
     memory_response = with_capacity alloc (max_response_tokens caps),
     final_answer_vec = with_capacity alloc (max_answer_tokens caps)\<rparr>"

definition reset_tokens :: "dialogue_pool \<Rightarrow> dialogue_pool" where
  "reset_tokens p = p\<lparr>prompt_tokens := (prompt_tokens p)\<lparr>items := []\<rparr>,
     grounding_query := (grounding_query p)\<lparr>items := []\<rparr>,
     memory_response := (memory_response p)\<lparr>items := []\<rparr>,
     final_answer_vec := (final_answer_vec p)\<lparr>items := []\<rparr>\<rparr>"

subsection \<open>One turn\<close>

definition BYTE_EOS_CHECK :: i32 where
  "BYTE_EOS_CHECK = 0"

fun turn_loop ::
  "'s l1_api \<Rightarrow> i32 list \<Rightarrow> nat \<Rightarrow> nat \<Rightarrow> 's \<Rightarrow> f32 list \<Rightarrow> i32 list \<Rightarrow> i32 \<Rightarrow>
     (session_error + unit) \<times> 's \<times> f32 list \<times> i32 list" where
  "turn_loop api eos cap 0 s logits out nxt = (Inr (), s, logits, out)"
| "turn_loop api eos cap (Suc n) s logits out nxt =
     (if nxt = BYTE_EOS_CHECK then (Inr (), s, logits, out)
      else if eos \<noteq> [] \<and> nxt \<in> set eos then (Inr (), s, logits, out)
      else if cap \<le> length out then (Inr (), s, logits, out)
      else (case decode_step api s nxt logits of
              (Inl e, s', logits') \<Rightarrow> (Inl e, s', logits', out @ [nxt])
            | (Inr _, s', logits') \<Rightarrow>
                turn_loop api eos cap n s' logits' (out @ [nxt]) (dialogue_argmax logits')))"

definition run_turn ::
  "'s l1_api \<Rightarrow> i32 list \<Rightarrow> nat \<Rightarrow> nat \<Rightarrow> i32 list \<Rightarrow> 's \<Rightarrow> f32 list \<Rightarrow>
     (session_error + unit) \<times> 's \<times> f32 list \<times> i32 list" where
  "run_turn api eos cap max_tokens input s logits =
     (if input = [] then (Inr (), s, logits, [])
      else (case prefill_chunk api s input logits of
              (Inl e, s', logits') \<Rightarrow> (Inl e, s', logits', [])
            | (Inr _, s', logits') \<Rightarrow>
                turn_loop api eos cap max_tokens s' logits' [] (dialogue_argmax logits')))"

subsection \<open>The dialogue\<close>

record dialogue_tokenizer =
  tk_encode :: "string \<Rightarrow> string + i32 list"
  tk_decode_token :: "i32 \<Rightarrow> bytes"
  tk_eos_ids :: "i32 list"

record turn_clock =
  t1_us :: u64
  t2_us :: u64
  t3_us :: u64
  total_us :: u64

datatype dialogue_error = EncodeFailed string | TurnFailed nat session_error

record dialogue_outcome =
  answer_bytes :: bytes
  final_answer_token_count :: nat
  receipts :: "spinor_receipt list"
  turn_us :: "u64 list"
  total_wall_us :: u64

definition dialogue_finish ::
  "(bytes \<Rightarrow> bytes) \<Rightarrow> dialogue_tokenizer \<Rightarrow> turn_clock \<Rightarrow> dialogue_pool \<Rightarrow> dialogue_outcome" where
  "dialogue_finish sha256 tok clk p = \<lparr>
     answer_bytes = concat (map (tk_decode_token tok) (items (final_answer_vec p))),
     final_answer_token_count = length (items (final_answer_vec p)),
     receipts =
       [mint sha256 1 MODEL_ID_EXECUTIVE (items (prompt_tokens p)) (items (grounding_query p)) (t1_us clk),
        mint sha256 2 MODEL_ID_MEMORY (items (grounding_query p)) (items (memory_response p)) (t2_us clk),
        mint sha256 3 MODEL_ID_EXECUTIVE (items (memory_response p)) (items (final_answer_vec p)) (t3_us clk)],
     turn_us = [t1_us clk, t2_us clk, t3_us clk],
     total_wall_us = total_us clk\<rparr>"

definition dialogue_turn1 ::
  "'s l1_api \<Rightarrow> dialogue_tokenizer \<Rightarrow> dialogue_caps \<Rightarrow> i32 list \<Rightarrow> 's \<Rightarrow> dialogue_pool \<Rightarrow>
     (session_error + unit) \<times> 's \<times> dialogue_pool" where
  "dialogue_turn1 api tok caps src exec p =
     (let p1 = p\<lparr>prompt_tokens := (prompt_tokens p)\<lparr>items := take (capacity (prompt_tokens p)) src\<rparr>\<rparr>
      in case run_turn api (tk_eos_ids tok) (capacity (grounding_query p)) (max_query_tokens caps)
                (items (prompt_tokens p1)) exec (exec_logits p1) of
           (res, exec', logits', out) \<Rightarrow>
             (res, exec', p1\<lparr>exec_logits := logits', grounding_query := (grounding_query p)\<lparr>items := out\<rparr>\<rparr>))"

definition dialogue_turn2 ::
  "'s l1_api \<Rightarrow> dialogue_caps \<Rightarrow> 's \<Rightarrow> dialogue_pool \<Rightarrow> (session_error + unit) \<times> 's \<times> dialogue_pool" where
  "dialogue_turn2 api caps memo p =
     (case run_turn api [] (capacity (memory_response p)) (max_response_tokens caps)
             (items (grounding_query p)) memo (memo_logits p) of
        (res, memo', logits', out) \<Rightarrow>
          (res, memo', p\<lparr>memo_logits := logits', memory_response := (memory_response p)\<lparr>items := out\<rparr>\<rparr>))"

definition dialogue_turn3 ::
  "'s l1_api \<Rightarrow> dialogue_tokenizer \<Rightarrow> dialogue_caps \<Rightarrow> 's \<Rightarrow> dialogue_pool \<Rightarrow>
     (session_error + unit) \<times> 's \<times> dialogue_pool" where
  "dialogue_turn3 api tok caps exec p =
     (case run_turn api (tk_eos_ids tok) (capacity (final_answer_vec p)) (max_answer_tokens caps)
             (items (memory_response p)) exec (exec_logits p) of
        (res, exec', logits', out) \<Rightarrow>
          (res, exec', p\<lparr>exec_logits := logits', final_answer_vec := (final_answer_vec p)\<lparr>items := out\<rparr>\<rparr>))"

definition run_dialogue ::
  "(bytes \<Rightarrow> bytes) \<Rightarrow> 's l1_api \<Rightarrow> dialogue_tokenizer \<Rightarrow> turn_clock \<Rightarrow> dialogue_caps \<Rightarrow> string \<Rightarrow>
     's \<Rightarrow> 's \<Rightarrow> dialogue_pool \<Rightarrow> (dialogue_error + dialogue_outcome) \<times> 's \<times> 's \<times> dialogue_pool" where
  "run_dialogue sha256 api tok clk caps user_prompt exec memo p =
     (case tk_encode tok user_prompt of
        Inl e \<Rightarrow> (Inl (EncodeFailed e), exec, memo, p\<lparr>prompt_tokens := (prompt_tokens p)\<lparr>items := []\<rparr>\<rparr>)
      | Inr src \<Rightarrow>
          (case dialogue_turn1 api tok caps src exec p of
             (Inl e, exec1, p1) \<Rightarrow> (Inl (TurnFailed 1 e), exec1, memo, p1)
           | (Inr _, exec1, p1) \<Rightarrow>
               (case dialogue_turn2 api caps memo p1 of
                  (Inl e, memo1, p2) \<Rightarrow> (Inl (TurnFailed 2 e), exec1, memo1, p2)
                | (Inr _, memo1, p2) \<Rightarrow>
                    (case dialogue_turn3 api tok caps exec1 p2 of
                       (Inl e, exec2, p3) \<Rightarrow> (Inl (TurnFailed 3 e), exec2, memo1, p3)
                     | (Inr _, exec2, p3) \<Rightarrow>
                         (Inr (dialogue_finish sha256 tok clk p3), exec2, memo1, p3)))))"

subsection \<open>What a turn produces\<close>

definition stops :: "i32 list \<Rightarrow> i32 \<Rightarrow> bool" where
  "stops eos t \<longleftrightarrow> t = BYTE_EOS_CHECK \<or> t \<in> set eos"

text \<open>The reference: the greedy continuation, bounded by \<open>n\<close>, cut before the first stop token.\<close>

definition turn_ref :: "i32 list \<Rightarrow> nat \<Rightarrow> (i32 list \<Rightarrow> f32 list) \<Rightarrow> i32 list \<Rightarrow> i32 list \<Rightarrow> i32 list" where
  "turn_ref eos n f h input =
     (if input = [] then []
      else takeWhile (\<lambda>t. \<not> stops eos t) (greedy dialogue_argmax f (h @ input) n))"

lemma length_turn_ref: "length (turn_ref eos n f h input) \<le> n"
  using length_takeWhile_le [of _ "greedy dialogue_argmax f (h @ input) n"] by (simp add: turn_ref_def)

lemma turn_loop_greedy:
  assumes "l1_contract api hist fwd ctx"
    and "length (hist s) + min n (cap - length out) \<le> ctx"
    and "nxt = dialogue_argmax (fwd s (hist s))"
  shows "\<exists>s' logits'. turn_loop api eos cap n s logits out nxt = (Inr (), s', logits',
      out @ takeWhile (\<lambda>t. \<not> stops eos t) (greedy dialogue_argmax (fwd s) (hist s) (min n (cap - length out)))) \<and>
    hist s' = hist s @ takeWhile (\<lambda>t. \<not> stops eos t)
      (greedy dialogue_argmax (fwd s) (hist s) (min n (cap - length out))) \<and> fwd s' = fwd s"
  using assms(2,3)
proof (induction n arbitrary: s logits out nxt)
  case 0
  then show ?case by simp
next
  case (Suc n)
  show ?case
  proof (cases "stops eos nxt \<or> cap \<le> length out")
    case True
    then consider "cap \<le> length out" | "stops eos nxt" "length out < cap" by linarith
    then show ?thesis
    proof cases
      case 2
      then have "min (Suc n) (cap - length out) = Suc (min n (cap - Suc (length out)))" by simp
      with 2 Suc.prems show ?thesis by (auto simp: stops_def)
    qed simp
  next
    case False
    then have "cap - length out = Suc (cap - Suc (length out))" by linarith
    then have m: "min (Suc n) (cap - length out) = Suc (min n (cap - Suc (length out)))"
      by (metis min_Suc_Suc)
    with Suc.prems have "length (hist s) < ctx" by simp
    then obtain s' where s': "decode_step api s nxt logits = (Inr (), s', fwd s (hist s @ [nxt]))"
      "hist s' = hist s @ [nxt]" "fwd s' = fwd s"
      using decode_step_contract [OF assms(1)] by metis
    then show ?thesis
      using Suc.IH [of s' "out @ [nxt]" "dialogue_argmax (fwd s (hist s @ [nxt]))" "fwd s (hist s @ [nxt])"]
        Suc.prems m False by (auto simp: stops_def)
  qed
qed

lemma run_turn_greedy:
  assumes "l1_contract api hist fwd ctx"
    and "length (hist s) + length input + min n cap \<le> ctx"
  shows "\<exists>s' logits'. run_turn api eos cap n input s logits =
      (Inr (), s', logits', turn_ref eos (min n cap) (fwd s) (hist s) input) \<and>
    hist s' = hist s @ input @ turn_ref eos (min n cap) (fwd s) (hist s) input \<and> fwd s' = fwd s"
proof (cases "input = []")
  case True
  then show ?thesis by (simp add: run_turn_def turn_ref_def)
next
  case False
  then obtain s1 where s1: "prefill_chunk api s input logits = (Inr (), s1, fwd s (hist s @ input))"
    "hist s1 = hist s @ input" "fwd s1 = fwd s"
    using prefill_chunk_contract [OF assms(1)] assms(2) by (metis add_leD1)
  show ?thesis
    using turn_loop_greedy [OF assms(1), of s1 n cap "[]" _ eos "fwd s (hist s @ input)"] assms(2) s1 False
    by (auto simp: run_turn_def turn_ref_def)
qed


text \<open>Whatever the L1 library answers, a turn stays within its buffer.\<close>

lemma turn_loop_bounds:
  assumes "turn_loop api eos cap n s logits out nxt = (res, s', logits', out')"
    and "length out \<le> cap"
  shows "\<exists>ext. out' = out @ ext \<and> length ext \<le> n \<and> length out' \<le> cap \<and> list_all (\<lambda>t. \<not> stops eos t) ext"
  using assms
proof (induction n arbitrary: s logits out nxt)
  case 0
  then show ?case by simp
next
  case (Suc n)
  show ?case
  proof (cases "stops eos nxt \<or> cap \<le> length out")
    case True
    with Suc.prems have "out' = out" by (auto simp: stops_def split: if_splits)
    with Suc.prems show ?thesis by simp
  next
    case False
    obtain r s1 l1 where d: "decode_step api s nxt logits = (r, s1, l1)" by (rule prod_cases3)
    show ?thesis
    proof (cases r)
      case (Inl e)
      with d False Suc.prems show ?thesis by (auto simp: stops_def)
    next
      case (Inr u)
      with d False Suc.prems(1)
      have "turn_loop api eos cap n s1 l1 (out @ [nxt]) (dialogue_argmax l1) = (res, s', logits', out')"
        by (auto simp: stops_def)
      from Suc.IH [OF this] False obtain ext where
        "out' = (out @ [nxt]) @ ext" "length ext \<le> n" "length out' \<le> cap" "list_all (\<lambda>t. \<not> stops eos t) ext"
        by auto
      with False show ?thesis by (intro exI [of _ "nxt # ext"]) simp
    qed
  qed
qed

definition turn_out_ok :: "i32 list \<Rightarrow> nat \<Rightarrow> token_vec \<Rightarrow> bool" where
  "turn_out_ok eos n v \<longleftrightarrow> length (items v) \<le> min n (capacity v) \<and> list_all (\<lambda>t. \<not> stops eos t) (items v)"

lemma run_turn_bounds:
  assumes "run_turn api eos cap n input s logits = (res, s', logits', out)"
  shows "length out \<le> min n cap \<and> list_all (\<lambda>t. \<not> stops eos t) out"
  using assms turn_loop_bounds [of api eos cap n _ _ "[]" _ res s' logits' out]
  by (fastforce simp: run_turn_def split: if_splits prod.splits sum.splits)

definition pool_ok :: "dialogue_tokenizer \<Rightarrow> dialogue_caps \<Rightarrow> dialogue_pool \<Rightarrow> bool" where
  "pool_ok tok caps p \<longleftrightarrow> length (items (prompt_tokens p)) \<le> capacity (prompt_tokens p) \<and>
     turn_out_ok (tk_eos_ids tok) (max_query_tokens caps) (grounding_query p) \<and>
     turn_out_ok [] (max_response_tokens caps) (memory_response p) \<and>
     turn_out_ok (tk_eos_ids tok) (max_answer_tokens caps) (final_answer_vec p)"

definition same_capacities :: "dialogue_pool \<Rightarrow> dialogue_pool \<Rightarrow> bool" where
  "same_capacities p q \<longleftrightarrow> capacity (prompt_tokens q) = capacity (prompt_tokens p) \<and>
     capacity (grounding_query q) = capacity (grounding_query p) \<and>
     capacity (memory_response q) = capacity (memory_response p) \<and>
     capacity (final_answer_vec q) = capacity (final_answer_vec p)"

lemma turns_preserve:
  "dialogue_turn1 api tok caps src e p = (r, e', q) \<Longrightarrow> pool_ok tok caps p \<Longrightarrow>
     pool_ok tok caps q \<and> same_capacities p q"
  "dialogue_turn2 api caps e p = (r, e', q) \<Longrightarrow> pool_ok tok caps p \<Longrightarrow>
     pool_ok tok caps q \<and> same_capacities p q"
  "dialogue_turn3 api tok caps e p = (r, e', q) \<Longrightarrow> pool_ok tok caps p \<Longrightarrow>
     pool_ok tok caps q \<and> same_capacities p q"
  by (auto simp: dialogue_turn1_def dialogue_turn2_def dialogue_turn3_def pool_ok_def turn_out_ok_def
      same_capacities_def Let_def split: prod.splits dest!: run_turn_bounds)

lemma same_capacities_trans: "same_capacities p q \<Longrightarrow> same_capacities q r \<Longrightarrow> same_capacities p r"
  by (simp add: same_capacities_def)

lemma new_pool_ok: "pool_ok tok caps (dialogue_pool_new alloc ve vm caps)"
  by (simp add: pool_ok_def turn_out_ok_def dialogue_pool_new_def with_capacity_def)

lemma run_dialogue_keeps_pool:
  assumes run: "run_dialogue sha256 api tok clk caps prompt exec memo p = (res, exec', memo', q)"
    and ok: "pool_ok tok caps p"
  shows "pool_ok tok caps q \<and> same_capacities p q"
proof (cases "tk_encode tok prompt")
  case (Inl e)
  with run ok show ?thesis by (auto simp: run_dialogue_def pool_ok_def same_capacities_def)
next
  case (Inr src)
  obtain r1 e1 p1 where t1: "dialogue_turn1 api tok caps src exec p = (r1, e1, p1)" by (rule prod_cases3)
  obtain r2 m1 p2 where t2: "dialogue_turn2 api caps memo p1 = (r2, m1, p2)" by (rule prod_cases3)
  obtain r3 e2 p3 where t3: "dialogue_turn3 api tok caps e1 p2 = (r3, e2, p3)" by (rule prod_cases3)
  have "q = p1 \<or> q = p2 \<or> q = p3"
    using run Inr t1 t2 t3 by (auto simp: run_dialogue_def split: sum.splits)
  moreover note k1 = turns_preserve(1) [OF t1 ok]
  moreover note k2 = turns_preserve(2) [OF t2 k1 [THEN conjunct1]]
  moreover note k3 = turns_preserve(3) [OF t3 k2 [THEN conjunct1]]
  ultimately show ?thesis by (auto intro: same_capacities_trans)
qed


subsection \<open>Properties\<close>

text \<open>
  C12. The whole dialogue, functionally: on sessions that meet the documented L1 contract and have room
  for the turns, the three turns are the greedy continuations of the two histories, each cut at its
  cap and before the first stop token, each turn reading the previous turn's tokens; the sessions
  have consumed exactly those tokens, and the outcome carries one receipt per turn over the same
  token lists.
\<close>

theorem run_dialogue_correct:
  fixes exec memo :: 's
  assumes api: "l1_contract api hist fwd ctx"
    and enc: "tk_encode tok prompt = Inr src"
    and nq: "nq = min (max_query_tokens caps) (capacity (grounding_query p))"
    and nr: "nr = min (max_response_tokens caps) (capacity (memory_response p))"
    and na: "na = min (max_answer_tokens caps) (capacity (final_answer_vec p))"
    and inp: "input = take (capacity (prompt_tokens p)) src"
    and qry: "query = turn_ref (tk_eos_ids tok) nq (fwd exec) (hist exec) input"
    and rsp: "response = turn_ref [] nr (fwd memo) (hist memo) query"
    and ans: "answer = turn_ref (tk_eos_ids tok) na (fwd exec) (hist exec @ input @ query) response"
    and room: "length (hist exec) + length input + nq + nr + na \<le> ctx"
      "length (hist memo) + nq + nr \<le> ctx"
  shows "\<exists>exec' memo' p'. run_dialogue sha256 api tok clk caps prompt exec memo p =
      (Inr \<lparr>answer_bytes = concat (map (tk_decode_token tok) answer),
            final_answer_token_count = length answer,
            receipts = [mint sha256 1 MODEL_ID_EXECUTIVE input query (t1_us clk),
                        mint sha256 2 MODEL_ID_MEMORY query response (t2_us clk),
                        mint sha256 3 MODEL_ID_EXECUTIVE response answer (t3_us clk)],
            turn_us = [t1_us clk, t2_us clk, t3_us clk], total_wall_us = total_us clk\<rparr>,
       exec', memo', p') \<and>
    hist exec' = hist exec @ input @ query @ response @ answer \<and>
    hist memo' = hist memo @ query @ response"
proof -
  have lq: "length query \<le> nq" and lr: "length response \<le> nr"
    unfolding qry rsp by (rule length_turn_ref)+
  obtain e1 l1 where t1: "run_turn api (tk_eos_ids tok) (capacity (grounding_query p)) (max_query_tokens caps)
      input exec (exec_logits p) = (Inr (), e1, l1, query)"
    "hist e1 = hist exec @ input @ query" "fwd e1 = fwd exec"
    using run_turn_greedy [OF api, of exec input "max_query_tokens caps" "capacity (grounding_query p)"]
      room unfolding qry nq by fastforce
  obtain m1 l2 where t2: "run_turn api [] (capacity (memory_response p)) (max_response_tokens caps)
      query memo (memo_logits p) = (Inr (), m1, l2, response)"
    "hist m1 = hist memo @ query @ response"
    using run_turn_greedy [OF api, of memo query "max_response_tokens caps" "capacity (memory_response p)"]
      room lq unfolding rsp nr by fastforce
  obtain e2 l3 where t3: "run_turn api (tk_eos_ids tok) (capacity (final_answer_vec p)) (max_answer_tokens caps)
      response e1 l1 = (Inr (), e2, l3, answer)"
    "hist e2 = (hist exec @ input @ query) @ response @ answer"
    using run_turn_greedy [OF api, of e1 response "max_answer_tokens caps" "capacity (final_answer_vec p)"]
      room lq lr t1(2,3) unfolding ans na by fastforce
  show ?thesis
    using enc t1 t2 t3 by (simp add: run_dialogue_def dialogue_turn1_def dialogue_turn2_def
        dialogue_turn3_def dialogue_finish_def inp [symmetric])
qed


text \<open>An Executive that says 1 until its history has seven tokens, a Memory that says 2.\<close>

definition demo_exec :: "i32 list \<Rightarrow> f32 list" where
  "demo_exec h = (if length h < 7 then [0, 0x3F800000] else [0x3F800000, 0])"

definition demo_memo :: "i32 list \<Rightarrow> f32 list" where
  "demo_memo h = [0, 0, 0x3F800000]"

definition demo_tokenizer :: dialogue_tokenizer where
  "demo_tokenizer = \<lparr>tk_encode = (\<lambda>_. Inr [5, 6]), tk_decode_token = (\<lambda>t. [ucast t]), tk_eos_ids = [9]\<rparr>"

definition demo_caps :: dialogue_caps where
  "demo_caps = \<lparr>max_prompt_tokens = 4, max_query_tokens = 2, max_response_tokens = 2, max_answer_tokens = 3\<rparr>"

lemma demo_argmax:
  "dialogue_argmax [0, 0x3F800000] = 1" "dialogue_argmax [0x3F800000, 0] = 0"
  "dialogue_argmax [0, 0, 0x3F800000] = 2"
  by (simp_all add: dialogue_argmax_def f32_gt_def f32_key_def f32_nan_def NEG_INFINITY_def bit_numeral_rec)

lemma demo_greedy:
  "greedy dialogue_argmax demo_exec [5, 6] 2 = [1, 1]"
  "greedy dialogue_argmax demo_memo [1, 1] 2 = [2, 2]"
  "greedy dialogue_argmax demo_exec [5, 6, 1, 1, 2, 2] 3 = [1, 0, 0]"
  by (simp_all add: numeral_2_eq_2 numeral_3_eq_3 demo_exec_def demo_memo_def demo_argmax)

lemma run_dialogue_correct_witness:
  "\<exists>out exec' memo' p'. run_dialogue (\<lambda>_. replicate 32 1) ref_api demo_tokenizer
      \<lparr>t1_us = 10, t2_us = 20, t3_us = 30, total_us = 61\<rparr> demo_caps ''hi''
      (demo_exec, []) (demo_memo, []) (dialogue_pool_new id 2 3 demo_caps) = (Inr out, exec', memo', p') \<and>
    answer_bytes out = [1] \<and> length (receipts out) = 3 \<and>
    snd exec' = [5, 6, 1, 1, 2, 2, 1] \<and> snd memo' = [1, 1, 2, 2]"
proof -
  have q: "[1, 1] = turn_ref (tk_eos_ids demo_tokenizer) 2 (fst (demo_exec, [] :: i32 list)) (snd (demo_exec, [])) [5, 6]"
    by (simp add: turn_ref_def demo_greedy stops_def demo_tokenizer_def BYTE_EOS_CHECK_def)
  have r: "[2, 2] = turn_ref [] 2 (fst (demo_memo, [] :: i32 list)) (snd (demo_memo, [])) [1, 1]"
    by (simp add: turn_ref_def demo_greedy stops_def BYTE_EOS_CHECK_def)
  have a: "[1] = turn_ref (tk_eos_ids demo_tokenizer) 3 (fst (demo_exec, [] :: i32 list))
      (snd (demo_exec, []) @ [5, 6] @ [1, 1]) [2, 2]"
    by (simp add: turn_ref_def demo_greedy stops_def demo_tokenizer_def BYTE_EOS_CHECK_def)
  let ?p = "dialogue_pool_new id 2 3 demo_caps"
  have pre: "tk_encode demo_tokenizer ''hi'' = Inr [5, 6]"
    "2 = min (max_query_tokens demo_caps) (capacity (grounding_query ?p))"
    "2 = min (max_response_tokens demo_caps) (capacity (memory_response ?p))"
    "3 = min (max_answer_tokens demo_caps) (capacity (final_answer_vec ?p))"
    "[5, 6] = take (capacity (prompt_tokens ?p)) [5, 6 :: i32]"
    "length (snd (demo_exec, [])) + length [5, 6 :: i32] + 2 + 2 + 3 \<le> 20"
    "length (snd (demo_memo, [])) + 2 + 2 \<le> 20"
    by (simp_all add: demo_tokenizer_def demo_caps_def dialogue_pool_new_def with_capacity_def)
  from run_dialogue_correct [OF ref_api_contract pre(1-5) q r a pre(6,7),
      of "\<lambda>_. replicate 32 1" "\<lparr>t1_us = 10, t2_us = 20, t3_us = 30, total_us = 61\<rparr>"]
  show ?thesis by (fastforce simp: demo_tokenizer_def)
qed

text \<open>
  Allocation and bounds, with no assumption on the L1 library: whatever the sessions answer and
  wherever the dialogue fails, every buffer keeps its capacity (no reallocation), holds at most its
  cap, and no generated token is a stop token of its turn.
\<close>

theorem run_dialogue_keeps_capacity:
  assumes "run_dialogue sha256 api tok clk caps prompt exec memo p = (res, exec', memo', q)"
    and "pool_ok tok caps p"
  shows "pool_ok tok caps q \<and> same_capacities p q"
  using assms by (rule run_dialogue_keeps_pool)

lemma run_dialogue_keeps_capacity_witness:
  "\<exists>res exec' memo' q. run_dialogue (\<lambda>_. replicate 32 1)
      (ref_api\<lparr>l1_decode := \<lambda>(f, h) tok l. (7, (f, h), l)\<rparr>) demo_tokenizer
      \<lparr>t1_us = 10, t2_us = 20, t3_us = 30, total_us = 61\<rparr> demo_caps ''hi''
      (demo_exec, []) (demo_memo, []) (dialogue_pool_new id 2 3 demo_caps) = (res, exec', memo', q) \<and>
    pool_ok demo_tokenizer demo_caps q \<and> same_capacities (dialogue_pool_new id 2 3 demo_caps) q"
proof -
  obtain res exec' memo' q where *: "run_dialogue (\<lambda>_. replicate 32 1)
      (ref_api\<lparr>l1_decode := \<lambda>(f, h) tok l. (7, (f, h), l)\<rparr>) demo_tokenizer
      \<lparr>t1_us = 10, t2_us = 20, t3_us = 30, total_us = 61\<rparr> demo_caps ''hi''
      (demo_exec, []) (demo_memo, []) (dialogue_pool_new id 2 3 demo_caps) = (res, exec', memo', q)"
    by (rule prod_cases4)
  from * run_dialogue_keeps_capacity [OF * new_pool_ok] show ?thesis by blast
qed

end
