(* ===== verification/Memo_Routing.thy ===== *)
theory Memo_Routing
  imports SP_Prelude "HOL-Library.Multiset"
begin

text \<open>
  \<^verbatim>\<open>memo_routing.rs\<close>: the per-layer head mask derived from a grounding query. The KSTE encoder is
  a C function of the math-core: \<open>kste_encode\<close> is an argument giving its 64-byte tree. Everything else
  (FNV-1a, SplitMix64, the Fisher-Yates shuffle, the bitmap) is modelled at 64 bits.
\<close>

record routing_mask =
  active :: "u64 list"
  k_per_layer :: u32
  n_layers :: u32
  n_heads :: u32
  source_tier0_hash :: u64

definition total_active :: "routing_mask \<Rightarrow> nat" where
  "total_active m = sum_list (map count_ones (active m))"

text \<open>\<open>None\<close> is the panic of the two shape assertions; the sum is taken before any \<^verbatim>\<open>u32\<close> overflow.\<close>

definition hamming :: "routing_mask \<Rightarrow> routing_mask \<Rightarrow> nat option" where
  "hamming m other =
     (if n_layers m \<noteq> n_layers other then None
      else if n_heads m \<noteq> n_heads other then None
      else Some (sum_list (map (\<lambda>(a, b). count_ones (a XOR b)) (zip (active m) (active other)))))"

definition kste_tier0_root :: "(i32 list \<Rightarrow> bytes) \<Rightarrow> i32 list \<Rightarrow> bytes" where
  "kste_tier0_root kste_encode query = bslice 8 20 (kste_encode query)"

definition fnv1a64 :: "bytes \<Rightarrow> u64" where
  "fnv1a64 bs = fold (\<lambda>b h. (h XOR ucast b) * 0x100000001b3) bs 0xcbf29ce484222325"

text \<open>Returns the draw and the new state.\<close>

definition splitmix64 :: "u64 \<Rightarrow> u64 \<times> u64" where
  "splitmix64 state =
     (let state' = state + 0x9E3779B97F4A7C15;
          z = (state' XOR drop_bit 30 state') * 0xBF58476D1CE4E5B9;
          z' = (z XOR drop_bit 27 z) * 0x94D049BB133111EB
      in (z' XOR drop_bit 31 z', state'))"

definition swap :: "nat \<Rightarrow> nat \<Rightarrow> 'a list \<Rightarrow> 'a list" where
  "swap i j xs = xs[j := xs ! i, i := xs ! j]"

text \<open>\<^verbatim>\<open>for i in (1..n_heads).rev()\<close>: \<open>shuffle_loop i\<close> runs the iterations \<open>i, ..., 1\<close>.\<close>

fun shuffle_loop :: "nat \<Rightarrow> u64 \<Rightarrow> u32 list \<Rightarrow> u32 list" where
  "shuffle_loop 0 state perm = perm"
| "shuffle_loop (Suc i) state perm =
     (let (r, state') = splitmix64 state;
          j = unat (r mod (of_nat (Suc i) + 1))
      in shuffle_loop i state' (swap (Suc i) j perm))"

definition head_bits :: "u32 list \<Rightarrow> u64" where
  "head_bits hs = fold (\<lambda>h bits. bits OR push_bit (unat h) 1) hs 0"

definition layer_mask :: "u64 \<Rightarrow> u32 \<Rightarrow> u32 \<Rightarrow> u64 \<Rightarrow> u64" where
  "layer_mask tier0_hash heads k l =
     (let state = tier0_hash XOR (l * 0xDEADBEEFCAFEBABE);
          (_, state') = splitmix64 state;
          perm = shuffle_loop (unat heads - 1) state' (map of_nat [0..<unat heads])
      in head_bits (take (unat k) perm))"

datatype routing_error = KTooLarge u32 u32 | TooManyHeads u32 | NoLayers

definition compute_memory_routing ::
  "(i32 list \<Rightarrow> bytes) \<Rightarrow> i32 list \<Rightarrow> u32 \<Rightarrow> u32 \<Rightarrow> u32 \<Rightarrow> routing_error + routing_mask" where
  "compute_memory_routing kste_encode grounding_query layers heads k =
     (if heads < k then Inl (KTooLarge k heads)
      else if 64 < heads then Inl (TooManyHeads heads)
      else if layers = 0 then Inl NoLayers
      else let tier0_hash = fnv1a64 (kste_tier0_root kste_encode grounding_query)
           in Inr \<lparr>active = map (\<lambda>l. layer_mask tier0_hash heads k (of_nat l)) [0..<unat layers],
                   k_per_layer = k, n_layers = layers, n_heads = heads,
                   source_tier0_hash = tier0_hash\<rparr>)"

subsection \<open>The shuffle is a permutation\<close>

lemma mset_swap_eq: "i < length xs \<Longrightarrow> j < length xs \<Longrightarrow> mset (swap i j xs) = mset xs"
  by (simp add: swap_def mset_swap)

lemma length_swap [simp]: "length (swap i j xs) = length xs"
  by (simp add: swap_def)

lemma mset_shuffle_loop:
  "i < length perm \<or> i = 0 \<Longrightarrow> length perm \<le> 64 \<Longrightarrow> mset (shuffle_loop i state perm) = mset perm"
proof (induction i state perm rule: shuffle_loop.induct)
  case (2 i state perm)
  obtain r state' where d: "splitmix64 state = (r, state')" by fastforce
  let ?j = "unat (r mod (of_nat (Suc i) + 1))"
  have "of_nat (Suc i) + 1 = (of_nat (Suc (Suc i)) :: u64)" by simp
  then have "unat (of_nat (Suc i) + 1 :: u64) = Suc (Suc i)"
    using "2.prems" by (simp only: unat_of_nat) simp
  then have "?j < Suc (Suc i)" by (simp add: unat_mod)
  then have j: "?j < length perm" "Suc i < length perm" using "2.prems" by simp_all
  have "mset (shuffle_loop i state' (swap (Suc i) ?j perm)) = mset (swap (Suc i) ?j perm)"
    using "2.prems" by (intro "2.IH" [OF d [symmetric] refl]) auto
  then show ?case using j by (simp add: d mset_swap_eq)
qed simp

lemma bit_head_bits: "bit (head_bits hs) i \<longleftrightarrow> i < 64 \<and> (\<exists>h\<in>set hs. unat h = i)"
proof -
  have "bit (fold (\<lambda>h bits. bits OR push_bit (unat h) 1) hs b :: u64) i \<longleftrightarrow>
      bit b i \<or> i < 64 \<and> (\<exists>h\<in>set hs. unat h = i)" for b
  proof (induction hs arbitrary: b)
    case (Cons h hs)
    have "bit (b OR push_bit (unat h) 1) i \<longleftrightarrow> bit b i \<or> i < 64 \<and> unat h = i"
      by (auto simp: bit_simps)
    with Cons show ?case by auto
  qed simp
  then show ?thesis by (simp add: head_bits_def)
qed

text \<open>\<open>heads_of w\<close>: the set of heads a mask activates.\<close>

definition heads_of :: "u64 \<Rightarrow> nat set" where
  "heads_of w = {i. bit w i}"

lemma count_ones_card: "count_ones (w :: u64) = card (heads_of w)"
  by (simp add: count_ones_bits heads_of_def)

lemma layer_mask_heads:
  assumes "k \<le> heads" and "unat heads \<le> 64"
  shows "card (heads_of (layer_mask hash heads k l)) = unat k"
    and "heads_of (layer_mask hash heads k l) \<subseteq> {..<unat heads}"
proof -
  obtain d state' where st: "splitmix64 (hash XOR (l * 0xDEADBEEFCAFEBABE)) = (d, state')" by fastforce
  define start where "start = (map of_nat [0..<unat heads] :: u32 list)"
  define perm where "perm = shuffle_loop (unat heads - 1) state' start"
  have u: "map unat start = [0..<unat heads]"
    unfolding start_def map_map o_def using assms(2) by (intro map_idI) (simp add: unat_of_nat)
  have "distinct (map unat start)" "set (map unat start) = {..<unat heads}"
    unfolding u by (simp_all add: atLeast0LessThan)
  then have start: "distinct start" "unat ` set start = {..<unat heads}" "length start = unat heads"
    by (simp add: distinct_map, simp, simp add: start_def)
  have m: "mset perm = mset start"
    unfolding perm_def using assms(2) start(3) by (intro mset_shuffle_loop) auto
  then have perm: "distinct perm" "set perm = set start" "length perm = unat heads"
    using start mset_eq_imp_distinct_iff [OF m] mset_eq_setD [OF m] mset_eq_length [OF m]
    by simp_all
  have small: "unat h < unat heads" if "h \<in> set (take (unat k) perm)" for h
  proof -
    have "h \<in> set start" using in_set_takeD [OF that] perm(2) by simp
    then have "unat h \<in> {..<unat heads}" using start(2) by blast
    then show ?thesis by simp
  qed
  have heads: "heads_of (layer_mask hash heads k l) = unat ` set (take (unat k) perm)"
  proof -
    have "layer_mask hash heads k l = head_bits (take (unat k) perm)"
      by (simp only: layer_mask_def st Let_def prod.case perm_def start_def)
    moreover have "unat h < 64" if "h \<in> set (take (unat k) perm)" for h
      using small [OF that] assms(2) by simp
    ultimately show ?thesis by (auto simp: heads_of_def bit_head_bits)
  qed
  have "card (unat ` set (take (unat k) perm)) = card (set (take (unat k) perm))"
    by (rule card_image) (simp add: inj_on_def word_unat_eq_iff)
  then show "card (heads_of (layer_mask hash heads k l)) = unat k"
    using perm assms(1) by (simp add: heads distinct_card word_le_nat_alt)
  show "heads_of (layer_mask hash heads k l) \<subseteq> {..<unat heads}"
    using small by (auto simp: heads)
qed


subsection \<open>Properties\<close>

text \<open>
  Sparsity, exactly: a routing mask is produced precisely when \<open>k \<le> n_heads \<le> 64\<close> and there is a
  layer; it then has one bitmap per layer, every bitmap activates exactly \<open>k\<close> heads, none of them at
  or beyond \<open>n_heads\<close>, and the total is \<open>k * n_layers\<close>, for every query and every KSTE encoder.
\<close>

theorem compute_memory_routing_sparsity:
  "((\<exists>m. compute_memory_routing enc query layers heads k = Inr m) \<longleftrightarrow>
     k \<le> heads \<and> heads \<le> 64 \<and> layers \<noteq> 0) \<and>
   (\<forall>m. compute_memory_routing enc query layers heads k = Inr m \<longrightarrow>
     length (active m) = unat layers \<and> total_active m = unat k * unat layers \<and>
     (\<forall>w\<in>set (active m). card (heads_of w) = unat k \<and> heads_of w \<subseteq> {..<unat heads}))"
proof (intro conjI [OF _ allI] impI)
  show "(\<exists>m. compute_memory_routing enc query layers heads k = Inr m) \<longleftrightarrow>
     k \<le> heads \<and> heads \<le> 64 \<and> layers \<noteq> 0"
    by (auto simp: compute_memory_routing_def Let_def not_less)
next
  fix m
  assume r: "compute_memory_routing enc query layers heads k = Inr m"
  define h where "h = fnv1a64 (kste_tier0_root enc query)"
  from r have kh: "k \<le> heads" "heads \<le> 64"
    and m: "active m = map (\<lambda>l. layer_mask h heads k (of_nat l)) [0..<unat layers]"
    by (auto simp: compute_memory_routing_def Let_def not_less h_def split: if_splits)
  have u: "unat heads \<le> 64" using kh(2) by (simp add: word_le_nat_alt)
  note layer = layer_mask_heads [OF kh(1) u]
  have "map count_ones (active m) = replicate (unat layers) (unat k)"
    by (rule replicate_eqI) (auto simp: m count_ones_card layer)
  then have "total_active m = unat k * unat layers"
    by (simp add: total_active_def sum_list_replicate)
  then show "length (active m) = unat layers \<and> total_active m = unat k * unat layers \<and>
     (\<forall>w\<in>set (active m). card (heads_of w) = unat k \<and> heads_of w \<subseteq> {..<unat heads})"
    using layer by (auto simp: m)
qed


lemma compute_memory_routing_sparsity_witness:
  "\<exists>m. compute_memory_routing (\<lambda>q. replicate 64 (ucast (sum_list q))) [1, 2, 3] 24 14 8 = Inr m \<and>
    total_active m = 192 \<and> length (active m) = 24"
proof -
  let ?enc = "\<lambda>q :: i32 list. replicate 64 (ucast (sum_list q) :: u8)"
  note sp = compute_memory_routing_sparsity [of ?enc "[1, 2, 3]" 24 14 8]
  from sp obtain m where m: "compute_memory_routing ?enc [1, 2, 3] 24 14 8 = Inr m" by auto
  moreover from sp m have "total_active m = 192" "length (active m) = 24" by auto
  ultimately show ?thesis by (intro exI [of _ m]) simp
qed

text \<open>
  The distance between two masks of one shape is a metric value: it is symmetric, zero exactly for
  equal bitmaps, and never more than twice the number of active heads; masks of different shapes panic.
\<close>

theorem hamming_distance:
  assumes "length (active m) = length (active m')"
  shows "hamming m m' = hamming m' m \<and>
    (hamming m m' = None \<longleftrightarrow> n_layers m \<noteq> n_layers m' \<or> n_heads m \<noteq> n_heads m') \<and>
    (hamming m m' = Some 0 \<longrightarrow> active m = active m') \<and>
    (\<forall>d. hamming m m' = Some d \<longrightarrow> d \<le> total_active m + total_active m')"
proof -
  let ?d = "\<lambda>xs ys. sum_list (map (\<lambda>(a, b). count_ones (a XOR b :: u64)) (zip xs ys))"
  have "?d xs ys = ?d ys xs \<and> (?d xs ys = 0 \<longrightarrow> xs = ys) \<and>
      ?d xs ys \<le> sum_list (map count_ones xs) + sum_list (map count_ones ys)"
    if "length xs = length ys" for xs ys
    using that
  proof (induction xs ys rule: list_induct2)
    case (Cons x xs y ys)
    then show ?case using count_ones_xor [of x y] by (auto simp del: sum_list_eq_0_iff)
  qed simp
  from this [OF assms] show ?thesis by (auto simp: hamming_def total_active_def simp del: sum_list_eq_0_iff split: if_splits)
qed

lemma hamming_distance_witness:
  "let m = \<lparr>active = [3, 5], k_per_layer = 2, n_layers = 2, n_heads = 4, source_tier0_hash = 0\<rparr>;
       m' = \<lparr>active = [6, 5], k_per_layer = 2, n_layers = 2, n_heads = 4, source_tier0_hash = 1\<rparr>
   in hamming m m' = hamming m' m \<and> hamming m m' = Some 2"
proof -
  have "hamming \<lparr>active = [3, 5], k_per_layer = 2, n_layers = 2, n_heads = 4, source_tier0_hash = 0\<rparr>
      \<lparr>active = [6, 5], k_per_layer = 2, n_layers = 2, n_heads = 4, source_tier0_hash = 1\<rparr> = Some 2"
    by code_simp
  then show ?thesis
    using hamming_distance [of "\<lparr>active = [3, 5], k_per_layer = 2, n_layers = 2, n_heads = 4, source_tier0_hash = 0\<rparr>"
        "\<lparr>active = [6, 5], k_per_layer = 2, n_layers = 2, n_heads = 4, source_tier0_hash = 1\<rparr>"]
    unfolding Let_def by simp
qed

end
