(* ===== verification/Quic_Shard.thy ===== *)
theory Quic_Shard
  imports SP_Prelude
begin

text \<open>
  \<^verbatim>\<open>network/quic_shard.rs\<close>: the residue blocks on the wire (64-byte header plus little-endian
  \<^verbatim>\<open>u32\<close> residues, one unidirectional stream each) and the Garner assembly loop of the
  coordinator. The loop spawns one task per stream; its atomic sections are the DashMap entry lock
  (\<open>deliver\<close>) and the DashMap removal (\<open>finish\<close>), and tasks between the two are \<open>inflight\<close>, so every
  interleaving of tasks is a sequence of events. QUIC itself (quinn) and the C recombination
  \<^verbatim>\<open>ntt_crt_recombine\<close> are arguments.
\<close>

subsection \<open>Wire format\<close>

record shard_block_header =
  seq_id :: u64
  token_pos :: u32
  layer_id :: u32
  prime_selector :: u8
  hpad :: bytes

record residue_block =
  header :: shard_block_header
  residues :: "u32 list"

definition header_ok :: "shard_block_header \<Rightarrow> bool" where
  "header_ok h \<longleftrightarrow> hpad h = replicate 47 0"

definition header_to_bytes :: "shard_block_header \<Rightarrow> bytes" where
  "header_to_bytes h =
     to_le 8 (seq_id h) @ to_le 4 (token_pos h) @ to_le 4 (layer_id h) @ [prime_selector h] @
     replicate 47 0"

definition header_from_bytes :: "bytes \<Rightarrow> shard_block_header" where
  "header_from_bytes b = \<lparr>
     seq_id = from_le (bslice 0 8 b), token_pos = from_le (bslice 8 12 b),
     layer_id = from_le (bslice 12 16 b), prime_selector = b ! 16, hpad = replicate 47 0\<rparr>"

text \<open>The bytes \<^verbatim>\<open>send_block\<close> writes on its stream.\<close>

definition send_block :: "residue_block \<Rightarrow> bytes" where
  "send_block block = header_to_bytes (header block) @ concat (map (to_le 4) (residues block))"

datatype recv_error = TooLong | TooShort nat | BadPayload

text \<open>\<^verbatim>\<open>read_to_end(limit)\<close> of quinn fails when the stream is longer than the limit.\<close>

definition recv_block :: "bytes \<Rightarrow> recv_error + residue_block" where
  "recv_block bs =
     (if 64 + 512 * 4 < length bs then Inl TooLong
      else if length bs < 64 then Inl (TooShort (length bs))
      else if (length bs - 64) mod 4 \<noteq> 0 then Inl BadPayload
      else Inr \<lparr>header = header_from_bytes (bslice 0 64 bs),
                residues = map from_le (chunks_exact 4 (drop 64 bs))\<rparr>)"

interpretation header_codec: fixed_codec header_to_bytes header_from_bytes 64 header_ok
proof unfold_locales
  fix h
  show "length (header_to_bytes h) = 64" by (simp add: header_to_bytes_def)
  assume "header_ok h"
  then show "header_from_bytes (header_to_bytes h) = h"
    by (cases h) (simp add: header_ok_def header_from_bytes_def header_to_bytes_def bslice_def
        nth_append take_Cons' drop_Cons')
qed simp

subsection \<open>The coordinator\<close>

type_synonym addr = string

record pending_block =
  pb_q1 :: "u32 list option"
  pb_q2 :: "u32 list option"
  pb_token_pos :: u32
  pb_layer_id :: u32

record garner_result =
  r_seq_id :: u64
  r_token_pos :: u32
  r_layer_id :: u32
  coeffs :: "64 word list"

record garner_state =
  peer_map :: "addr \<Rightarrow> u8 option"
  pending :: "u64 \<Rightarrow> pending_block option"
  inflight :: "u64 list"
  results :: "garner_result list"

definition garner_init :: garner_state where
  "garner_init = \<lparr>peer_map = Map.empty, pending = Map.empty, inflight = [], results = []\<rparr>"

text \<open>Connection events: accept registers the peer with unknown shard, close removes it.\<close>

definition peer_accept :: "addr \<Rightarrow> garner_state \<Rightarrow> garner_state" where
  "peer_accept a st = st\<lparr>peer_map := (peer_map st)(a \<mapsto> 255)\<rparr>"

definition peer_closed :: "addr \<Rightarrow> garner_state \<Rightarrow> garner_state" where
  "peer_closed a st = st\<lparr>peer_map := (peer_map st)(a := None)\<rparr>"

definition refine_peer :: "addr \<Rightarrow> u8 \<Rightarrow> (addr \<Rightarrow> u8 option) \<Rightarrow> addr \<Rightarrow> u8 option" where
  "refine_peer a sel pm =
     (case pm a of None \<Rightarrow> pm | Some sid \<Rightarrow> if sid = 255 then pm(a \<mapsto> sel) else pm)"

text \<open>The section under the entry lock; the flag is \<^verbatim>\<open>both_arrived\<close>.\<close>

definition insert_residue :: "residue_block \<Rightarrow> (u64 \<Rightarrow> pending_block option) \<Rightarrow>
    bool \<times> (u64 \<Rightarrow> pending_block option)" where
  "insert_residue block pend =
     (let h = header block;
          entry = (case pend (seq_id h) of
                     Some e \<Rightarrow> e
                   | None \<Rightarrow> \<lparr>pb_q1 = None, pb_q2 = None, pb_token_pos = token_pos h, pb_layer_id = layer_id h\<rparr>);
          entry' = (if prime_selector h = 0 then entry\<lparr>pb_q1 := Some (residues block)\<rparr>
                    else entry\<lparr>pb_q2 := Some (residues block)\<rparr>)
      in (pb_q1 entry' \<noteq> None \<and> pb_q2 entry' \<noteq> None, pend(seq_id h \<mapsto> entry')))"

definition deliver :: "addr \<Rightarrow> bytes \<Rightarrow> garner_state \<Rightarrow> garner_state" where
  "deliver a stream st =
     (case recv_block stream of
        Inl _ \<Rightarrow> st
      | Inr block \<Rightarrow>
          (case insert_residue block (pending st) of (both_arrived, pend') \<Rightarrow>
             st\<lparr>peer_map := refine_peer a (prime_selector (header block)) (peer_map st),
                pending := pend',
                inflight := (if both_arrived then inflight st @ [seq_id (header block)] else inflight st)\<rparr>))"

text \<open>The end of a task that saw both primes. \<open>recombine\<close> is \<open>None\<close> when \<^verbatim>\<open>ntt_init\<close> returns null.\<close>

definition finish ::
  "nat \<Rightarrow> (u32 list \<Rightarrow> u32 list \<Rightarrow> 64 word list option) \<Rightarrow> u64 \<Rightarrow> garner_state \<Rightarrow> garner_state" where
  "finish ntt_n recombine seq st =
     (let st' = st\<lparr>inflight := remove1 seq (inflight st)\<rparr> in
      case pending st seq of
        None \<Rightarrow> st'
      | Some pb \<Rightarrow>
          (let st'' = st'\<lparr>pending := (pending st)(seq := None)\<rparr> in
           case (pb_q1 pb, pb_q2 pb) of
             (Some q1, Some q2) \<Rightarrow>
               if length q1 \<noteq> ntt_n \<or> length q2 \<noteq> ntt_n then st''
               else (case recombine q1 q2 of
                       None \<Rightarrow> st''
                     | Some cs \<Rightarrow> st''\<lparr>results := results st @
                         [\<lparr>r_seq_id = seq, r_token_pos = pb_token_pos pb, r_layer_id = pb_layer_id pb,
                           coeffs = cs\<rparr>]\<rparr>)
           | _ \<Rightarrow> st''))"

datatype garner_event = Accept addr | Closed addr | Stream addr bytes | Finish u64

inductive garner_step ::
  "nat \<Rightarrow> (u32 list \<Rightarrow> u32 list \<Rightarrow> 64 word list option) \<Rightarrow> garner_event \<Rightarrow> garner_state \<Rightarrow> garner_state \<Rightarrow> bool"
  for n rc where
  step_accept: "garner_step n rc (Accept a) st (peer_accept a st)"
| step_closed: "garner_step n rc (Closed a) st (peer_closed a st)"
| step_stream: "garner_step n rc (Stream a bs) st (deliver a bs st)"
| step_finish: "seq \<in> set (inflight st) \<Longrightarrow> garner_step n rc (Finish seq) st (finish n rc seq st)"

inductive garner_run ::
  "nat \<Rightarrow> (u32 list \<Rightarrow> u32 list \<Rightarrow> 64 word list option) \<Rightarrow> garner_event list \<Rightarrow> garner_state \<Rightarrow> bool"
  for n rc where
  run_init: "garner_run n rc [] garner_init"
| run_step: "garner_run n rc tr st \<Longrightarrow> garner_step n rc ev st st' \<Longrightarrow> garner_run n rc (tr @ [ev]) st'"

inductive_cases garner_stepE: "garner_step n rc ev st st'"


subsection \<open>Sending and receiving\<close>

lemma recv_send:
  assumes "header_ok (header b)"
  shows "recv_block (send_block b) = (if length (residues b) \<le> 512 then Inr b else Inl TooLong)"
proof -
  have l: "length (header_to_bytes (header b)) = 64" by (rule header_codec.enc_length [OF assms])
  have p: "concat (map (to_le 4) (residues b)) = u32_codec.stream (residues b)"
    by (simp add: u32_codec.stream_def)
  have lp: "length (u32_codec.stream (residues b)) = 4 * length (residues b)"
    by (simp add: u32_codec.length_stream list_all_iff)
  have r: "map from_le (chunks_exact 4 (u32_codec.stream (residues b))) = residues b"
    by (simp add: u32_codec.dec_stream list_all_iff)
  show ?thesis
    using l lp r header_codec.dec_enc [OF assms]
    by (simp add: recv_block_def send_block_def p)
qed

subsection \<open>What a trace delivered\<close>

text \<open>\<open>q_blocks f s tr\<close>: the residues decoded for sequence \<open>s\<close>, prime 1 (\<open>f\<close>) or prime 2, in order.\<close>

definition event_block :: "bool \<Rightarrow> u64 \<Rightarrow> garner_event \<Rightarrow> u32 list list" where
  "event_block f s ev =
     (case ev of
        Stream a bs \<Rightarrow>
          (case recv_block bs of
             Inl _ \<Rightarrow> []
           | Inr b \<Rightarrow> if seq_id (header b) = s \<and> (prime_selector (header b) = 0) = f then [residues b] else [])
      | _ \<Rightarrow> [])"

definition q_blocks :: "bool \<Rightarrow> u64 \<Rightarrow> garner_event list \<Rightarrow> u32 list list" where
  "q_blocks f s tr = concat (map (event_block f s) tr)"

lemma q_blocks_simps [simp]:
  "q_blocks f s [] = []"
  "q_blocks f s (tr @ [ev]) = q_blocks f s tr @ event_block f s ev"
  by (simp_all add: q_blocks_def)

definition pend_half :: "bool \<Rightarrow> u64 \<Rightarrow> garner_state \<Rightarrow> u32 list option" where
  "pend_half f s st = (case pending st s of None \<Rightarrow> None | Some pb \<Rightarrow> if f then pb_q1 pb else pb_q2 pb)"

definition results_of :: "u64 \<Rightarrow> garner_state \<Rightarrow> 64 word list list" where
  "results_of s st = map coeffs (filter (\<lambda>r. r_seq_id r = s) (results st))"

definition outcome ::
  "nat \<Rightarrow> (u32 list \<Rightarrow> u32 list \<Rightarrow> 64 word list option) \<Rightarrow> u32 list option \<Rightarrow> u32 list option \<Rightarrow> 64 word list list" where
  "outcome n rc p1 p2 =
     (case (p1, p2) of
        (Some x, Some y) \<Rightarrow> if length x = n \<and> length y = n
                           then (case rc x y of None \<Rightarrow> [] | Some cs \<Rightarrow> [cs]) else []
      | _ \<Rightarrow> [])"

lemma event_block_other [simp]:
  "event_block f s (Accept a) = []" "event_block f s (Closed a) = []" "event_block f s (Finish q) = []"
  by (simp_all add: event_block_def)

text \<open>The state as a client sees it, one sequence number at a time.\<close>

lemma other_events [simp]:
  "pend_half f s (peer_accept a st) = pend_half f s st" "results_of s (peer_accept a st) = results_of s st"
  "inflight (peer_accept a st) = inflight st" "pending (peer_accept a st) = pending st"
  "pend_half f s (peer_closed a st) = pend_half f s st" "results_of s (peer_closed a st) = results_of s st"
  "inflight (peer_closed a st) = inflight st" "pending (peer_closed a st) = pending st"
  by (simp_all add: pend_half_def results_of_def peer_accept_def peer_closed_def)

lemma deliver_bad: "recv_block bs = Inl e \<Longrightarrow> deliver a bs st = st"
  by (simp add: deliver_def)

lemma deliver_block:
  assumes "recv_block bs = Inr b"
  shows "results_of s (deliver a bs st) = results_of s st"
    and "pend_half f s (deliver a bs st) =
      (if event_block f s (Stream a bs) = [] then pend_half f s st else Some (residues b))"
    and "inflight (deliver a bs st) = inflight st @
      (if pend_half True (seq_id (header b)) (deliver a bs st) \<noteq> None \<and>
          pend_half False (seq_id (header b)) (deliver a bs st) \<noteq> None then [seq_id (header b)] else [])"
  using assms
  by (auto simp: deliver_def insert_residue_def results_of_def pend_half_def event_block_def Let_def
      split: option.splits)

lemma finish_effect:
  "results_of s (finish n rc q st) =
    results_of s st @ (if s = q then outcome n rc (pend_half True q st) (pend_half False q st) else [])"
  "pend_half f s (finish n rc q st) = (if s = q then None else pend_half f s st)"
  "inflight (finish n rc q st) = remove1 q (inflight st)"
  "pending (finish n rc q st) = (pending st)(q := None)"
  by (auto simp: finish_def results_of_def pend_half_def outcome_def Let_def fun_eq_iff split: option.splits)


text \<open>Three kinds of step: nothing visible, one block, one finishing task.\<close>

lemma garner_step_cases [consumes 1, case_names quiet block finish]:
  assumes "garner_step n rc ev st st'"
  obtains "\<And>f s. event_block f s ev = []" "\<And>f s. pend_half f s st' = pend_half f s st"
      "\<And>s. results_of s st' = results_of s st" "inflight st' = inflight st" "pending st' = pending st"
  | a bs b where "ev = Stream a bs" "recv_block bs = Inr b" "st' = deliver a bs st"
  | q where "ev = Finish q" "q \<in> set (inflight st)" "st' = finish n rc q st"
  using assms
proof (cases rule: garner_step.cases)
  case (step_stream a bs)
  show thesis
  proof (cases "recv_block bs")
    case (Inl e)
    with step_stream show thesis by (intro that(1)) (simp_all add: event_block_def deliver_bad)
  next
    case (Inr b)
    with step_stream show thesis by (intro that(2)) auto
  qed
qed (auto intro: that)

lemma event_block_stream:
  "recv_block bs = Inr b \<Longrightarrow> event_block f s (Stream a bs) =
    (if s = seq_id (header b) \<and> f = (prime_selector (header b) = 0) then [residues b] else [])"
  by (auto simp: event_block_def)

lemma outcome_simps:
  "outcome n rc (Some x) (Some y) = (if length x = n \<and> length y = n
    then (case rc x y of None \<Rightarrow> [] | Some cs \<Rightarrow> [cs]) else [])"
  "outcome n rc None p2 = []" "outcome n rc p1 None = []"
  by (simp_all only: outcome_def prod.case option.case) (cases p1; simp)

lemma mem_outcome:
  assumes "cs \<in> set (outcome n rc p1 p2)"
  obtains x y where "p1 = Some x" "p2 = Some y" "length x = n" "length y = n" "rc x y = Some cs"
proof (cases p1)
  case (Some x)
  note p1 = this
  show thesis
  proof (cases p2)
    case (Some y)
    then have len: "length x = n \<and> length y = n"
      using assms p1 by (cases "length x = n \<and> length y = n") (simp_all only: outcome_simps if_False, simp)
    then have "cs \<in> set (case rc x y of None \<Rightarrow> [] | Some cs \<Rightarrow> [cs])"
      using assms p1 Some by (simp only: outcome_simps if_True simp_thms)
    then show thesis using len p1 Some that by (cases "rc x y") auto
  qed (use assms p1 in \<open>simp add: outcome_simps(3)\<close>)
qed (use assms in \<open>simp add: outcome_simps(2)\<close>)

lemma outcome_cases:
  obtains "outcome n rc p1 p2 = []"
  | x y cs where "outcome n rc p1 p2 = [cs]" "p1 = Some x" "p2 = Some y" "length x = n" "length y = n" "rc x y = Some cs"
proof (cases "outcome n rc p1 p2")
  case (Cons cs css)
  then have cs: "cs \<in> set (outcome n rc p1 p2)" by simp
  then have "outcome n rc p1 p2 = [cs]" by (elim mem_outcome) (simp add: outcome_simps)
  then show thesis using cs that(2) by (elim mem_outcome) blast
qed (rule that(1))

text \<open>
  Which blocks the results took: a result is paired with the places of its two residue vectors in the blocks of the two
  primes. \<open>half_ok\<close> says of one prime that the places taken are distinct and that a residue still pending comes from a
  place not taken.
\<close>

definition half_ok :: "u32 list list \<Rightarrow> nat list \<Rightarrow> u32 list option \<Rightarrow> bool" where
  "half_ok xs used p \<longleftrightarrow> distinct used \<and> (\<forall>i \<in> set used. i < length xs) \<and>
     (\<forall>x. p = Some x \<longrightarrow> (\<exists>i < length xs. xs ! i = x \<and> i \<notin> set used))"

definition takes_pair ::
  "nat \<Rightarrow> (u32 list \<Rightarrow> u32 list \<Rightarrow> 64 word list option) \<Rightarrow> u32 list list \<Rightarrow> u32 list list \<Rightarrow> nat \<times> nat \<Rightarrow> 64 word list \<Rightarrow> bool" where
  "takes_pair n rc xs ys ij cs \<longleftrightarrow> fst ij < length xs \<and> snd ij < length ys \<and> length (xs ! fst ij) = n \<and> length (ys ! snd ij) = n \<and>
     rc (xs ! fst ij) (ys ! snd ij) = Some cs"

lemma half_ok_later: "half_ok xs used p \<Longrightarrow> half_ok (xs @ zs) used p"
  by (fastforce simp: half_ok_def nth_append)

lemma half_ok_new: "half_ok xs used p \<Longrightarrow> half_ok (xs @ [x]) used (Some x)"
  by (auto simp: half_ok_def nth_append intro!: exI [of _ "length xs"])

lemma half_ok_drop: "half_ok xs used p \<Longrightarrow> half_ok xs used None"
  by (simp add: half_ok_def)

lemma half_ok_take:
  assumes "half_ok xs used (Some x)"
  obtains i where "i < length xs" "xs ! i = x" "half_ok xs (used @ [i]) None"
  using assms by (auto simp: half_ok_def)

lemma takes_pair_later: "takes_pair n rc xs ys ij cs \<Longrightarrow> takes_pair n rc (xs @ us) (ys @ vs) ij cs"
  by (simp add: takes_pair_def nth_append)

lemma half_ok_deliver:
  assumes "half_ok (q_blocks f s tr) used (pend_half f s st)" and "recv_block bs = Inr b"
  shows "half_ok (q_blocks f s (tr @ [Stream a bs])) used (pend_half f s (deliver a bs st))"
proof (cases "event_block f s (Stream a bs) = []")
  case True
  then show ?thesis using assms by (simp add: deliver_block(2))
next
  case False
  then have "event_block f s (Stream a bs) = [residues b]"
    using assms(2) by (simp add: event_block_stream split: if_splits)
  then show ?thesis using assms half_ok_new [OF assms(1)] by (simp add: deliver_block(2))
qed

lemma residues_matched:
  assumes "garner_run n rc tr st"
  shows "\<exists>ps. half_ok (q_blocks True s tr) (map fst ps) (pend_half True s st) \<and>
    half_ok (q_blocks False s tr) (map snd ps) (pend_half False s st) \<and>
    list_all2 (takes_pair n rc (q_blocks True s tr) (q_blocks False s tr)) ps (results_of s st)"
  using assms
proof (induction rule: garner_run.induct)
  case run_init
  then show ?case by (intro exI [of _ "[]"]) (simp add: garner_init_def results_of_def pend_half_def half_ok_def)
next
  case (run_step tr st ev st')
  then obtain ps where ps: "half_ok (q_blocks True s tr) (map fst ps) (pend_half True s st)"
    "half_ok (q_blocks False s tr) (map snd ps) (pend_half False s st)"
    "list_all2 (takes_pair n rc (q_blocks True s tr) (q_blocks False s tr)) ps (results_of s st)" by blast
  from run_step.hyps(2) show ?case
  proof (cases rule: garner_step_cases)
    case quiet
    then show ?thesis using ps by auto
  next
    case (block a bs b)
    have "list_all2 (takes_pair n rc (q_blocks True s (tr @ [ev])) (q_blocks False s (tr @ [ev]))) ps (results_of s st')"
      unfolding block(1,3) deliver_block(1) [OF block(2)] q_blocks_simps by (rule list_all2_mono [OF ps(3)]) (rule takes_pair_later)
    then show ?thesis using half_ok_deliver [OF ps(1) block(2)] half_ok_deliver [OF ps(2) block(2)] block(1,3) by blast
  next
    case (finish q)
    show ?thesis
    proof (cases "q = s")
      case False
      then show ?thesis using ps finish by (auto simp: finish_effect)
    next
      case True
      have none: "pend_half f s st' = None" for f using finish True by (simp add: finish_effect)
      show ?thesis
      proof (rule outcome_cases [of n rc "pend_half True s st" "pend_half False s st"])
        assume "outcome n rc (pend_half True s st) (pend_half False s st) = []"
        then have "results_of s st' = results_of s st" using finish True by (simp add: finish_effect)
        then show ?thesis using ps(3) half_ok_drop [OF ps(1)] half_ok_drop [OF ps(2)] finish none by (intro exI [of _ ps]) simp
      next
        fix x y cs
        assume o: "outcome n rc (pend_half True s st) (pend_half False s st) = [cs]" "pend_half True s st = Some x"
          "pend_half False s st = Some y" "length x = n" "length y = n" "rc x y = Some cs"
        obtain i where i: "i < length (q_blocks True s tr)" "q_blocks True s tr ! i = x" "half_ok (q_blocks True s tr) (map fst ps @ [i]) None"
          using ps(1) unfolding o(2) by (rule half_ok_take)
        obtain j where j: "j < length (q_blocks False s tr)" "q_blocks False s tr ! j = y" "half_ok (q_blocks False s tr) (map snd ps @ [j]) None"
          using ps(2) unfolding o(3) by (rule half_ok_take)
        have "results_of s st' = results_of s st @ [cs]" using finish True o(1) by (simp add: finish_effect)
        moreover have "takes_pair n rc (q_blocks True s tr) (q_blocks False s tr) (i, j) cs" using i j o by (simp add: takes_pair_def)
        ultimately show ?thesis using ps(3) i(3) j(3) finish none
          by (intro exI [of _ "ps @ [(i, j)]"]) (simp add: list_all2_appendI)
      qed
    qed
  qed
qed

text \<open>
  The life of a sequence number that gets at most one block per prime: no pair yet, paired with one
  task in flight, or done.
\<close>

definition first_of :: "'a list \<Rightarrow> 'a option" where
  "first_of xs = (case xs of [] \<Rightarrow> None | x # _ \<Rightarrow> Some x)"

definition phase ::
  "nat \<Rightarrow> (u32 list \<Rightarrow> u32 list \<Rightarrow> 64 word list option) \<Rightarrow> u32 list list \<Rightarrow> u32 list list \<Rightarrow> nat \<Rightarrow>
     u32 list option \<Rightarrow> u32 list option \<Rightarrow> 64 word list list \<Rightarrow> bool" where
  "phase n rc A B tasks p1 p2 R \<longleftrightarrow>
     (R = [] \<and> p1 = first_of A \<and> p2 = first_of B \<and> tasks = (if A \<noteq> [] \<and> B \<noteq> [] then 1 else 0)) \<or>
     (A \<noteq> [] \<and> B \<noteq> [] \<and> R = outcome n rc (first_of A) (first_of B) \<and> p1 = None \<and> p2 = None \<and> tasks = 0)"

lemma phase_step:
  assumes "garner_run n rc tr st"
    and "length (q_blocks True s tr) \<le> 1" and "length (q_blocks False s tr) \<le> 1"
  shows "phase n rc (q_blocks True s tr) (q_blocks False s tr) (count_list (inflight st) s)
    (pend_half True s st) (pend_half False s st) (results_of s st)"
  using assms
proof (induction rule: garner_run.induct)
  case run_init
  then show ?case by (simp add: phase_def garner_init_def results_of_def pend_half_def first_of_def)
next
  case (run_step tr st ev st')
  have IH: "phase n rc (q_blocks True s tr) (q_blocks False s tr) (count_list (inflight st) s)
    (pend_half True s st) (pend_half False s st) (results_of s st)"
    using run_step.prems by (intro run_step.IH) simp_all
  from run_step.hyps(2) show ?case
  proof (cases rule: garner_step_cases)
    case quiet
    then show ?thesis using IH by simp
  next
    case (block a bs b)
    show ?thesis
    proof (cases "s = seq_id (header b)")
      case False
      then show ?thesis using IH block
        by (simp add: deliver_block event_block_stream)
    next
      case True
      then show ?thesis using IH run_step.prems block
        by (cases "prime_selector (header b) = 0"; cases "q_blocks True s tr"; cases "q_blocks False s tr")
          (auto simp: deliver_block event_block_stream phase_def first_of_def)
    qed
  next
    case (finish q)
    show ?thesis
    proof (cases "s = q")
      case False
      then show ?thesis using IH finish by (simp add: finish_effect)
    next
      case True
      then have "count_list (inflight st) s \<noteq> 0" using finish by (simp add: count_list_0_iff)
      then show ?thesis using IH finish True
        by (auto simp: finish_effect phase_def split: if_splits)
    qed
  qed
qed


subsection \<open>Properties\<close>

text \<open>
  A residue block survives the wire exactly when it fits: what \<^verbatim>\<open>send_block\<close> writes,
  \<^verbatim>\<open>recv_block\<close> decodes to the same block if it has at most 512 residues and rejects as too long
  otherwise.
\<close>

theorem residue_block_roundtrip:
  assumes "header_ok (header b)"
  shows "recv_block (send_block b) = (if length (residues b) \<le> 512 then Inr b else Inl TooLong)"
  using assms by (rule recv_send)

definition demo_block :: "u64 \<Rightarrow> u8 \<Rightarrow> u32 list \<Rightarrow> residue_block" where
  "demo_block s sel rs = \<lparr>header = \<lparr>seq_id = s, token_pos = 3, layer_id = 4, prime_selector = sel,
     hpad = replicate 47 0\<rparr>, residues = rs\<rparr>"

lemma residue_block_roundtrip_witness:
  "recv_block (send_block (demo_block 7 1 [10, 20])) = Inr (demo_block 7 1 [10, 20])"
proof -
  have "header_ok (header (demo_block 7 1 [10, 20]))" by (simp add: header_ok_def demo_block_def)
  from residue_block_roundtrip [OF this] show ?thesis by (simp add: demo_block_def)
qed

text \<open>
  C17. Safety of the assembly under every interleaving of connections, streams and tasks: the results of a sequence number
  can be paired with places in the two lists of blocks delivered for it, one list per prime, such that each result
  recombines the two residue vectors at its places, both of the configured length, and no place of either prime is used
  by two results. So no delivered residue is combined twice and no result mixes in a residue that was used before.
\<close>

theorem garner_results_sound:
  assumes "garner_run n rc tr st"
  shows "\<exists>us vs. distinct us \<and> distinct vs \<and> length us = length (results_of s st) \<and> length vs = length (results_of s st) \<and>
    (\<forall>k < length (results_of s st). us ! k < length (q_blocks True s tr) \<and> vs ! k < length (q_blocks False s tr) \<and>
       length (q_blocks True s tr ! (us ! k)) = n \<and> length (q_blocks False s tr ! (vs ! k)) = n \<and>
       rc (q_blocks True s tr ! (us ! k)) (q_blocks False s tr ! (vs ! k)) = Some (results_of s st ! k))"
proof -
  obtain ps where ps: "half_ok (q_blocks True s tr) (map fst ps) (pend_half True s st)"
    "half_ok (q_blocks False s tr) (map snd ps) (pend_half False s st)"
    "list_all2 (takes_pair n rc (q_blocks True s tr) (q_blocks False s tr)) ps (results_of s st)"
    using residues_matched [OF assms] by blast
  then have "distinct (map fst ps)" "distinct (map snd ps)" "length ps = length (results_of s st)"
    by (auto simp: half_ok_def dest: list_all2_lengthD)
  moreover have "\<forall>k < length (results_of s st). takes_pair n rc (q_blocks True s tr) (q_blocks False s tr) (ps ! k) (results_of s st ! k)"
    using ps(3) by (simp add: list_all2_conv_all_nth)
  ultimately show ?thesis
    by (intro exI [of _ "map fst ps"] exI [of _ "map snd ps"]) (simp add: takes_pair_def)
qed

definition demo_rc :: "u32 list \<Rightarrow> u32 list \<Rightarrow> 64 word list option" where
  "demo_rc x y = Some (map2 (\<lambda>a b. ucast a + 1000 * ucast b) x y)"

abbreviation demo_stream :: "u8 \<Rightarrow> u32 list \<Rightarrow> garner_event" where
  "demo_stream sel rs \<equiv> Stream ''peer'' (send_block (demo_block 7 sel rs))"

lemma recv_demo [simp]:
  "length rs \<le> 512 \<Longrightarrow> recv_block (send_block (demo_block s sel rs)) = Inr (demo_block s sel rs)"
  by (subst recv_send) (simp_all add: header_ok_def demo_block_def)

lemma event_block_demo:
  "length rs \<le> 512 \<Longrightarrow> event_block f s (demo_stream sel rs) = (if s = 7 \<and> f = (sel = 0) then [rs] else [])"
  by (simp add: event_block_stream) (simp add: demo_block_def)

definition demo_trace :: "garner_event list" where
  "demo_trace = [Accept ''peer'', demo_stream 0 [5], demo_stream 1 [6], Finish 7]"

text \<open>Executing a trace; a task that is not in flight cannot finish.\<close>

fun garner_exec ::
  "nat \<Rightarrow> (u32 list \<Rightarrow> u32 list \<Rightarrow> 64 word list option) \<Rightarrow> garner_event list \<Rightarrow> garner_state \<Rightarrow> garner_state option" where
  "garner_exec n rc [] st = Some st"
| "garner_exec n rc (Accept a # tr) st = garner_exec n rc tr (peer_accept a st)"
| "garner_exec n rc (Closed a # tr) st = garner_exec n rc tr (peer_closed a st)"
| "garner_exec n rc (Stream a bs # tr) st = garner_exec n rc tr (deliver a bs st)"
| "garner_exec n rc (Finish q # tr) st =
     (if q \<in> set (inflight st) then garner_exec n rc tr (finish n rc q st) else None)"

lemma garner_exec_step:
  assumes "garner_exec n rc (ev # tr) st = Some st'"
  obtains st1 where "garner_step n rc ev st st1" "garner_exec n rc tr st1 = Some st'"
  using assms by (cases ev) (auto intro: garner_step.intros that split: if_splits)

lemma garner_exec_run:
  "garner_run n rc pre st \<Longrightarrow> garner_exec n rc tr st = Some st' \<Longrightarrow> garner_run n rc (pre @ tr) st'"
proof (induction tr arbitrary: pre st)
  case (Cons ev tr)
  from Cons.prems(2) obtain st1 where s: "garner_step n rc ev st st1" "garner_exec n rc tr st1 = Some st'"
    by (rule garner_exec_step)
  have "garner_run n rc ((pre @ [ev]) @ tr) st'"
    using Cons.prems(1) s by (intro Cons.IH run_step)
  then show ?case by simp
qed simp

lemmas garner_eval = deliver_def insert_residue_def finish_def garner_init_def peer_accept_def peer_closed_def
  refine_peer_def Let_def demo_block_def demo_rc_def

lemma demo_run: "\<exists>st. garner_run 1 demo_rc demo_trace st \<and> results_of 7 st = [[6005]] \<and> inflight st = []"
proof -
  have "\<exists>st. garner_exec 1 demo_rc demo_trace garner_init = Some st \<and> results_of 7 st = [[6005]] \<and> inflight st = []"
    by (simp add: demo_trace_def deliver_def) (simp add: garner_eval results_of_def)
  then show ?thesis using garner_exec_run [OF run_init, of 1 demo_rc demo_trace] by auto
qed

text \<open>Two blocks of either prime: the second pair is combined on its own.\<close>

definition demo_trace2 :: "garner_event list" where
  "demo_trace2 = demo_trace @ [demo_stream 0 [3], demo_stream 1 [4], Finish 7]"

lemma demo_run2: "\<exists>st. garner_run 1 demo_rc demo_trace2 st \<and> results_of 7 st = [[6005], [4003]]"
proof -
  have "\<exists>st. garner_exec 1 demo_rc demo_trace2 garner_init = Some st \<and> results_of 7 st = [[6005], [4003]]"
    by (simp add: demo_trace2_def demo_trace_def deliver_def) (simp add: garner_eval results_of_def)
  then show ?thesis using garner_exec_run [OF run_init, of 1 demo_rc demo_trace2] by auto
qed

lemma garner_results_sound_witness:
  "\<exists>st. garner_run 1 demo_rc demo_trace2 st \<and> results_of 7 st = [[6005], [4003]] \<and>
    (\<exists>us vs. distinct us \<and> distinct vs \<and> length us = 2 \<and> length vs = 2 \<and>
      demo_rc (q_blocks True 7 demo_trace2 ! (us ! 1)) (q_blocks False 7 demo_trace2 ! (vs ! 1)) = Some [4003])"
proof -
  obtain st where st: "garner_run 1 demo_rc demo_trace2 st" "results_of 7 st = [[6005], [4003]]" using demo_run2 by blast
  obtain us vs where m: "distinct us" "distinct vs" "length us = length [[6005], [4003 :: 64 word]]" "length vs = length [[6005], [4003 :: 64 word]]"
    "\<forall>k < length [[6005], [4003 :: 64 word]]. us ! k < length (q_blocks True 7 demo_trace2) \<and> vs ! k < length (q_blocks False 7 demo_trace2) \<and>
       length (q_blocks True 7 demo_trace2 ! (us ! k)) = 1 \<and> length (q_blocks False 7 demo_trace2 ! (vs ! k)) = 1 \<and>
       demo_rc (q_blocks True 7 demo_trace2 ! (us ! k)) (q_blocks False 7 demo_trace2 ! (vs ! k)) = Some ([[6005], [4003]] ! k)"
    using garner_results_sound [OF st(1), of 7] unfolding st(2) by blast
  show ?thesis using st m(1-4) m(5) [rule_format, of 1] by (intro exI [of _ st] conjI exI [of _ us] exI [of _ vs]) simp_all
qed

text \<open>
  C14. Exactly once: when a sequence number receives one block per prime, of the configured length, in
  either order and from any peers, then as soon as no task for it is in flight there is exactly one
  result, the recombination of the two, and nothing of it stays pending.
\<close>

theorem garner_exactly_once:
  assumes run: "garner_run n rc tr st"
    and blocks: "q_blocks True s tr = [x]" "q_blocks False s tr = [y]"
    and len: "length x = n" "length y = n" and rc: "rc x y = Some cs"
    and idle: "s \<notin> set (inflight st)"
  shows "results_of s st = [cs] \<and> pend_half True s st = None \<and> pend_half False s st = None"
  using phase_step [OF run, of s] idle
  by (simp add: blocks phase_def first_of_def outcome_simps len rc count_list_0_iff)

lemma garner_exactly_once_witness:
  "\<exists>st. garner_run 1 demo_rc demo_trace st \<and> results_of 7 st = [[6005]] \<and>
    pend_half True 7 st = None \<and> pend_half False 7 st = None"
proof -
  obtain st where st: "garner_run 1 demo_rc demo_trace st" "inflight st = []" using demo_run by blast
  have b: "q_blocks True 7 demo_trace = [[5]]" "q_blocks False 7 demo_trace = [[6]]"
    by (simp_all add: demo_trace_def q_blocks_def event_block_demo)
  from garner_exactly_once [OF st(1) b, of "[6005]"] st show ?thesis
    by (auto simp: demo_rc_def)
qed

text \<open>
  Reusing a sequence number can lose a block for good: a repeated second-prime block starts a second
  task, and if that task ends after the next first-prime block has arrived, it removes the half entry
  and drops it. With two blocks of the first prime and three of the second, only one result is made
  although no task is left and the first prime has nothing pending.
\<close>

definition lossy_trace :: "garner_event list" where
  "lossy_trace = [demo_stream 0 [5], demo_stream 1 [6], demo_stream 1 [6], Finish 7,
     demo_stream 0 [8], Finish 7, demo_stream 1 [9]]"

theorem garner_reuse_loses_block:
  "\<exists>st. garner_run 1 demo_rc lossy_trace st \<and> q_blocks True 7 lossy_trace = [[5], [8]] \<and>
    q_blocks False 7 lossy_trace = [[6], [6], [9]] \<and> inflight st = [] \<and>
    results_of 7 st = [[6005]] \<and> pend_half True 7 st = None"
proof -
  have "\<exists>st. garner_exec 1 demo_rc lossy_trace garner_init = Some st \<and> inflight st = [] \<and>
      results_of 7 st = [[6005]] \<and> pend_half True 7 st = None"
    by (simp add: lossy_trace_def deliver_def) (simp add: garner_eval results_of_def pend_half_def)
  moreover have "q_blocks True 7 lossy_trace = [[5], [8]]" "q_blocks False 7 lossy_trace = [[6], [6], [9]]"
    by (simp_all add: lossy_trace_def q_blocks_def event_block_demo)
  ultimately show ?thesis using garner_exec_run [OF run_init, of 1 demo_rc lossy_trace] by auto
qed

end
