(* ===== verification/Ring2_Quic.thy ===== *)
theory Ring2_Quic
  imports SP_Prelude
begin

text \<open>
  \<^verbatim>\<open>network/ring2_quic.rs\<close>: a peer as Ring-2 block store. The 64-byte request header, the server's
  handling of one bidirectional stream, the client requests, and the trampolines the C registry calls,
  with their telemetry counters. A QUIC stream delivers the bytes written on it in order; a stream the
  server drops without a status byte makes the client's \<^verbatim>\<open>read_exact\<close> fail.
\<close>

subsection \<open>Request header\<close>

definition R2_MAGIC :: u32 where "R2_MAGIC = 0x53505232"
definition R2_HDR :: nat where "R2_HDR = 64"

record r2_req =
  r2_op :: u8
  r2_which :: u8
  r2_len :: u32
  r2_off :: u64

definition req_to_bytes :: "r2_req \<Rightarrow> bytes" where
  "req_to_bytes r =
     to_le 4 R2_MAGIC @ [r2_op r, r2_which r] @ replicate 2 0 @ to_le 4 (r2_len r) @ replicate 4 0 @
     to_le 8 (r2_off r) @ replicate 40 0"

definition req_from_bytes :: "bytes \<Rightarrow> r2_req option" where
  "req_from_bytes b =
     (if (from_le (bslice 0 4 b) :: u32) \<noteq> R2_MAGIC then None
      else Some \<lparr>r2_op = b ! 4, r2_which = b ! 5, r2_len = from_le (bslice 8 12 b),
                 r2_off = from_le (bslice 16 24 b)\<rparr>)"

lemma length_req_to_bytes [simp]: "length (req_to_bytes r) = R2_HDR"
  by (simp add: req_to_bytes_def R2_HDR_def)

lemma req_roundtrip: "req_from_bytes (req_to_bytes r) = Some r"
  by (cases r) (simp add: req_from_bytes_def req_to_bytes_def bslice_def nth_append take_Cons' drop_Cons'
      drop_append numeral_2_eq_2 [symmetric])

subsection \<open>The server\<close>

type_synonym store = "u8 \<times> u64 \<Rightarrow> bytes option"

text \<open>One stream: the request bytes in, the response bytes and the new store out.\<close>

definition serve_stream :: "bytes \<Rightarrow> store \<Rightarrow> bytes \<times> store" where
  "serve_stream inp st =
     (if length inp < R2_HDR then ([], st)
      else case req_from_bytes (take R2_HDR inp) of
             None \<Rightarrow> ([], st)
           | Some req \<Rightarrow>
               (if r2_op req = 1 then
                  (if length (drop R2_HDR inp) < unat (r2_len req) then ([], st)
                   else ([0], st((r2_which req, r2_off req) \<mapsto> take (unat (r2_len req)) (drop R2_HDR inp))))
                else if r2_op req = 0 then
                  (case st (r2_which req, r2_off req) of
                     Some blk \<Rightarrow> if length blk = unat (r2_len req) then (0 # blk, st) else ([1], st)
                   | None \<Rightarrow> ([1], st))
                else ([], st)))"

subsection \<open>The client\<close>

datatype r2_error = WriteRejected | ReadMiss | StreamClosed

definition one_write :: "u8 \<Rightarrow> u64 \<Rightarrow> bytes \<Rightarrow> store \<Rightarrow> (r2_error + unit) \<times> store" where
  "one_write which off src st =
     (case serve_stream (req_to_bytes \<lparr>r2_op = 1, r2_which = which, r2_len = of_nat (length src), r2_off = off\<rparr> @ src) st of
        ([], st') \<Rightarrow> (Inl StreamClosed, st')
      | (status # _, st') \<Rightarrow> ((if status \<noteq> 0 then Inl WriteRejected else Inr ()), st'))"

text \<open>\<^verbatim>\<open>one_read\<close> fills a buffer of \<open>n\<close> bytes.\<close>

definition one_read :: "u8 \<Rightarrow> u64 \<Rightarrow> nat \<Rightarrow> store \<Rightarrow> r2_error + bytes" where
  "one_read which off n st =
     (case serve_stream (req_to_bytes \<lparr>r2_op = 0, r2_which = which, r2_len = of_nat n, r2_off = off\<rparr>) st of
        ([], _) \<Rightarrow> Inl StreamClosed
      | (status # body, _) \<Rightarrow>
          if status \<noteq> 0 then Inl ReadMiss
          else if length body < n then Inl StreamClosed
          else Inr (take n body))"

text \<open>
  \<^verbatim>\<open>read_batch\<close>: all requests run, each success fills its own buffer, the first error is the result.
\<close>

definition read_batch :: "(u8 \<times> u64) list \<Rightarrow> nat \<Rightarrow> bytes list \<Rightarrow> store \<Rightarrow> bool \<times> bytes list" where
  "read_batch reqs n dsts st =
     (let rs = map (\<lambda>(w, off). one_read w off n st) reqs
      in (list_all (\<lambda>r. case r of Inr _ \<Rightarrow> True | Inl _ \<Rightarrow> False) rs,
          map (\<lambda>(r, d). case r of Inr bs \<Rightarrow> bs | Inl _ \<Rightarrow> d) (zip rs dsts)))"

subsection \<open>The C registry trampolines\<close>

record r2_world =
  connected :: bool
  peer_store :: store
  net_writes :: u64
  net_reads :: u64
  net_batches :: u64
  net_bytes :: u64

definition r2q_write :: "i32 \<Rightarrow> u64 \<Rightarrow> bytes \<Rightarrow> r2_world \<Rightarrow> i32 \<times> r2_world" where
  "r2q_write which off src w =
     (if \<not> connected w then (1, w)
      else let w' = w\<lparr>net_writes := net_writes w + 1, net_bytes := net_bytes w + of_nat (length src)\<rparr>
           in case one_write (ucast which) off src (peer_store w') of
                (res, st') \<Rightarrow> ((case res of Inr _ \<Rightarrow> 0 | Inl _ \<Rightarrow> 1), w'\<lparr>peer_store := st'\<rparr>))"

definition r2q_read :: "i32 \<Rightarrow> u64 \<Rightarrow> bytes \<Rightarrow> r2_world \<Rightarrow> i32 \<times> bytes \<times> r2_world" where
  "r2q_read which off dst w =
     (if \<not> connected w then (1, dst, w)
      else let w' = w\<lparr>net_reads := net_reads w + 1, net_bytes := net_bytes w + of_nat (length dst)\<rparr>
           in case one_read (ucast which) off (length dst) (peer_store w') of
                Inr bs \<Rightarrow> (0, bs, w')
              | Inl _ \<Rightarrow> (1, dst, w'))"

definition r2q_read_batch ::
  "(i32 \<times> u64) list \<Rightarrow> nat \<Rightarrow> bytes list \<Rightarrow> r2_world \<Rightarrow> i32 \<times> bytes list \<times> r2_world" where
  "r2q_read_batch reqs n dsts w =
     (if \<not> connected w then (1, dsts, w)
      else let w' = w\<lparr>net_batches := net_batches w + 1,
                      net_reads := net_reads w + of_nat (length reqs),
                      net_bytes := net_bytes w + of_nat (length reqs) * of_nat n\<rparr>
           in case read_batch (map (\<lambda>(w, off). (ucast w, off)) reqs) n dsts (peer_store w') of
                (ok, dsts') \<Rightarrow> ((if ok then 0 else 1), dsts', w'))"

text \<open>The dial succeeds with the store of the peer behind it, or fails and changes nothing.\<close>

definition register_ring2_quic :: "store option \<Rightarrow> r2_world \<Rightarrow> bool \<times> r2_world" where
  "register_ring2_quic dial w =
     (case dial of None \<Rightarrow> (False, w) | Some peer \<Rightarrow> (True, w\<lparr>connected := True, peer_store := peer\<rparr>))"

definition unregister_ring2_quic :: "r2_world \<Rightarrow> r2_world" where
  "unregister_ring2_quic w = w\<lparr>connected := False\<rparr>"

subsection \<open>Requests over the wire\<close>

lemma one_write_store:
  assumes "length src < 2 ^ 32"
  shows "one_write which off src st = (Inr (), st((which, off) \<mapsto> src))"
  using assms by (simp add: one_write_def serve_stream_def req_roundtrip unat_of_nat)

lemma one_read_store:
  assumes "n < 2 ^ 32"
  shows "one_read which off n st =
    (case st (which, off) of Some blk \<Rightarrow> if length blk = n then Inr blk else Inl ReadMiss | None \<Rightarrow> Inl ReadMiss)"
  using assms by (auto simp: one_read_def serve_stream_def req_roundtrip unat_of_nat split: option.splits)


subsection \<open>The interface of a registered backend\<close>

text \<open>
  What the decode relies on in any Ring-2 backend, whatever carries the bytes: a write succeeds and
  replaces the block of its key, a read fills the buffer exactly when the stored block has its length.
\<close>

locale ring2_backend =
  fixes wr :: "'k \<Rightarrow> bytes \<Rightarrow> 'w \<Rightarrow> i32 \<times> 'w"
    and rd :: "'k \<Rightarrow> bytes \<Rightarrow> 'w \<Rightarrow> i32 \<times> bytes \<times> 'w"
    and live :: "'w \<Rightarrow> bool" and view :: "'w \<Rightarrow> 'k \<Rightarrow> bytes option" and fits :: "bytes \<Rightarrow> bool"
  assumes wr_ok: "live w \<Longrightarrow> fits src \<Longrightarrow>
      fst (wr k src w) = 0 \<and> live (snd (wr k src w)) \<and> view (snd (wr k src w)) = (view w)(k \<mapsto> src)"
    and rd_frame: "live w \<Longrightarrow> live (snd (snd (rd k dst w))) \<and> view (snd (snd (rd k dst w))) = view w"
    and rd_result: "live w \<Longrightarrow> fits dst \<Longrightarrow> (fst (rd k dst w), fst (snd (rd k dst w))) =
      (case view w k of None \<Rightarrow> (1, dst)
       | Some blk \<Rightarrow> if length blk = length dst then (0, blk) else (1, dst))"
begin

fun write_all :: "('k \<times> bytes) list \<Rightarrow> 'w \<Rightarrow> 'w" where
  "write_all [] w = w"
| "write_all ((k, src) # ws) w = write_all ws (snd (wr k src w))"

lemma write_all_view:
  "live w \<Longrightarrow> list_all (fits \<circ> snd) ws \<Longrightarrow>
    live (write_all ws w) \<and> view (write_all ws w) = (\<lambda>k. case map_of (rev ws) k of None \<Rightarrow> view w k | Some b \<Rightarrow> Some b)"
proof (induction ws arbitrary: w)
  case (Cons p ws)
  obtain k src where p: "p = (k, src)" by (cases p)
  show ?case using Cons.IH [of "snd (wr k src w)"] Cons.prems wr_ok [of w src k]
    by (auto simp: p map_add_def fun_eq_iff split: option.splits)
qed simp

text \<open>A read after any sequence of writes sees the last write of its key.\<close>

lemma read_last_write:
  assumes "live w" and "list_all (fits \<circ> snd) ws" and "map_of (rev ws) k = Some blk"
    and "fits dst" and "length dst = length blk"
  shows "fst (rd k dst (write_all ws w)) = 0 \<and> fst (snd (rd k dst (write_all ws w))) = blk"
  using rd_result [of "write_all ws w" dst k] write_all_view [OF assms(1,2)] assms(3-) by simp

end

definition fits32 :: "bytes \<Rightarrow> bool" where
  "fits32 src \<longleftrightarrow> length src < 2 ^ 32"

lemma ucast_u8_i32 [simp]: "ucast (ucast (k :: u8) :: i32) = k"
  by (rule bit_word_eqI) (simp add: bit_simps)

interpretation r2q: ring2_backend
  "\<lambda>(k :: u8, off) src. r2q_write (ucast k) off src" "\<lambda>(k :: u8, off) dst. r2q_read (ucast k) off dst"
  connected peer_store fits32
  by unfold_locales
    (auto simp: r2q_write_def r2q_read_def fits32_def Let_def one_write_store one_read_store
      split: option.splits sum.splits)


subsection \<open>Batches\<close>

text \<open>Single reads in order, as a plain backend without \<^verbatim>\<open>read_batch\<close> would do them.\<close>

fun read_each :: "(i32 \<times> u64) list \<Rightarrow> bytes list \<Rightarrow> r2_world \<Rightarrow> i32 list \<times> bytes list \<times> r2_world" where
  "read_each ((which, off) # reqs) (dst # dsts) w =
     (case r2q_read which off dst w of
        (rc, d, w1) \<Rightarrow> (case read_each reqs dsts w1 of (rcs, ds, w2) \<Rightarrow> (rc # rcs, d # ds, w2)))"
| "read_each _ _ w = ([], [], w)"

lemma r2q_read_live:
  "connected w \<Longrightarrow> r2q_read which off dst w =
    (case one_read (ucast which) off (length dst) (peer_store w) of
       Inr bs \<Rightarrow> (0, bs, w\<lparr>net_reads := net_reads w + 1, net_bytes := net_bytes w + of_nat (length dst)\<rparr>)
     | Inl _ \<Rightarrow> (1, dst, w\<lparr>net_reads := net_reads w + 1, net_bytes := net_bytes w + of_nat (length dst)\<rparr>))"
  by (simp add: r2q_read_def Let_def)

lemma read_each_live:
  assumes "connected w" and "length reqs = length dsts" and "\<forall>d\<in>set dsts. length d = n"
  shows "read_each reqs dsts w =
    (map (\<lambda>(which, off). case one_read (ucast which) off n (peer_store w) of Inr _ \<Rightarrow> 0 | Inl _ \<Rightarrow> 1) reqs,
     map (\<lambda>((which, off), d). case one_read (ucast which) off n (peer_store w) of Inr bs \<Rightarrow> bs | Inl _ \<Rightarrow> d)
       (zip reqs dsts),
     w\<lparr>net_reads := net_reads w + of_nat (length reqs),
       net_bytes := net_bytes w + of_nat (length reqs) * of_nat n\<rparr>)"
  using assms(2,1,3)
proof (induction reqs dsts arbitrary: w rule: list_induct2)
  case (Cons p reqs d dsts)
  obtain which off where p: "p = (which, off)" by (cases p)
  let ?w = "w\<lparr>net_reads := net_reads w + 1, net_bytes := net_bytes w + of_nat n\<rparr>"
  have "connected ?w" using Cons.prems by simp
  with Cons show ?case
    by (simp add: p r2q_read_live algebra_simps split: sum.split)
qed simp

lemma read_batch_ucast:
  assumes "length reqs = length dsts"
  shows "read_batch (map (\<lambda>(which, off). (ucast which, off)) reqs) n dsts st =
    (list_all (\<lambda>rc. rc = (0 :: i32))
       (map (\<lambda>(which, off). case one_read (ucast which) off n st of Inr _ \<Rightarrow> 0 | Inl _ \<Rightarrow> 1) reqs),
     map (\<lambda>((which, off), d). case one_read (ucast which) off n st of Inr bs \<Rightarrow> bs | Inl _ \<Rightarrow> d)
       (zip reqs dsts))"
  using assms unfolding read_batch_def Let_def
  by (induction reqs dsts rule: list_induct2) (auto split: sum.splits)

subsection \<open>Properties\<close>

text \<open>
  A request header survives the wire, and a block that does not start with the magic is rejected.
\<close>

theorem r2_request_header:
  "req_from_bytes (req_to_bytes r) = Some r \<and> length (req_to_bytes r) = 64 \<and>
   (req_from_bytes b = None \<longleftrightarrow> from_le (bslice 0 4 b) \<noteq> R2_MAGIC)"
  by (simp add: req_roundtrip R2_HDR_def[symmetric]) (simp add: req_from_bytes_def)

text \<open>
  C40. The Ring-2 contract over the wire: after any sequence of writes through the registered function
  pointers, a read of a key with a buffer of the length of its last block returns 0 and exactly that
  block; the other keys do not interfere (blocks below 4 GiB).
\<close>

theorem ring2_read_last_write:
  fixes which :: u8
  assumes "connected w" and "list_all (\<lambda>(k, src). length src < 2 ^ 32) ws"
    and "map_of (rev ws) (which, off) = Some blk" and "length dst = length blk"
  shows "\<exists>w'. r2q_read (ucast which) off dst (fold (\<lambda>((k, p), src) w. snd (r2q_write (ucast k) p src w)) ws w) =
    (0, blk, w')"
proof -
  have f: "fold (\<lambda>((k, p), src) w. snd (r2q_write (ucast k) p src w)) ws w = r2q.write_all ws w"
    by (induction ws arbitrary: w) auto
  have l: "list_all (fits32 \<circ> snd) ws" using assms(2) by (auto simp: list_all_iff fits32_def)
  have "fits32 blk" using l map_of_SomeD [OF assms(3)] by (auto simp: list_all_iff)
  then have "fits32 dst" using assms(4) by (simp add: fits32_def)
  from r2q.read_last_write [OF assms(1) l assms(3) this assms(4)] show ?thesis
    by (cases "r2q_read (ucast which) off dst (r2q.write_all ws w)") (simp add: f)
qed

definition demo_world :: r2_world where
  "demo_world = \<lparr>connected = True, peer_store = Map.empty, net_writes = 0, net_reads = 0,
     net_batches = 0, net_bytes = 0\<rparr>"

lemma ring2_read_last_write_witness:
  "\<exists>w'. r2q_read 0 8192 [0, 0] (fold (\<lambda>((k, p), src) w. snd (r2q_write (ucast (k :: u8)) p src w))
    [((0, 8192), [9]), ((1, 8192), [3, 4]), ((0, 8192), [1, 2])] demo_world) = (0, [1, 2], w')"
proof -
  have "\<exists>w'. r2q_read (ucast (0 :: u8)) 8192 [0, 0]
      (fold (\<lambda>((k, p), src) w. snd (r2q_write (ucast (k :: u8)) p src w))
        [((0, 8192), [9]), ((1, 8192), [3, 4]), ((0, 8192), [1, 2])] demo_world) = (0, [1, 2], w')"
    by (rule ring2_read_last_write) (simp_all add: demo_world_def)
  then show ?thesis by (simp only: unsigned_0)
qed

text \<open>
  A batch is equivalent to the single reads: the same bytes in every buffer, the same store and
  the same read and byte counters, and the status is 0 exactly when every single read would return 0.
\<close>

theorem ring2_batch_equivalent:
  assumes "connected w" and "length reqs = length dsts" and "\<forall>d\<in>set dsts. length d = n"
    and "read_each reqs dsts w = (rcs, ds, w1)"
  shows "r2q_read_batch reqs n dsts w =
    ((if list_all (\<lambda>rc. rc = 0) rcs then 0 else 1), ds, w1\<lparr>net_batches := net_batches w + 1\<rparr>)"
proof -
  have "connected (w\<lparr>net_batches := x, net_reads := y, net_bytes := z\<rparr>)" for x y z
    using assms(1) by simp
  then show ?thesis
    using assms(1,4) unfolding read_each_live [OF assms(1-3)] r2q_read_batch_def Let_def
      read_batch_ucast [OF assms(2)] by auto
qed

lemma ring2_batch_equivalent_witness:
  "let w = demo_world\<lparr>peer_store := [(0, 0) \<mapsto> [1, 2], (0, 2) \<mapsto> [3, 4]]\<rparr>
   in r2q_read_batch [(0, 2), (0, 4), (0, 0)] 2 [[0, 0], [7, 7], [0, 0]] w =
      (1, [[3, 4], [7, 7], [1, 2]], w\<lparr>net_reads := 3, net_bytes := 6, net_batches := 1\<rparr>)"
proof -
  let ?w = "demo_world\<lparr>peer_store := [(0, 0) \<mapsto> [1, 2], (0, 2) \<mapsto> [3, 4]]\<rparr>"
  have "read_each [(0, 2), (0, 4), (0, 0)] [[0, 0], [7, 7], [0, 0]] ?w =
      ([0, 1, 0], [[3, 4], [7, 7], [1, 2]], ?w\<lparr>net_reads := 3, net_bytes := 6\<rparr>)"
    by (simp add: r2q_read_live demo_world_def one_read_store)
  from ring2_batch_equivalent [OF _ _ _ this, of 2] show ?thesis
    by (simp add: Let_def demo_world_def)
qed

end
