(* ===== verification/Rust_Str.thy ===== *)
theory Rust_Str
  imports SP_Prelude
begin

text \<open>
  What the sources use of Rust's \<^verbatim>\<open>str\<close>: a string is the list of its Unicode scalar values.
  UTF-8 encoding, strict and lossy decoding (\<^verbatim>\<open>from_utf8\<close>, \<^verbatim>\<open>valid_up_to\<close>,
  \<^verbatim>\<open>from_utf8_lossy\<close> with one U+FFFD per maximal invalid part), and \<^verbatim>\<open>trim\<close>,
  \<^verbatim>\<open>replace\<close>, \<^verbatim>\<open>find\<close>, \<^verbatim>\<open>split\<close>, \<^verbatim>\<open>lines\<close>, \<^verbatim>\<open>split_whitespace\<close>.
\<close>

type_synonym ustr = "nat list"

definition lit :: "string \<Rightarrow> ustr" where
  "lit s = map of_char s"

definition scalar :: "nat \<Rightarrow> bool" where
  "scalar c \<longleftrightarrow> c < 0xD800 \<or> 0xE000 \<le> c \<and> c < 0x110000"

definition ustr_ok :: "ustr \<Rightarrow> bool" where
  "ustr_ok s \<longleftrightarrow> list_all scalar s"

subsection \<open>UTF-8\<close>

definition utf8_char :: "nat \<Rightarrow> nat list" where
  "utf8_char c =
     (if c < 0x80 then [c]
      else if c < 0x800 then [0xC0 + c div 64, 0x80 + c mod 64]
      else if c < 0x10000 then [0xE0 + c div 4096, 0x80 + c div 64 mod 64, 0x80 + c mod 64]
      else [0xF0 + c div 262144, 0x80 + c div 4096 mod 64, 0x80 + c div 64 mod 64, 0x80 + c mod 64])"

definition utf8 :: "ustr \<Rightarrow> bytes" where
  "utf8 s = map of_nat (concat (map utf8_char s))"

definition cont_byte :: "nat \<Rightarrow> bool" where
  "cont_byte b \<longleftrightarrow> 0x80 \<le> b \<and> b < 0xC0"

definition second_of_three :: "nat \<Rightarrow> nat \<Rightarrow> bool" where
  "second_of_three b0 b1 \<longleftrightarrow>
     cont_byte b1 \<and> (b0 = 0xE0 \<longrightarrow> 0xA0 \<le> b1) \<and> (b0 = 0xED \<longrightarrow> b1 < 0xA0)"

definition second_of_four :: "nat \<Rightarrow> nat \<Rightarrow> bool" where
  "second_of_four b0 b1 \<longleftrightarrow>
     cont_byte b1 \<and> (b0 = 0xF0 \<longrightarrow> 0x90 \<le> b1) \<and> (b0 = 0xF4 \<longrightarrow> b1 < 0x90)"

text \<open>The next character, or the length of the invalid part.\<close>

definition utf8_step :: "nat list \<Rightarrow> nat option \<times> nat" where
  "utf8_step bs = (case bs of [] \<Rightarrow> (None, 1) | b0 # r1 \<Rightarrow>
     if b0 < 0x80 then (Some b0, 1)
     else if b0 < 0xC2 then (None, 1)
     else if b0 < 0xE0 then
       (case r1 of b1 # _ \<Rightarrow> if cont_byte b1 then (Some ((b0 - 0xC0) * 64 + (b1 - 0x80)), 2) else (None, 1)
        | [] \<Rightarrow> (None, 1))
     else if b0 < 0xF0 then
       (case r1 of b1 # r2 \<Rightarrow>
          if \<not> second_of_three b0 b1 then (None, 1)
          else (case r2 of b2 # _ \<Rightarrow>
                  if cont_byte b2 then (Some ((b0 - 0xE0) * 4096 + (b1 - 0x80) * 64 + (b2 - 0x80)), 3)
                  else (None, 2)
                | [] \<Rightarrow> (None, 2))
        | [] \<Rightarrow> (None, 1))
     else if b0 < 0xF5 then
       (case r1 of b1 # r2 \<Rightarrow>
          if \<not> second_of_four b0 b1 then (None, 1)
          else (case r2 of b2 # r3 \<Rightarrow>
                  if \<not> cont_byte b2 then (None, 2)
                  else (case r3 of b3 # _ \<Rightarrow>
                          if cont_byte b3
                          then (Some ((b0 - 0xF0) * 262144 + (b1 - 0x80) * 4096 + (b2 - 0x80) * 64 + (b3 - 0x80)), 4)
                          else (None, 3)
                        | [] \<Rightarrow> (None, 3))
                | [] \<Rightarrow> (None, 2))
        | [] \<Rightarrow> (None, 1))
     else (None, 1))"

lemma utf8_step_pos: "utf8_step bs = (r, k) \<Longrightarrow> 0 < k"
  by (auto simp: utf8_step_def split: list.splits if_splits)

function lossy_nat :: "nat list \<Rightarrow> ustr" where
  "lossy_nat bs =
     (if bs = [] then []
      else case utf8_step bs of (r, k) \<Rightarrow>
        (case r of Some c \<Rightarrow> c | None \<Rightarrow> 0xFFFD) # lossy_nat (drop k bs))"
  by pat_completeness auto
termination
  by (relation "measure length") (auto dest!: utf8_step_pos [OF sym] simp: diff_less)

declare lossy_nat.simps [simp del]

function valid_up_to_nat :: "nat list \<Rightarrow> nat" where
  "valid_up_to_nat bs =
     (if bs = [] then 0
      else case utf8_step bs of
        (Some c, k) \<Rightarrow> k + valid_up_to_nat (drop k bs)
      | (None, k) \<Rightarrow> 0)"
  by pat_completeness auto
termination
  by (relation "measure length") (auto dest!: utf8_step_pos [OF sym] simp: diff_less)

declare valid_up_to_nat.simps [simp del]

definition from_utf8_lossy :: "bytes \<Rightarrow> ustr" where
  "from_utf8_lossy bs = lossy_nat (map unat bs)"

definition utf8_valid_up_to :: "bytes \<Rightarrow> nat" where
  "utf8_valid_up_to bs = valid_up_to_nat (map unat bs)"

definition from_utf8 :: "bytes \<Rightarrow> ustr option" where
  "from_utf8 bs = (if utf8_valid_up_to bs = length bs then Some (from_utf8_lossy bs) else None)"

lemma utf8_char_bounds: "scalar c \<Longrightarrow> list_all (\<lambda>b. b < 256) (utf8_char c)"
  by (auto simp: utf8_char_def scalar_def)

lemma utf8_step_char:
  assumes "scalar c"
  shows "utf8_step (utf8_char c @ bs) = (Some c, length (utf8_char c))"
proof -
  consider "c < 0x80" | "0x80 \<le> c" "c < 0x800" | "0x800 \<le> c" "c < 0x10000" | "0x10000 \<le> c" "c < 0x110000"
    using assms unfolding scalar_def by linarith
  then show ?thesis
  proof cases
    case 1
    then show ?thesis by (simp add: utf8_char_def utf8_step_def)
  next
    case 2
    have "c div 64 * 64 + c mod 64 = c" "2 \<le> c div 64" "c div 64 < 32"
      using 2 by (simp_all add: less_eq_div_iff_mult_less_eq less_mult_imp_div_less)
    with 2 show ?thesis by (simp add: utf8_char_def utf8_step_def cont_byte_def)
  next
    case 3
    have d: "c div 64 div 64 = c div 4096" by (simp add: div_mult2_eq [symmetric])
    have "c div 4096 * 4096 + c div 64 mod 64 * 64 + c mod 64 = c"
      using div_mult_mod_eq [of "c div 64" 64] div_mult_mod_eq [of c 64] unfolding d by linarith
    moreover have "c div 4096 = 0 \<Longrightarrow> 32 \<le> c div 64 mod 64"
      using 3 div_mult_mod_eq [of "c div 64" 64] unfolding d by linarith
    moreover have "c div 4096 = 13 \<Longrightarrow> c div 64 mod 64 < 32"
      using 3 assms div_mult_mod_eq [of "c div 64" 64] unfolding d scalar_def by linarith
    ultimately show ?thesis using 3
      by (auto simp: utf8_char_def utf8_step_def cont_byte_def second_of_three_def)
  next
    case 4
    have d: "c div 64 div 64 = c div 4096" "c div 4096 div 64 = c div 262144"
      by (simp_all add: div_mult2_eq [symmetric])
    have "c div 262144 * 262144 + c div 4096 mod 64 * 4096 + c div 64 mod 64 * 64 + c mod 64 = c"
      using div_mult_mod_eq [of "c div 4096" 64] div_mult_mod_eq [of "c div 64" 64] div_mult_mod_eq [of c 64]
      unfolding d by linarith
    moreover have "c div 262144 = 0 \<Longrightarrow> 16 \<le> c div 4096 mod 64"
      using 4 div_mult_mod_eq [of "c div 4096" 64] unfolding d by linarith
    moreover have "c div 262144 = 4 \<Longrightarrow> c div 4096 mod 64 < 16"
      using 4 div_mult_mod_eq [of "c div 4096" 64] unfolding d by linarith
    ultimately show ?thesis using 4
      by (auto simp: utf8_char_def utf8_step_def cont_byte_def second_of_four_def)
  qed
qed


lemma utf8_step_short:
  "fst (utf8_step []) = None"
  "0xC0 \<le> b0 \<Longrightarrow> fst (utf8_step [b0]) = None"
  "0xE0 \<le> b0 \<Longrightarrow> fst (utf8_step [b0, b1]) = None"
  "0xF0 \<le> b0 \<Longrightarrow> fst (utf8_step [b0, b1, b2]) = None"
  by (simp_all add: utf8_step_def)

lemma utf8_step_cut:
  assumes "n < length (utf8_char c)"
  shows "fst (utf8_step (take n (utf8_char c))) = None"
proof -
  have "(\<exists>x. utf8_char c = [x]) \<or> (\<exists>x y. utf8_char c = [0xC0 + x, y]) \<or>
      (\<exists>x y z. utf8_char c = [0xE0 + x, y, z]) \<or> (\<exists>x y z w. utf8_char c = [0xF0 + x, y, z, w])"
    by (simp add: utf8_char_def)
  then consider x where "utf8_char c = [x]" | x y where "utf8_char c = [0xC0 + x, y]"
    | x y z where "utf8_char c = [0xE0 + x, y, z]" | x y z w where "utf8_char c = [0xF0 + x, y, z, w]"
    by blast
  then show ?thesis
  proof cases
    case 1
    then show ?thesis using assms utf8_step_short(1) by simp
  next
    case (2 x y)
    then have "n = 0 \<or> n = 1" using assms by auto
    then show ?thesis unfolding 2 by (elim disjE) (simp_all add: utf8_step_short)
  next
    case (3 x y z)
    then have "n = 0 \<or> n = 1 \<or> n = 2" using assms by auto
    then show ?thesis unfolding 3 by (elim disjE) (simp_all add: utf8_step_short)
  next
    case (4 x y z w)
    then have "n = 0 \<or> n = 1 \<or> n = 2 \<or> n = 3" using assms by auto
    then show ?thesis unfolding 4 by (elim disjE) (simp_all add: utf8_step_short)
  qed
qed

lemma utf8_char_nonempty [simp]: "utf8_char c \<noteq> []"
  by (simp add: utf8_char_def)

lemma lossy_char: "scalar c \<Longrightarrow> lossy_nat (utf8_char c @ bs) = c # lossy_nat bs"
  by (subst lossy_nat.simps) (simp add: utf8_step_char)

lemma lossy_nat_Nil [simp]: "lossy_nat [] = []"
  by (subst lossy_nat.simps) simp

lemma valid_up_to_char:
  "scalar c \<Longrightarrow> valid_up_to_nat (utf8_char c @ bs) = length (utf8_char c) + valid_up_to_nat bs"
  by (subst valid_up_to_nat.simps) (simp add: utf8_step_char)

lemma valid_up_to_Nil [simp]: "valid_up_to_nat [] = 0"
  by (subst valid_up_to_nat.simps) simp

lemma valid_up_to_step: "valid_up_to_nat bs =
    (if bs = [] then 0 else case fst (utf8_step bs) of
       Some c \<Rightarrow> snd (utf8_step bs) + valid_up_to_nat (drop (snd (utf8_step bs)) bs) | None \<Rightarrow> 0)"
  by (subst valid_up_to_nat.simps) (auto split: prod.split option.split)

lemma utf8_step_le: "utf8_step bs = (Some c, k) \<Longrightarrow> k \<le> length bs"
  by (auto simp: utf8_step_def split: list.splits if_splits)

lemma valid_up_to_nat_le: "valid_up_to_nat bs \<le> length bs"
proof (induction bs rule: measure_induct_rule [of length])
  case (less bs)
  obtain r k where rk: "utf8_step bs = (r, k)" by (cases "utf8_step bs") auto
  show ?case
  proof (cases "bs = [] \<or> r = None")
    case True
    then show ?thesis using rk by (subst valid_up_to_step) auto
  next
    case False
    then obtain c where c: "r = Some c" by auto
    then have k: "0 < k" "k \<le> length bs" using rk utf8_step_pos utf8_step_le by blast+
    then have "valid_up_to_nat (drop k bs) \<le> length bs - k"
      using less.IH [of "drop k bs"] False by simp
    then show ?thesis using rk c k by (subst valid_up_to_step) auto
  qed
qed

lemma utf8_Nil_iff [simp]: "utf8 s = [] \<longleftrightarrow> s = []" "[] = utf8 s \<longleftrightarrow> s = []"
  by (cases s; simp add: utf8_def)+

text \<open>Cutting valid text anywhere leaves whole characters up to the valid length.\<close>

lemma valid_up_to_cut:
  "list_all scalar s \<Longrightarrow> \<exists>k. valid_up_to_nat (take n (concat (map utf8_char s))) = length (concat (map utf8_char (take k s)))"
proof (induction s arbitrary: n)
  case Nil
  then show ?case by simp
next
  case (Cons c s)
  let ?m = "length (utf8_char c)"
  show ?case
  proof (cases "n < ?m")
    case True
    then have "fst (utf8_step (take n (utf8_char c))) = None"
      by (rule utf8_step_cut)
    then have "valid_up_to_nat (take n (utf8_char c)) = 0" by (subst valid_up_to_step) simp
    then show ?thesis using True by (intro exI [of _ 0]) simp
  next
    case False
    obtain k where k: "valid_up_to_nat (take (n - ?m) (concat (map utf8_char s))) =
        length (concat (map utf8_char (take k s)))"
      using Cons.IH [of "n - ?m"] Cons.prems by auto
    have "take n (concat (map utf8_char (c # s))) = utf8_char c @ take (n - ?m) (concat (map utf8_char s))"
      using False by simp
    then show ?thesis using k Cons.prems
      by (intro exI [of _ "Suc k"]) (simp add: valid_up_to_char)
  qed
qed

lemma map_unat_utf8: "ustr_ok s \<Longrightarrow> map unat (utf8 s) = concat (map utf8_char s)"
proof (induction s)
  case (Cons c s)
  have "map (unat \<circ> (of_nat :: nat \<Rightarrow> u8)) (utf8_char c) = utf8_char c"
    using utf8_char_bounds [of c] Cons.prems
    by (intro map_idI) (auto simp: ustr_ok_def list_all_iff unat_of_nat)
  with Cons show ?case by (simp add: utf8_def ustr_ok_def)
qed (simp add: utf8_def)

lemma lossy_utf8: "ustr_ok s \<Longrightarrow> from_utf8_lossy (utf8 s) = s"
proof -
  assume ok: "ustr_ok s"
  have "list_all scalar s \<Longrightarrow> lossy_nat (concat (map utf8_char s)) = s"
    by (induction s) (simp_all add: lossy_char)
  then show ?thesis using ok by (simp add: from_utf8_lossy_def map_unat_utf8 ustr_ok_def)
qed

lemma from_utf8_utf8: "ustr_ok s \<Longrightarrow> from_utf8 (utf8 s) = Some s"
proof -
  assume ok: "ustr_ok s"
  have "list_all scalar s \<Longrightarrow> valid_up_to_nat (concat (map utf8_char s)) = length (concat (map utf8_char s))"
    by (induction s) (simp_all add: valid_up_to_char)
  then have "utf8_valid_up_to (utf8 s) = length (utf8 s)"
    using ok by (simp add: utf8_valid_up_to_def map_unat_utf8 ustr_ok_def) (simp add: utf8_def)
  then show ?thesis by (simp add: from_utf8_def lossy_utf8 ok)
qed

lemma utf8_append [simp]: "utf8 (s @ t) = utf8 s @ utf8 t"
  by (simp add: utf8_def)

lemma utf8_valid_up_to_cut:
  assumes "ustr_ok s"
  obtains k where "utf8_valid_up_to (take n (utf8 s)) = length (utf8 (take k s))"
proof -
  obtain k where "valid_up_to_nat (take n (concat (map utf8_char s))) = length (concat (map utf8_char (take k s)))"
    using valid_up_to_cut assms by (auto simp: ustr_ok_def)
  then have "utf8_valid_up_to (take n (utf8 s)) = length (utf8 (take k s))"
    using assms by (simp add: utf8_valid_up_to_def take_map [symmetric] map_unat_utf8) (simp add: utf8_def take_map)
  then show thesis by (rule that)
qed

text \<open>Strict decoding accepts exactly the encodings.\<close>

lemma split64: "c = a * 64 + z \<Longrightarrow> z < 64 \<Longrightarrow> c div 64 = a \<and> c mod 64 = z" for a c z :: nat
  by simp

lemma utf8_step_Some:
  assumes "utf8_step bs = (Some c, k)" and "list_all (\<lambda>b. b < 256) bs"
  shows "scalar c \<and> take k bs = utf8_char c"
proof -
  obtain b0 r1 where b: "bs = b0 # r1" using assms(1) by (cases bs) (auto simp: utf8_step_def)
  consider (one) "b0 < 0x80" "c = b0" "k = 1"
    | (two) b1 r2 where "r1 = b1 # r2" "0xC2 \<le> b0" "b0 < 0xE0" "cont_byte b1"
        "c = (b0 - 0xC0) * 64 + (b1 - 0x80)" "k = 2"
    | (three) b1 b2 r3 where "r1 = b1 # b2 # r3" "0xE0 \<le> b0" "b0 < 0xF0" "second_of_three b0 b1" "cont_byte b2"
        "c = (b0 - 0xE0) * 4096 + (b1 - 0x80) * 64 + (b2 - 0x80)" "k = 3"
    | (four) b1 b2 b3 r4 where "r1 = b1 # b2 # b3 # r4" "0xF0 \<le> b0" "b0 < 0xF5" "second_of_four b0 b1"
        "cont_byte b2" "cont_byte b3"
        "c = (b0 - 0xF0) * 262144 + (b1 - 0x80) * 4096 + (b2 - 0x80) * 64 + (b3 - 0x80)" "k = 4"
    using assms(1) b by (auto simp: utf8_step_def split: list.splits if_splits)
  then show ?thesis
  proof cases
    case one
    then show ?thesis using b by (simp add: scalar_def utf8_char_def)
  next
    case two
    define x where "x = b0 - 0xC0"
    define y where "y = b1 - 0x80"
    have xy: "2 \<le> x" "x < 32" "y < 64" "b0 = 0xC0 + x" "b1 = 0x80 + y" "c = x * 64 + y"
      using two by (auto simp: cont_byte_def x_def y_def)
    then have "c div 64 = x" "c mod 64 = y" "0x80 \<le> c" "c < 0x800" by auto
    then show ?thesis using b two(1,6) xy(4,5) by (simp add: scalar_def utf8_char_def)
  next
    case three
    define x where "x = b0 - 0xE0"
    define y where "y = b1 - 0x80"
    define z where "z = b2 - 0x80"
    have xyz: "x < 16" "y < 64" "z < 64" "b0 = 0xE0 + x" "b1 = 0x80 + y" "b2 = 0x80 + z" "c = (x * 64 + y) * 64 + z"
      "x = 0 \<Longrightarrow> 32 \<le> y" "x = 13 \<Longrightarrow> y < 32"
      using three by (auto simp: cont_byte_def second_of_three_def x_def y_def z_def)
    have d: "c div 64 = x * 64 + y" "c mod 64 = z" using split64 [OF xyz(7,3)] by blast+
    have "c div 4096 = c div 64 div 64" by (simp add: div_mult2_eq [symmetric])
    then have dd: "c div 4096 = x" "c div 64 mod 64 = y" using split64 [OF d(1) xyz(2)] by auto
    have lo: "0x800 \<le> c" using xyz(7,8) by (cases "x = 0") auto
    have hi: "c < 0x10000" using xyz(1,2,3,7) by auto
    have "scalar c" using xyz hi by (cases "x < 13"; cases "x = 13") (auto simp: scalar_def)
    then show ?thesis using b three(1,7) xyz(4,5,6) d dd lo hi by (simp add: utf8_char_def)
  next
    case four
    define x where "x = b0 - 0xF0"
    define y where "y = b1 - 0x80"
    define z where "z = b2 - 0x80"
    define w where "w = b3 - 0x80"
    have v: "x < 5" "y < 64" "z < 64" "w < 64" "b0 = 0xF0 + x" "b1 = 0x80 + y" "b2 = 0x80 + z" "b3 = 0x80 + w"
      "x = 0 \<Longrightarrow> 16 \<le> y" "x = 4 \<Longrightarrow> y < 16"
      using four(2-6) by (auto simp: cont_byte_def second_of_four_def x_def y_def z_def w_def)
    have cc: "c = ((x * 64 + y) * 64 + z) * 64 + w"
      unfolding four(7) x_def [symmetric] y_def [symmetric] z_def [symmetric] w_def [symmetric] by simp
    have d1: "c div 64 = (x * 64 + y) * 64 + z" "c mod 64 = w" using split64 [OF cc v(4)] by blast+
    have "c div 4096 = c div 64 div 64" by (simp add: div_mult2_eq [symmetric])
    then have d2: "c div 4096 = x * 64 + y" "c div 64 mod 64 = z" using split64 [OF d1(1) v(3)] by auto
    have "c div 262144 = c div 4096 div 64" by (simp add: div_mult2_eq [symmetric])
    then have d3: "c div 262144 = x" "c div 4096 mod 64 = y" using split64 [OF d2(1) v(2)] by auto
    have lo: "0x10000 \<le> c" using cc v(9) by (cases "x = 0") auto
    have hi: "c < 0x110000" using cc v by (cases "x = 4") auto
    show ?thesis using b four(1,8) v(5-8) d1(2) d2(2) d3 lo hi by (simp add: utf8_char_def scalar_def)
  qed
qed

lemma valid_up_to_complete:
  "list_all (\<lambda>b. b < 256) bs \<Longrightarrow> valid_up_to_nat bs = length bs \<Longrightarrow>
   list_all scalar (lossy_nat bs) \<and> concat (map utf8_char (lossy_nat bs)) = bs"
proof (induction bs rule: measure_induct_rule [of length])
  case (less bs)
  show ?case
  proof (cases "bs = []")
    case False
    obtain r k where rk: "utf8_step bs = (r, k)" by (cases "utf8_step bs") auto
    obtain c where c: "r = Some c"
      using less.prems(2) False rk by (subst (asm) valid_up_to_step) (cases r; auto)
    have k: "0 < k" "k \<le> length bs" using rk c utf8_step_pos utf8_step_le by blast+
    have st: "scalar c" "take k bs = utf8_char c" using utf8_step_Some rk c less.prems(1) by blast+
    have "valid_up_to_nat (drop k bs) = length (drop k bs)"
      using less.prems(2) False rk c k by (subst (asm) valid_up_to_step) auto
    moreover have "list_all (\<lambda>b. b < 256) (drop k bs)"
      using less.prems(1) by (meson in_set_dropD list_all_iff)
    ultimately have ih: "list_all scalar (lossy_nat (drop k bs))"
      "concat (map utf8_char (lossy_nat (drop k bs))) = drop k bs"
      using less.IH [of "drop k bs"] k False by auto
    have "lossy_nat bs = c # lossy_nat (drop k bs)" using rk c False by (subst lossy_nat.simps) simp
    moreover have "concat (map utf8_char (c # lossy_nat (drop k bs))) = take k bs @ drop k bs"
      using st(2) ih(2) by simp
    ultimately show ?thesis using st(1) ih(1) by simp
  qed simp
qed

lemma from_utf8_iff: "from_utf8 b = Some s \<longleftrightarrow> b = utf8 s \<and> ustr_ok s"
proof
  assume "from_utf8 b = Some s"
  then have a: "valid_up_to_nat (map unat b) = length (map unat b)" "s = lossy_nat (map unat b)"
    by (auto simp: from_utf8_def utf8_valid_up_to_def from_utf8_lossy_def split: if_splits)
  have "list_all (\<lambda>b. b < 256) (map unat b)"
    by (auto simp: list_all_iff intro: order_less_le_trans [OF unsigned_less])
  then have "list_all scalar s" "concat (map utf8_char s) = map unat b"
    using valid_up_to_complete a by blast+
  then show "b = utf8 s \<and> ustr_ok s" by (simp add: utf8_def ustr_ok_def map_idI)
qed (simp add: from_utf8_utf8)

text \<open>Plain ASCII is its own encoding.\<close>

definition ascii :: "ustr \<Rightarrow> bool" where
  "ascii s \<longleftrightarrow> list_all (\<lambda>c. c < 0x80) s"

lemma ascii_ok: "ascii s \<Longrightarrow> ustr_ok s"
  by (auto simp: ascii_def ustr_ok_def scalar_def list_all_iff)

lemma utf8_ascii: "ascii s \<Longrightarrow> utf8 s = map of_nat s"
  by (induction s) (auto simp: ascii_def utf8_def utf8_char_def)

subsection \<open>White space, lines, searching\<close>

definition is_ws :: "nat \<Rightarrow> bool" where
  "is_ws c \<longleftrightarrow> 9 \<le> c \<and> c \<le> 13 \<or> c = 0x20 \<or> c = 0x85 \<or> c = 0xA0 \<or> c = 0x1680 \<or>
     0x2000 \<le> c \<and> c \<le> 0x200A \<or> c = 0x2028 \<or> c = 0x2029 \<or> c = 0x202F \<or> c = 0x205F \<or> c = 0x3000"

definition trim_start :: "ustr \<Rightarrow> ustr" where
  "trim_start s = dropWhile is_ws s"

definition trim_end :: "ustr \<Rightarrow> ustr" where
  "trim_end s = rev (dropWhile is_ws (rev s))"

definition trim :: "ustr \<Rightarrow> ustr" where
  "trim s = trim_end (trim_start s)"

text \<open>\<^verbatim>\<open>replace("\r\n", "\n")\<close>\<close>

fun replace_crlf :: "ustr \<Rightarrow> ustr" where
  "replace_crlf [] = []"
| "replace_crlf [c] = [c]"
| "replace_crlf (c # d # s) =
     (if c = 13 \<and> d = 10 then 10 # replace_crlf s else c # replace_crlf (d # s))"

text \<open>\<^verbatim>\<open>find(pat)\<close>: the index of the first occurrence.\<close>

fun find_sub :: "'a list \<Rightarrow> 'a list \<Rightarrow> nat option" where
  "find_sub pat [] = (if pat = [] then Some 0 else None)"
| "find_sub pat (c # s) =
     (if take (length pat) (c # s) = pat then Some 0 else map_option Suc (find_sub pat s))"

definition contains :: "ustr \<Rightarrow> ustr \<Rightarrow> bool" where
  "contains s pat \<longleftrightarrow> find_sub pat s \<noteq> None"

definition strip_prefix :: "'a list \<Rightarrow> 'a list \<Rightarrow> 'a list option" where
  "strip_prefix pre s = (if take (length pre) s = pre then Some (drop (length pre) s) else None)"

text \<open>\<^verbatim>\<open>split(c)\<close>: always at least one piece.\<close>

fun split_on :: "'a \<Rightarrow> 'a list \<Rightarrow> 'a list list" where
  "split_on c [] = [[]]"
| "split_on c (x # s) =
     (if x = c then [] # split_on c s
      else case split_on c s of [] \<Rightarrow> [[x]] | p # ps \<Rightarrow> (x # p) # ps)"

text \<open>\<^verbatim>\<open>lines()\<close>: pieces between newlines, without a final empty one, each without a trailing CR.\<close>

definition strip_cr :: "ustr \<Rightarrow> ustr" where
  "strip_cr l = (if l \<noteq> [] \<and> last l = 13 then butlast l else l)"

text \<open>Only a carriage return that is followed by the newline is dropped, not one at the end of the text.\<close>

definition str_lines :: "ustr \<Rightarrow> ustr list" where
  "str_lines s =
     (let ps = split_on 10 s; closed = map strip_cr (butlast ps)
      in if last ps = [] then closed else closed @ [last ps])"

fun split_ws :: "ustr \<Rightarrow> ustr \<Rightarrow> ustr list" where
  "split_ws acc [] = (if acc = [] then [] else [acc])"
| "split_ws acc (c # s) =
     (if is_ws c then (if acc = [] then split_ws [] s else acc # split_ws [] s)
      else split_ws (acc @ [c]) s)"

definition split_whitespace :: "ustr \<Rightarrow> ustr list" where
  "split_whitespace s = split_ws [] s"

fun join :: "'a list \<Rightarrow> 'a list list \<Rightarrow> 'a list" where
  "join sep [] = []"
| "join sep [x] = x"
| "join sep (x # y # xs) = x @ sep @ join sep (y # xs)"

lemma find_sub_Some:
  "find_sub pat s = Some i \<Longrightarrow> i \<le> length s \<and> take (length pat) (drop i s) = pat \<and>
    (\<forall>j<i. take (length pat) (drop j s) \<noteq> pat)"
proof (induction s arbitrary: i)
  case (Cons c s)
  show ?case
  proof (cases "take (length pat) (c # s) = pat")
    case True
    with Cons.prems show ?thesis by simp
  next
    case False
    with Cons.prems obtain i' where i: "i = Suc i'" "find_sub pat s = Some i'" by auto
    with Cons.IH [OF i(2)] False show ?thesis by (auto simp: less_Suc_eq_0_disj)
  qed
qed (auto split: if_splits)

lemma find_sub_skip:
  assumes "\<forall>j<length a. take (length pat) (drop j (a @ pat @ b)) \<noteq> pat"
  shows "find_sub pat (a @ pat @ b) = Some (length a)"
  using assms
proof (induction a)
  case Nil
  have t: "take (length pat) (pat @ b) = pat" by simp
  show ?case
  proof (cases "pat @ b")
    case (Cons x xs)
    from t [unfolded Cons] show ?thesis by (simp add: Cons)
  qed simp
next
  case (Cons c a)
  have "\<forall>j<length a. take (length pat) (drop j (a @ pat @ b)) \<noteq> pat"
    using Cons.prems by auto
  moreover have "take (length pat) (c # a @ pat @ b) \<noteq> pat" using Cons.prems by fastforce
  ultimately show ?case using Cons.IH by simp
qed

lemma strip_prefix_append [simp]: "strip_prefix p (p @ s) = Some s"
  by (simp add: strip_prefix_def)

lemma split_on_not_Nil [simp]: "split_on c s \<noteq> []"
  by (induction s) (auto split: list.splits)

lemma split_on_none: "c \<notin> set s \<Longrightarrow> split_on c s = [s]"
  by (induction s) auto

lemma split_on_append: "c \<notin> set a \<Longrightarrow> split_on c (a @ c # b) = a # split_on c b"
  by (induction a) auto

lemma replace_crlf_no_cr: "13 \<notin> set s \<Longrightarrow> replace_crlf s = s"
  by (induction s rule: replace_crlf.induct) auto


lemma trim_id: "(\<forall>c\<in>set s. \<not> is_ws c) \<Longrightarrow> trim s = s"
proof -
  assume a: "\<forall>c\<in>set s. \<not> is_ws c"
  have d: "dropWhile is_ws t = t" if "\<forall>c\<in>set t. \<not> is_ws c" for t
    using that by (cases t) auto
  show ?thesis using d [of s] d [of "rev s"] a by (simp add: trim_def trim_end_def trim_start_def)
qed

lemma trim_fits:
  assumes "s \<noteq> []" and "\<not> is_ws (hd s)" and "\<not> is_ws (last s)"
  shows "trim s = s"
proof -
  have "dropWhile is_ws s = s" using assms by (cases s) auto
  moreover have "dropWhile is_ws (rev s) = rev s" using assms by (cases s rule: rev_cases) auto
  ultimately show ?thesis by (simp add: trim_def trim_end_def trim_start_def)
qed

lemma str_lines_terminated:
  assumes "\<And>l. l \<in> set ls \<Longrightarrow> 10 \<notin> set l \<and> (l = [] \<or> last l \<noteq> 13)"
  shows "str_lines (concat (map (\<lambda>l. l @ [10]) ls)) = ls"
proof -
  have "split_on 10 (concat (map (\<lambda>l. l @ [10]) ls)) = ls @ [[]]"
    using assms by (induction ls) (simp_all add: split_on_append)
  moreover have "map strip_cr ls = ls" by (rule map_idI) (use assms in \<open>auto simp: strip_cr_def\<close>)
  ultimately show ?thesis by (simp add: str_lines_def)
qed

subsection \<open>Hexadecimal text\<close>

text \<open>
  The documented behaviour of the \<^verbatim>\<open>hex\<close> crate: lower-case digits, two per byte, and decoding
  inverts encoding.
\<close>

definition hex_digit :: "nat \<Rightarrow> bool" where
  "hex_digit c \<longleftrightarrow> 48 \<le> c \<and> c \<le> 57 \<or> 97 \<le> c \<and> c \<le> 102"

definition hex_contract :: "(bytes \<Rightarrow> ustr) \<Rightarrow> (ustr \<Rightarrow> bytes option) \<Rightarrow> bool" where
  "hex_contract enc dec \<longleftrightarrow>
     (\<forall>b. dec (enc b) = Some b \<and> length (enc b) = 2 * length b \<and> list_all hex_digit (enc b))"

lemma hex_contract_dec: "hex_contract enc dec \<Longrightarrow> dec (enc b) = Some b"
  by (simp add: hex_contract_def)

lemma hex_digit_not_ws: "hex_digit c \<Longrightarrow> \<not> is_ws c"
  by (auto simp: hex_digit_def is_ws_def)

lemma hex_contract_trim: "hex_contract enc dec \<Longrightarrow> trim (enc b) = enc b"
  by (rule trim_id) (auto simp: hex_contract_def list_all_iff hex_digit_not_ws)

text \<open>A concrete instance.\<close>

definition nibble :: "nat \<Rightarrow> nat" where
  "nibble n = (if n < 10 then 48 + n else 87 + n)"

definition unnibble :: "nat \<Rightarrow> nat option" where
  "unnibble c = (if 48 \<le> c \<and> c \<le> 57 then Some (c - 48) else if 97 \<le> c \<and> c \<le> 102 then Some (c - 87)
     else if 65 \<le> c \<and> c \<le> 70 then Some (c - 55) else None)"

definition hex_enc_ref :: "bytes \<Rightarrow> ustr" where
  "hex_enc_ref bs = concat (map (\<lambda>b. [nibble (unat b div 16), nibble (unat b mod 16)]) bs)"

fun hex_dec_ref :: "ustr \<Rightarrow> bytes option" where
  "hex_dec_ref [] = Some []"
| "hex_dec_ref [c] = None"
| "hex_dec_ref (c # d # s) =
     (case (unnibble c, unnibble d, hex_dec_ref s) of
        (Some x, Some y, Some bs) \<Rightarrow> Some (of_nat (16 * x + y) # bs) | _ \<Rightarrow> None)"

lemma nibble_props: "n < 16 \<Longrightarrow> unnibble (nibble n) = Some n \<and> hex_digit (nibble n)"
  by (auto simp: nibble_def unnibble_def hex_digit_def)

lemma hex_ref_contract: "hex_contract hex_enc_ref hex_dec_ref"
proof -
  have b: "unat (b :: u8) div 16 < 16" for b
  proof -
    have "unat b < 256" using unsigned_less [of b] by simp
    then show ?thesis by (simp add: less_mult_imp_div_less)
  qed
  have "hex_dec_ref (hex_enc_ref bs) = Some bs" for bs
    by (induction bs) (auto simp: hex_enc_ref_def nibble_props b)
  moreover have "length (hex_enc_ref bs) = 2 * length bs" for bs
    by (induction bs) (auto simp: hex_enc_ref_def)
  moreover have "list_all hex_digit (hex_enc_ref bs)" for bs
    by (induction bs) (auto simp: hex_enc_ref_def nibble_props b)
  ultimately show ?thesis by (simp add: hex_contract_def)
qed


subsection \<open>Decimal numbers\<close>

function decimal :: "nat \<Rightarrow> ustr" where
  "decimal n = (if n < 10 then [48 + n] else decimal (n div 10) @ [48 + n mod 10])"
  by pat_completeness auto
termination
  by (relation "measure id") auto

declare decimal.simps [simp del]

definition dec_value :: "ustr \<Rightarrow> nat" where
  "dec_value s = fold (\<lambda>c v. v * 10 + (c - 48)) s 0"

text \<open>\<^verbatim>\<open>str::parse::<usize>()\<close>: an optional plus sign, then digits; 64-bit overflow is an error.\<close>

definition parse_usize :: "ustr \<Rightarrow> nat option" where
  "parse_usize s0 =
     (let s = (case s0 of c # t \<Rightarrow> if c = 43 then t else s0 | [] \<Rightarrow> [])
      in if s = [] \<or> \<not> list_all (\<lambda>c. 48 \<le> c \<and> c \<le> 57) s then None
         else if 2 ^ 64 \<le> dec_value s then None else Some (dec_value s))"

lemma dec_digits: "list_all (\<lambda>c. 48 \<le> c \<and> c \<le> 57) (decimal n) \<and> decimal n \<noteq> [] \<and> dec_value (decimal n) = n"
proof (induction n rule: decimal.induct)
  case (1 n)
  show ?case
  proof (cases "n < 10")
    case True
    then show ?thesis by (subst (1 2 3) decimal.simps) (simp add: dec_value_def)
  next
    case False
    have "n mod 10 < 10" by simp
    with 1 False show ?thesis by (subst (1 2 3) decimal.simps) (simp add: dec_value_def)
  qed
qed

lemma parse_dec: "n < 2 ^ 64 \<Longrightarrow> parse_usize (decimal n) = Some n"
  using dec_digits [of n] by (cases "decimal n") (auto simp: parse_usize_def)

end
