(* ===== verification/Similarity.thy ===== *)
theory Similarity
  imports Rust_Str "HOL-Library.List_Lexorder" "HOL-Library.Product_Lexorder" "HOL-Library.Multiset"
begin

text \<open>
  \<^verbatim>\<open>sp_swarm/src/similarity.rs\<close>: 256-bit signatures, their Hamming distance and hex form, and
  the local similarity index with its top-k query. The \<^verbatim>\<open>hex\<close> crate is an argument.
\<close>

type_synonym sig = "u64 list"

definition sig_ok :: "sig \<Rightarrow> bool" where
  "sig_ok s \<longleftrightarrow> length s = 4"

definition sig_hamming :: "sig \<Rightarrow> sig \<Rightarrow> nat" where
  "sig_hamming a b = sum_list (map (\<lambda>i. count_ones (a ! i XOR b ! i)) [0..<4])"

definition sig_agree :: "sig \<Rightarrow> sig \<Rightarrow> nat" where
  "sig_agree a b = 256 - sig_hamming a b"

definition sig_to_bytes :: "sig \<Rightarrow> bytes" where
  "sig_to_bytes s = concat (map (to_le 8) s)"

definition sig_to_hex :: "(bytes \<Rightarrow> ustr) \<Rightarrow> sig \<Rightarrow> ustr" where
  "sig_to_hex hex_encode s = hex_encode (sig_to_bytes s)"

definition sig_from_hex :: "(ustr \<Rightarrow> bytes option) \<Rightarrow> ustr \<Rightarrow> sig option" where
  "sig_from_hex hex_decode h =
     (case hex_decode (trim h) of
        None \<Rightarrow> None
      | Some b \<Rightarrow> if length b \<noteq> 32 then None
                 else Some (map (\<lambda>i. from_le (bslice (i * 8) (i * 8 + 8) b)) [0..<4]))"

subsection \<open>The index\<close>

record c2_index =
  entries :: "(ustr \<times> sig) list"

definition c2_new :: c2_index where
  "c2_new = \<lparr>entries = []\<rparr>"

fun upsert_entry :: "ustr \<Rightarrow> sig \<Rightarrow> (ustr \<times> sig) list \<Rightarrow> (ustr \<times> sig) list option" where
  "upsert_entry addr s [] = None"
| "upsert_entry addr s ((a, t) # es) =
     (if a = addr then Some ((a, s) # es) else map_option (Cons (a, t)) (upsert_entry addr s es))"

definition c2_insert :: "ustr \<Rightarrow> sig \<Rightarrow> c2_index \<Rightarrow> c2_index" where
  "c2_insert addr s idx =
     (case upsert_entry addr s (entries idx) of
        Some es \<Rightarrow> idx\<lparr>entries := es\<rparr>
      | None \<Rightarrow> idx\<lparr>entries := entries idx @ [(addr, s)]\<rparr>)"

definition find_similar :: "c2_index \<Rightarrow> sig \<Rightarrow> nat \<Rightarrow> (ustr \<times> nat) list" where
  "find_similar idx q k =
     take k (sort_key (\<lambda>(a, h). (h, a)) (map (\<lambda>(a, s). (a, sig_hamming q s)) (entries idx)))"

definition c2_lookup :: "c2_index \<Rightarrow> ustr \<Rightarrow> sig option" where
  "c2_lookup idx = map_of (entries idx)"

definition c2_inv :: "c2_index \<Rightarrow> bool" where
  "c2_inv idx \<longleftrightarrow> distinct (map fst (entries idx))"

lemma upsert_entry_None: "upsert_entry addr s es = None \<longleftrightarrow> addr \<notin> fst ` set es"
  by (induction addr s es rule: upsert_entry.induct) auto

lemma upsert_entry_Some:
  "upsert_entry addr s es = Some es' \<Longrightarrow> map fst es' = map fst es \<and> map_of es' = (map_of es)(addr \<mapsto> s)"
  by (induction addr s es arbitrary: es' rule: upsert_entry.induct) (auto split: if_splits)

interpretation c2: upsert c2_insert c2_lookup c2_inv
proof unfold_locales
  fix m k v
  assume inv: "c2_inv m"
  show "c2_inv (c2_insert k v m)"
    using inv upsert_entry_None [of k v "entries m"]
    by (auto simp: c2_insert_def c2_inv_def split: option.splits dest!: upsert_entry_Some)
  show "c2_lookup (c2_insert k v m) = (c2_lookup m)(k \<mapsto> v)"
    using inv upsert_entry_None [of k v "entries m"]
    by (auto simp: c2_insert_def c2_lookup_def map_add_def fun_eq_iff split: option.splits
        dest!: upsert_entry_Some) (metis map_of_eq_None_iff option.distinct(1))
qed

subsection \<open>Distances\<close>

lemma sum4: "sum_list (map f [0..<4]) = f 0 + f 1 + f 2 + f (3 :: nat)" for f :: "nat \<Rightarrow> nat"
  by (simp add: upt_conv_Cons numeral_2_eq_2 numeral_3_eq_3)

lemma sig_hamming_le: "sig_hamming a b \<le> 256"
proof -
  have "count_ones (x :: u64) \<le> 64" for x using count_ones_le [of x] by simp
  then show ?thesis unfolding sig_hamming_def sum4
    using \<open>\<And>x. count_ones x \<le> 64\<close> [of "a ! 0 XOR b ! 0"] \<open>\<And>x. count_ones x \<le> 64\<close> [of "a ! 1 XOR b ! 1"]
      \<open>\<And>x. count_ones x \<le> 64\<close> [of "a ! 2 XOR b ! 2"] \<open>\<And>x. count_ones x \<le> 64\<close> [of "a ! 3 XOR b ! 3"]
    by linarith
qed

lemma sig_hamming_eq_0:
  assumes "sig_ok a" and "sig_ok b"
  shows "sig_hamming a b = 0 \<longleftrightarrow> a = b"
proof -
  have "sig_hamming a b = 0 \<longleftrightarrow> (\<forall>i<4. a ! i = b ! i)"
    unfolding sig_hamming_def sum4 by (auto simp: count_ones_xor(2) less_Suc_eq numeral_eq_Suc)
  also have "\<dots> \<longleftrightarrow> a = b" using assms by (auto simp: sig_ok_def list_eq_iff_nth_eq)
  finally show ?thesis .
qed

lemma sig_hamming_triangle: "sig_hamming a c \<le> sig_hamming a b + sig_hamming b c"
  unfolding sig_hamming_def sum4
  using count_ones_xor(4) [of "a ! 0" "c ! 0" "b ! 0"] count_ones_xor(4) [of "a ! 1" "c ! 1" "b ! 1"]
    count_ones_xor(4) [of "a ! 2" "c ! 2" "b ! 2"] count_ones_xor(4) [of "a ! 3" "c ! 3" "b ! 3"]
  by linarith

lemma sig_hamming_sym: "sig_hamming a b = sig_hamming b a"
  by (simp add: sig_hamming_def count_ones_xor(1))


lemma sig_bytes_read:
  assumes "sig_ok s"
  shows "map (\<lambda>i. from_le (bslice (i * 8) (i * 8 + 8) (sig_to_bytes s))) [0..<4] = s"
proof -
  obtain a b c d where "s = [a, b, c, d]"
    using assms by (auto simp: sig_ok_def length_Suc_conv eval_nat_numeral)
  then show ?thesis
    by (simp add: sig_to_bytes_def bslice_def upt_conv_Cons drop_append take_append)
qed

subsection \<open>Properties\<close>

text \<open>
  The signature distance is a metric bounded by 256, and agreement is its complement.
\<close>

theorem sig_hamming_metric:
  assumes "sig_ok a" and "sig_ok b"
  shows "(sig_hamming a b = 0 \<longleftrightarrow> a = b) \<and> sig_hamming a b = sig_hamming b a \<and>
    sig_hamming a c \<le> sig_hamming a b + sig_hamming b c \<and> sig_agree a b + sig_hamming a b = 256"
  using sig_hamming_eq_0 [OF assms] sig_hamming_sym [of a b] sig_hamming_triangle [of a c b]
    sig_hamming_le [of a b]
  by (simp add: sig_agree_def)

lemma sig_hamming_metric_witness:
  "sig_hamming [1, 0, 0, 0] [0, 0, 0, 8] = sig_hamming [0, 0, 0, 8] [1, 0, 0, 0] \<and>
    sig_hamming [1, 0, 0, 0] [0, 0, 0, 8] \<noteq> 0"
  using sig_hamming_metric [of "[1, 0, 0, 0]" "[0, 0, 0, 8]" "[0, 0, 0, 0]"]
  unfolding sig_ok_def by simp

text \<open>
  A signature survives its hexadecimal form, whatever surrounds the \<^verbatim>\<open>hex\<close> crate as documented.
\<close>

theorem sig_hex_roundtrip:
  assumes "hex_contract enc dec" and "sig_ok s"
  shows "sig_from_hex dec (sig_to_hex enc s) = Some s"
proof -
  have "length (sig_to_bytes s) = 32"
    using assms(2) by (simp add: sig_to_bytes_def length_concat comp_def sum_list_triv sig_ok_def)
  then show ?thesis
    using assms sig_bytes_read [OF assms(2)]
    by (simp add: sig_from_hex_def sig_to_hex_def hex_contract_trim hex_contract_dec)
qed

lemma sig_hex_roundtrip_witness:
  "sig_from_hex hex_dec_ref (sig_to_hex hex_enc_ref [1, 2, 3, 0xFFFFFFFFFFFFFFFF]) =
    Some [1, 2, 3, 0xFFFFFFFFFFFFFFFF]"
  using hex_ref_contract by (rule sig_hex_roundtrip) (simp add: sig_ok_def)

text \<open>
  The query returns the \<open>k\<close> nearest entries, nearest first, ties by address: the result has
  \<open>min k n\<close> entries of the index with their distances, sorted, and every entry left out is at least
  as far (in the order by distance, then address) as every entry returned.
\<close>

theorem find_similar_nearest:
  "length (find_similar idx q k) = min k (length (entries idx)) \<and>
   (\<exists>rest. mset (find_similar idx q k) + mset rest = mset (map (\<lambda>(a, s). (a, sig_hamming q s)) (entries idx)) \<and>
     sorted (map (\<lambda>(a, h). (h, a)) (find_similar idx q k @ rest)))"
proof -
  define v where "v = sort_key (\<lambda>(a, h). (h, a)) (map (\<lambda>(a, s). (a, sig_hamming q s)) (entries idx))"
  have f: "find_similar idx q k = take k v" by (simp add: find_similar_def v_def)
  have "mset (take k v) + mset (drop k v) = mset (map (\<lambda>(a, s). (a, sig_hamming q s)) (entries idx))"
    by (simp add: v_def flip: mset_append)
  moreover have "sorted (map (\<lambda>(a, h). (h, a)) (take k v @ drop k v))" by (simp add: v_def)
  moreover have "length (take k v) = min k (length (entries idx))" by (simp add: v_def min.commute)
  ultimately show ?thesis unfolding f by blast
qed

text \<open>
  Inserting is insert-or-replace: after any sequence of insertions from the empty index every address
  has one entry, holding the last signature inserted for it.
\<close>

theorem c2_insert_last_wins:
  "distinct (map fst (entries (fold (\<lambda>(a, s). c2_insert a s) kvs c2_new))) \<and>
   map_of (entries (fold (\<lambda>(a, s). c2_insert a s) kvs c2_new)) = map_of (rev kvs)"
  using c2.ins_all_map [of c2_new kvs]
  by (simp add: c2.ins_all_def c2_inv_def c2_lookup_def c2_new_def)

end
