(* ===== verification/Swarm.thy ===== *)
theory Swarm
  imports Similarity
begin

text \<open>
  \<^verbatim>\<open>sp_swarm/src/lib.rs\<close>: content addressing of memory objects, the frontmatter parser, the
  classification and provenance checks, and the verified pull between two stores. SHA-256, the
  \<^verbatim>\<open>hex\<close> crate and Ed25519 are the fields of \<open>crypto\<close>. A store is a file tree with the path of
  its root: an address is joined to the directory as a path, and only names of the listing are compared literally.
\<close>

record ('vk, 'sg) crypto =
  sha256 :: "bytes \<Rightarrow> bytes"
  hex_encode :: "bytes \<Rightarrow> ustr"
  hex_decode :: "ustr \<Rightarrow> bytes option"
  sig_from_slice :: "bytes \<Rightarrow> 'sg option"
  vk_verify :: "'vk \<Rightarrow> bytes \<Rightarrow> 'sg \<Rightarrow> bool"

type_synonym fm = "ustr \<Rightarrow> ustr option"
type_synonym 'vk roster = "ustr \<Rightarrow> 'vk option"

subsection \<open>Addresses\<close>

definition norm :: "ustr \<Rightarrow> ustr" where
  "norm body = trim (replace_crlf body) @ [10]"

definition addr_of :: "('vk, 'sg) crypto \<Rightarrow> ustr \<Rightarrow> ustr" where
  "addr_of c body = take 16 (hex_encode c (sha256 c (utf8 (norm body))))"

definition signing_payload :: "ustr \<Rightarrow> ustr \<Rightarrow> bytes" where
  "signing_payload addr body = utf8 (addr @ [10]) @ utf8 (norm body)"

subsection \<open>Frontmatter\<close>

definition fence :: ustr where "fence = [45, 45, 45]"

definition parse_fm_line :: "ustr \<Rightarrow> fm \<Rightarrow> fm" where
  "parse_fm_line line fm =
     (case find_sub [58] line of
        None \<Rightarrow> fm
      | Some i \<Rightarrow> fm(trim (take i line) \<mapsto> trim (drop (i + 1) line)))"

definition parse_fm :: "ustr \<Rightarrow> fm \<times> ustr" where
  "parse_fm text0 =
     (let text = replace_crlf text0 in
      case strip_prefix (fence @ [10]) text of
        None \<Rightarrow> (Map.empty, text)
      | Some rest \<Rightarrow>
          (case find_sub (10 # fence) rest of
             None \<Rightarrow> (Map.empty, text)
           | Some e \<Rightarrow>
               (let fm = fold parse_fm_line (split_on 10 (take e rest)) Map.empty;
                    after = drop (e + 4) rest;
                    body = (case strip_prefix [10] after of Some b \<Rightarrow> b | None \<Rightarrow> after)
                in (fm, body))))"

subsection \<open>Verification\<close>

datatype obj_class = Content | C2 | Bad

definition MEM_ADDR :: ustr where "MEM_ADDR = lit ''mem_addr''"
definition MEM_KIND :: ustr where "MEM_KIND = lit ''mem_kind''"
definition MEM_SIGNER :: ustr where "MEM_SIGNER = lit ''mem_signer''"
definition MEM_SIG :: ustr where "MEM_SIG = lit ''mem_sig''"

definition classify :: "('vk, 'sg) crypto \<Rightarrow> ustr \<Rightarrow> fm \<Rightarrow> ustr \<Rightarrow> obj_class" where
  "classify c addr fm body =
     (if addr_of c body = addr then Content
      else if fm MEM_ADDR = Some addr \<and> fm MEM_KIND = Some (lit ''episode'') then C2
      else Bad)"

datatype reject = Unsigned | UntrustedSigner | SigInvalid | IntegrityFail | Missing

definition reject_as_str :: "reject \<Rightarrow> ustr" where
  "reject_as_str r = lit (case r of Unsigned \<Rightarrow> ''unsigned'' | UntrustedSigner \<Rightarrow> ''untrusted-signer''
     | SigInvalid \<Rightarrow> ''sig-invalid'' | IntegrityFail \<Rightarrow> ''integrity-fail'' | Missing \<Rightarrow> ''missing-on-remote'')"

definition verify_provenance ::
  "('vk, 'sg) crypto \<Rightarrow> ustr \<Rightarrow> fm \<Rightarrow> ustr \<Rightarrow> 'vk roster \<Rightarrow> reject + unit" where
  "verify_provenance c addr fm body roster =
     (case fm MEM_SIGNER of None \<Rightarrow> Inl Unsigned | Some signer \<Rightarrow>
        (case fm MEM_SIG of None \<Rightarrow> Inl Unsigned | Some sig_hex \<Rightarrow>
           (if signer = [] \<or> sig_hex = [] then Inl Unsigned
            else case roster signer of None \<Rightarrow> Inl UntrustedSigner | Some vk \<Rightarrow>
              (case hex_decode c sig_hex of None \<Rightarrow> Inl SigInvalid | Some raw \<Rightarrow>
                 (case sig_from_slice c raw of None \<Rightarrow> Inl SigInvalid | Some sg \<Rightarrow>
                    (if vk_verify c vk (signing_payload addr body) sg then Inr () else Inl SigInvalid))))))"

definition accept ::
  "('vk, 'sg) crypto \<Rightarrow> ustr \<Rightarrow> ustr \<Rightarrow> 'vk roster option \<Rightarrow> reject + obj_class" where
  "accept c addr text roster =
     (case parse_fm text of (fm, body) \<Rightarrow>
        (let cls = classify c addr fm body in
         if cls = Bad then Inl IntegrityFail
         else case roster of
                None \<Rightarrow> Inr cls
              | Some r \<Rightarrow> (case verify_provenance c addr fm body r of Inl e \<Rightarrow> Inl e | Inr _ \<Rightarrow> Inr cls)))"

subsection \<open>Files\<close>

text \<open>
  A file tree: the directories and the text files by the list of the components of their path, and the root of the
  store in it. Paths are those of a Unix system without symbolic links. Reads and writes of a resolved path succeed, and
  no directory has the name of an object (ending in \<^verbatim>\<open>.md\<close>).
\<close>

type_synonym path = "ustr list"

record mem_store =
  st_root :: path
  st_dirs :: "path \<Rightarrow> bool"
  st_files :: "path \<Rightarrow> ustr option"

definition FULL_DIR :: ustr where "FULL_DIR = lit ''full''"
definition SUM_DIR :: ustr where "SUM_DIR = lit ''sum''"

text \<open>
  The walk of the system along the components: every component but the last stands for a directory that exists, an empty
  one and \<^verbatim>\<open>.\<close> stay, \<^verbatim>\<open>..\<close> goes up. The last component of a file of the store ends in \<^verbatim>\<open>.md\<close>, so it is a name.
\<close>

fun walk :: "(path \<Rightarrow> bool) \<Rightarrow> path \<Rightarrow> ustr list \<Rightarrow> path option" where
  "walk dirs at [] = None"
| "walk dirs at [c] = (if dirs at then Some (at @ [c]) else None)"
| "walk dirs at (c # d # cs) =
     (if \<not> dirs at then None
      else if c = [] \<or> c = [46] then walk dirs at (d # cs)
      else if c = [46, 46] then walk dirs (butlast at) (d # cs)
      else walk dirs (at @ [c]) (d # cs))"

text \<open>\<^verbatim>\<open>dir.join(format!("{addr}.md"))\<close>: an address with a leading slash replaces the directory; a NUL is refused.\<close>

definition object_path :: "mem_store \<Rightarrow> ustr \<Rightarrow> ustr \<Rightarrow> path option" where
  "object_path st dir addr =
     (let p = addr @ lit ''.md'' in
      if 0 \<in> set p then None
      else if hd p = 47 then walk (st_dirs st) [] (tl (split_on 47 p))
      else walk (st_dirs st) (st_root st @ [dir]) (split_on 47 p))"

definition read_object :: "mem_store \<Rightarrow> ustr \<Rightarrow> ustr \<Rightarrow> ustr option" where
  "read_object st dir addr = Option.bind (object_path st dir addr) (st_files st)"

definition write_object :: "mem_store \<Rightarrow> ustr \<Rightarrow> ustr \<Rightarrow> ustr \<Rightarrow> mem_store" where
  "write_object st dir addr txt =
     (case object_path st dir addr of None \<Rightarrow> st | Some p \<Rightarrow> st\<lparr>st_files := (st_files st)(p \<mapsto> txt)\<rparr>)"

text \<open>\<^verbatim>\<open>create_dir_all\<close>: the directory and everything above it.\<close>

definition with_dir :: "ustr \<Rightarrow> mem_store \<Rightarrow> mem_store" where
  "with_dir dir st = st\<lparr>st_dirs := (\<lambda>p. st_dirs st p \<or> take (length p) (st_root st @ [dir]) = p)\<rparr>"

text \<open>The objects of the listing of \<^verbatim>\<open>full\<close>: the names, without the ending, of its files.\<close>

definition full :: "mem_store \<Rightarrow> ustr \<Rightarrow> ustr option" where
  "full st addr = st_files st (st_root st @ [FULL_DIR, addr @ lit ''.md''])"

definition have_set :: "mem_store \<Rightarrow> ustr set" where
  "have_set st = dom (full st)"

subsection \<open>The pull between two trees\<close>

fun pull_loop ::
  "('vk, 'sg) crypto \<Rightarrow> 'vk roster option \<Rightarrow> mem_store \<Rightarrow> ustr list \<Rightarrow> mem_store \<Rightarrow> ustr list \<Rightarrow>
     (ustr \<times> reject) list \<Rightarrow> ustr list \<times> (ustr \<times> reject) list \<times> mem_store" where
  "pull_loop c roster remote [] local pulled rejected = (pulled, rejected, local)"
| "pull_loop c roster remote (addr # addrs) local pulled rejected =
     (case read_object remote FULL_DIR addr of
        None \<Rightarrow> pull_loop c roster remote addrs local pulled (rejected @ [(addr, Missing)])
      | Some text \<Rightarrow>
          (case accept c addr text roster of
             Inl r \<Rightarrow> pull_loop c roster remote addrs local pulled (rejected @ [(addr, r)])
           | Inr _ \<Rightarrow>
               (let local1 = write_object local FULL_DIR addr text;
                    local2 = (case read_object remote SUM_DIR addr of
                                None \<Rightarrow> local1
                              | Some s \<Rightarrow> write_object local1 SUM_DIR addr s)
                in pull_loop c roster remote addrs local2 (pulled @ [addr]) rejected)))"

definition pull ::
  "('vk, 'sg) crypto \<Rightarrow> mem_store \<Rightarrow> mem_store \<Rightarrow> ustr list \<Rightarrow> 'vk roster option \<Rightarrow>
     ustr list \<times> (ustr \<times> reject) list \<times> mem_store" where
  "pull c remote local addrs roster = pull_loop c roster remote addrs (with_dir SUM_DIR (with_dir FULL_DIR local)) [] []"

subsection \<open>Where the files are\<close>

text \<open>A plain address has no slash and no NUL, like every name of a listing; it stands for the file of its name.\<close>

definition plain :: "ustr \<Rightarrow> bool" where
  "plain a \<longleftrightarrow> 47 \<notin> set a \<and> 0 \<notin> set a"

lemma md_chars: "lit ''.md'' = [46, 109, 100]"
  by (simp add: lit_def)

lemma object_path_plain:
  assumes "plain a"
  shows "object_path st dir a = (if st_dirs st (st_root st @ [dir]) then Some (st_root st @ [dir, a @ lit ''.md'']) else None)"
proof -
  have "47 \<notin> set (a @ lit ''.md'')" "0 \<notin> set (a @ lit ''.md'')" using assms by (auto simp: plain_def md_chars)
  moreover from this(1) have "hd (a @ lit ''.md'') \<noteq> 47" by (cases a) (auto simp: md_chars)
  ultimately show ?thesis by (simp add: object_path_def Let_def split_on_none)
qed

lemma read_plain: "plain a \<Longrightarrow> st_dirs st (st_root st @ [FULL_DIR]) \<Longrightarrow> read_object st FULL_DIR a = full st a"
  by (simp add: read_object_def object_path_plain full_def)

lemma write_object_tree [simp]:
  "st_root (write_object st dir a t) = st_root st" "st_dirs (write_object st dir a t) = st_dirs st"
  by (simp_all add: write_object_def split: option.split)

lemma with_dir_simps [simp]:
  "st_root (with_dir dir st) = st_root st" "st_files (with_dir dir st) = st_files st" "full (with_dir dir st) a = full st a"
  "st_dirs (with_dir dir st) (st_root st @ [dir])" "st_dirs st p \<Longrightarrow> st_dirs (with_dir dir st) p"
proof -
  show "st_root (with_dir dir st) = st_root st" "st_files (with_dir dir st) = st_files st" by (simp_all add: with_dir_def)
  then show "full (with_dir dir st) a = full st a" by (simp add: full_def)
  show "st_dirs (with_dir dir st) (st_root st @ [dir])" by (simp add: with_dir_def)
  show "st_dirs st p \<Longrightarrow> st_dirs (with_dir dir st) p" by (simp add: with_dir_def)
qed

lemma with_dir_again: "st_root st' = st_root st \<Longrightarrow> st_dirs st' = st_dirs (with_dir dir st) \<Longrightarrow> with_dir dir st' = st'"
  by (cases st') (auto simp: with_dir_def)

lemma object_path_tree: "st_root st = st_root st' \<Longrightarrow> st_dirs st = st_dirs st' \<Longrightarrow> object_path st dir a = object_path st' dir a"
  by (simp only: object_path_def)

lemma write_plain:
  assumes "plain a" and "st_dirs st (st_root st @ [FULL_DIR])"
  shows "full (write_object st FULL_DIR a t) = (full st)(a \<mapsto> t)"
  using assms by (auto simp: write_object_def object_path_plain full_def)

lemma write_sum_plain:
  assumes "plain a"
  shows "full (write_object st SUM_DIR a t) = full st"
  using assms by (auto simp: write_object_def object_path_plain full_def FULL_DIR_def SUM_DIR_def lit_def)

subsection \<open>What acceptance means\<close>

text \<open>\<open>vouched\<close>: a rostered key signed the address and the normalised body.\<close>

definition vouched :: "('vk, 'sg) crypto \<Rightarrow> 'vk roster \<Rightarrow> ustr \<Rightarrow> fm \<Rightarrow> ustr \<Rightarrow> bool" where
  "vouched c roster addr fm body \<longleftrightarrow>
     (\<exists>signer sig_hex vk raw sg. fm MEM_SIGNER = Some signer \<and> signer \<noteq> [] \<and>
        fm MEM_SIG = Some sig_hex \<and> sig_hex \<noteq> [] \<and> roster signer = Some vk \<and>
        hex_decode c sig_hex = Some raw \<and> sig_from_slice c raw = Some sg \<and>
        vk_verify c vk (signing_payload addr body) sg)"

lemma verify_provenance_iff: "verify_provenance c addr fm body roster = Inr () \<longleftrightarrow> vouched c roster addr fm body"
  by (auto simp: verify_provenance_def vouched_def split: option.splits if_splits)

lemma accept_iff:
  "accept c addr text roster = Inr cls \<longleftrightarrow>
     cls = classify c addr (fst (parse_fm text)) (snd (parse_fm text)) \<and> cls \<noteq> Bad \<and>
     (case roster of None \<Rightarrow> True | Some r \<Rightarrow> vouched c r addr (fst (parse_fm text)) (snd (parse_fm text)))"
  by (auto simp: accept_def Let_def verify_provenance_iff [symmetric] split: prod.splits option.splits sum.splits)

definition acceptable :: "('vk, 'sg) crypto \<Rightarrow> 'vk roster option \<Rightarrow> ustr \<Rightarrow> ustr \<Rightarrow> bool" where
  "acceptable c roster addr text \<longleftrightarrow> (\<exists>cls. accept c addr text roster = Inr cls)"

text \<open>The stores that can serve: the directory of a file exists.\<close>

definition has_full :: "mem_store \<Rightarrow> bool" where
  "has_full st \<longleftrightarrow> (dom (full st) \<noteq> {} \<longrightarrow> st_dirs st (st_root st @ [FULL_DIR]))"

lemma read_full: "has_full st \<Longrightarrow> plain a \<Longrightarrow> read_object st FULL_DIR a = full st a"
  by (cases "st_dirs st (st_root st @ [FULL_DIR])")
    (auto simp: has_full_def read_object_def object_path_plain full_def [symmetric])

lemma pull_loop_spec:
  "has_full remote \<Longrightarrow> list_all plain addrs \<Longrightarrow> st_dirs local (st_root local @ [FULL_DIR]) \<Longrightarrow>
   pull_loop c roster remote addrs local pulled rejected = (p, r, l) \<Longrightarrow>
    (\<exists>p' r'. p = pulled @ p' \<and> r = rejected @ r' \<and>
      p' = filter (\<lambda>a. \<exists>t. full remote a = Some t \<and> acceptable c roster a t) addrs \<and>
      map fst r' = filter (\<lambda>a. \<not> (\<exists>t. full remote a = Some t \<and> acceptable c roster a t)) addrs \<and>
      (\<forall>a. full l a = (if a \<in> set p' then full remote a else full local a)))"
proof (induction addrs arbitrary: local pulled rejected)
  case (Cons addr addrs)
  have pl: "plain addr" and IH: "\<And>local pulled rejected. st_dirs local (st_root local @ [FULL_DIR]) \<Longrightarrow>
    pull_loop c roster remote addrs local pulled rejected = (p, r, l) \<Longrightarrow>
    (\<exists>p' r'. p = pulled @ p' \<and> r = rejected @ r' \<and>
      p' = filter (\<lambda>a. \<exists>t. full remote a = Some t \<and> acceptable c roster a t) addrs \<and>
      map fst r' = filter (\<lambda>a. \<not> (\<exists>t. full remote a = Some t \<and> acceptable c roster a t)) addrs \<and>
      (\<forall>a. full l a = (if a \<in> set p' then full remote a else full local a)))"
    using Cons.IH Cons.prems(1,2) by simp_all
  note run = Cons.prems(4) [unfolded pull_loop.simps read_full [OF Cons.prems(1) pl]]
  show ?case
  proof (cases "full remote addr")
    case None
    then have "pull_loop c roster remote addrs local pulled (rejected @ [(addr, Missing)]) = (p, r, l)" using run by simp
    from IH [OF Cons.prems(3) this] None show ?thesis by auto
  next
    case (Some tx)
    show ?thesis
    proof (cases "accept c addr tx roster")
      case (Inl e)
      then have "pull_loop c roster remote addrs local pulled (rejected @ [(addr, e)]) = (p, r, l)" using run Some by simp
      from IH [OF Cons.prems(3) this] Some Inl show ?thesis by (auto simp: acceptable_def)
    next
      case (Inr cls)
      define l1 where "l1 = write_object local FULL_DIR addr tx"
      define l2 where "l2 = (case read_object remote SUM_DIR addr of None \<Rightarrow> l1 | Some s \<Rightarrow> write_object l1 SUM_DIR addr s)"
      have f: "full l2 = (full local)(addr \<mapsto> tx)" "st_dirs l2 (st_root l2 @ [FULL_DIR])"
        using pl Cons.prems(3) by (simp_all add: l2_def l1_def write_plain write_sum_plain split: option.split)
      have "pull_loop c roster remote addrs l2 (pulled @ [addr]) rejected = (p, r, l)"
        using run unfolding Some option.case Inr sum.case Let_def l1_def [symmetric] l2_def [symmetric] .
      from IH [OF f(2) this] Some Inr f(1) show ?thesis by (auto simp: acceptable_def)
    qed
  qed
qed auto


subsection \<open>Rendering an object, and reading it back\<close>

definition fm_line :: "ustr \<times> ustr \<Rightarrow> ustr" where
  "fm_line kv = fst kv @ [58, 32] @ snd kv"

definition render :: "ustr list \<Rightarrow> ustr \<Rightarrow> ustr" where
  "render ls body = fence @ [10] @ join [10] ls @ (10 # fence) @ 10 # body"

text \<open>A line that can be written: no line break, not empty, not starting with a dash.\<close>

definition line_ok :: "ustr \<Rightarrow> bool" where
  "line_ok l \<longleftrightarrow> l \<noteq> [] \<and> 10 \<notin> set l \<and> 13 \<notin> set l \<and> hd l \<noteq> 45"

lemma join_newline_followed:
  "list_all line_ok ls \<Longrightarrow> ls \<noteq> [] \<Longrightarrow> join [10] ls \<noteq> [] \<and> hd (join [10] ls) \<noteq> 45 \<and>
    (\<forall>j<length (join [10] ls). join [10] ls ! j = 10 \<longrightarrow>
      Suc j < length (join [10] ls) \<and> join [10] ls ! Suc j \<noteq> 45)"
proof (induction "[10] :: ustr" ls rule: join.induct)
  case (2 x)
  then show ?case by (auto simp: line_ok_def dest: nth_mem)
next
  case (3 x y xs)
  define r where "r = join [10] (y # xs)"
  have x: "x \<noteq> []" "10 \<notin> set x" "hd x \<noteq> 45" using "3.prems" by (auto simp: line_ok_def)
  have r: "r \<noteq> []" "hd r \<noteq> 45"
    "\<And>j. j < length r \<Longrightarrow> r ! j = 10 \<Longrightarrow> Suc j < length r \<and> r ! Suc j \<noteq> 45"
    using 3 unfolding r_def by simp_all
  have "Suc j < length (x @ 10 # r) \<and> (x @ 10 # r) ! Suc j \<noteq> 45"
    if j: "j < length (x @ 10 # r)" "(x @ 10 # r) ! j = 10" for j
  proof -
    have "length x \<le> j"
    proof (rule ccontr)
      assume "\<not> length x \<le> j"
      then have "10 \<in> set x" using j by (metis not_le nth_append nth_mem)
      with x show False by simp
    qed
    then obtain k where k: "j = length x + k" by (auto simp: le_iff_add)
    show ?thesis
    proof (cases k)
      case 0
      then show ?thesis using r(1,2) k by (simp add: nth_append hd_conv_nth)
    next
      case (Suc i)
      then show ?thesis using r(3) [of i] j k by (simp add: nth_append)
    qed
  qed
  then show ?case using x by (simp add: r_def [symmetric])
qed simp

lemma join_no:
  "list_all (\<lambda>l. c \<notin> set l) ls \<Longrightarrow> c \<noteq> d \<Longrightarrow> c \<notin> set (join [d] ls)"
  for c d :: nat
  by (induction "[d]" ls rule: join.induct) auto

lemma split_join: "list_all (\<lambda>l. 10 \<notin> set l) ls \<Longrightarrow> ls \<noteq> [] \<Longrightarrow> split_on 10 (join [10] ls) = ls"
  for ls :: "ustr list"
  by (induction "[10] :: ustr" ls rule: join.induct) (auto simp: split_on_none split_on_append)

lemma replace_crlf_append:
  "13 \<notin> set s \<Longrightarrow> replace_crlf (s @ t) = s @ replace_crlf t"
proof (induction s)
  case (Cons c s)
  then show ?case by (cases "s @ t") auto
qed simp

lemma parse_render_crlf:
  assumes ls: "list_all line_ok ls" "ls \<noteq> []"
  shows "parse_fm (render ls body) = (fold parse_fm_line ls Map.empty, replace_crlf body)"
proof -
  define T where "T = join [10] ls"
  have no: "list_all (\<lambda>l. 10 \<notin> set l) ls" "list_all (\<lambda>l. 13 \<notin> set l) ls"
    using ls by (auto simp: line_ok_def list_all_iff)
  have "13 \<notin> set T" unfolding T_def using no(2) by (intro join_no) simp_all
  then have cr: "replace_crlf (render ls body) =
      (fence @ [10]) @ T @ (10 # fence) @ 10 # replace_crlf body"
    using replace_crlf_append [of "fence @ [10] @ T @ (10 # fence) @ [10]" body]
    by (simp add: render_def T_def fence_def)
  have "find_sub (10 # fence) (T @ (10 # fence) @ 10 # replace_crlf body) = Some (length T)"
  proof (rule find_sub_skip, intro allI impI notI)
    fix j
    assume j: "j < length T"
      and eq: "take (length (10 # fence)) (drop j (T @ (10 # fence) @ 10 # replace_crlf body)) = 10 # fence"
    let ?W = "T @ (10 # fence) @ 10 # replace_crlf body"
    have l: "Suc j < length ?W" using j by simp
    have d: "drop j ?W = ?W ! j # ?W ! Suc j # drop (Suc (Suc j)) ?W"
      using l by (metis Cons_nth_drop_Suc Suc_lessD)
    have "?W ! j = 10 \<and> ?W ! Suc j = 45"
      using eq unfolding d by (simp add: fence_def)
    moreover from this have "Suc j < length T \<and> T ! Suc j \<noteq> 45"
      using join_newline_followed [OF ls, folded T_def] j by (simp add: nth_append)
    ultimately show False by (simp add: nth_append)
  qed
  then show ?thesis
    using split_join [OF no(1) ls(2)] unfolding parse_fm_def Let_def cr
    by (simp only: strip_prefix_append option.case) (simp add: T_def fence_def strip_prefix_def)
qed

lemma parse_render:
  "list_all line_ok ls \<Longrightarrow> ls \<noteq> [] \<Longrightarrow> 13 \<notin> set body \<Longrightarrow>
    parse_fm (render ls body) = (fold parse_fm_line ls Map.empty, body)"
  by (simp add: parse_render_crlf replace_crlf_no_cr)

text \<open>Clean keys and values: no colon in the key, nothing to trim.\<close>

definition clean :: "ustr \<Rightarrow> bool" where
  "clean s \<longleftrightarrow> s \<noteq> [] \<and> trim s = s \<and> 10 \<notin> set s \<and> 13 \<notin> set s"

lemma parse_fm_line_clean:
  assumes "58 \<notin> set k" and "clean k" and "clean v"
  shows "parse_fm_line (fm_line (k, v)) fm = fm(k \<mapsto> v)"
proof -
  have "find_sub [58] (k @ [58] @ 32 # v) = Some (length k)"
  proof (rule find_sub_skip, intro allI impI notI)
    fix j
    assume "j < length k" "take (length [58]) (drop j (k @ [58] @ 32 # v)) = [58 :: nat]"
    then have "k ! j = 58" by (simp add: take_Suc_conv_app_nth nth_append take_Suc hd_drop_conv_nth)
    with \<open>j < length k\<close> assms(1) show False by (auto simp: in_set_conv_nth)
  qed
  moreover have "trim (32 # v) = trim v" by (simp add: trim_def trim_start_def is_ws_def)
  ultimately show ?thesis using assms by (simp add: parse_fm_line_def fm_line_def clean_def)
qed

lemma fm_line_ok:
  "clean k \<Longrightarrow> clean v \<Longrightarrow> hd k \<noteq> 45 \<Longrightarrow> line_ok (fm_line (k, v))"
  by (auto simp: line_ok_def fm_line_def clean_def)


lemma clean_lit: "list_all (\<lambda>c. \<not> is_ws c) s \<Longrightarrow> s \<noteq> [] \<Longrightarrow> clean s"
  using trim_id [of s] by (auto simp: clean_def list_all_iff) (fastforce simp: is_ws_def)+

lemma hex_clean:
  assumes "hex_contract enc dec" and "b \<noteq> []"
  shows "clean (enc b)"
proof (rule clean_lit)
  have "length (enc b) = 2 * length b" using assms(1) by (simp add: hex_contract_def)
  then show "enc b \<noteq> []" using assms(2) by auto
  show "list_all (\<lambda>c. \<not> is_ws c) (enc b)"
    using assms(1) by (auto simp: hex_contract_def list_all_iff hex_digit_not_ws)
qed

lemma key_facts:
  "clean MEM_SIGNER" "clean MEM_SIG" "58 \<notin> set MEM_SIGNER" "58 \<notin> set MEM_SIG"
  "hd MEM_SIGNER \<noteq> 45" "hd MEM_SIG \<noteq> 45" "MEM_SIGNER \<noteq> MEM_SIG"
  by (auto intro!: clean_lit simp: MEM_SIGNER_def MEM_SIG_def lit_def is_ws_def)

text \<open>A signed object: the two provenance lines in front of a body.\<close>

definition signed_object :: "ustr \<Rightarrow> ustr \<Rightarrow> ustr \<Rightarrow> ustr" where
  "signed_object signer sig_hex body =
     render [fm_line (MEM_SIGNER, signer), fm_line (MEM_SIG, sig_hex)] body"

lemma parse_signed_object:
  assumes "clean signer" and "clean sig_hex" and "13 \<notin> set body"
  shows "parse_fm (signed_object signer sig_hex body) = ([MEM_SIGNER \<mapsto> signer, MEM_SIG \<mapsto> sig_hex], body)"
  unfolding signed_object_def using assms key_facts
  by (subst parse_render) (simp_all add: fm_line_ok parse_fm_line_clean)

subsection \<open>Properties\<close>

text \<open>
  Verify-on-arrival: with a roster, an object is accepted only if some rostered key has signed its
  address together with its normalised body, and a \<^verbatim>\<open>Content\<close> object's address is the hash of
  that body; conversely such an object is accepted, with the class the checks give it.
\<close>

theorem accept_requires_provenance:
  "accept c addr text (Some roster) = Inr cls \<longleftrightarrow>
    (\<exists>fm body signer sig_hex vk raw sg. parse_fm text = (fm, body) \<and>
       cls = classify c addr fm body \<and>
       (cls = Content \<and> addr_of c body = addr \<or>
        cls = C2 \<and> fm MEM_ADDR = Some addr \<and> fm MEM_KIND = Some (lit ''episode'')) \<and>
       fm MEM_SIGNER = Some signer \<and> signer \<noteq> [] \<and> fm MEM_SIG = Some sig_hex \<and> sig_hex \<noteq> [] \<and>
       roster signer = Some vk \<and> hex_decode c sig_hex = Some raw \<and> sig_from_slice c raw = Some sg \<and>
       vk_verify c vk (signing_payload addr body) sg)"
  unfolding accept_iff
  by (cases "parse_fm text") (auto simp: vouched_def classify_def)

text \<open>
  The verified pull, completely, for plain addresses: the addresses pulled are exactly the requested ones whose remote
  object passes acceptance, in order; the others are rejected, in order; and the local store afterwards holds the
  remote texts for the pulled addresses and is unchanged everywhere else.
\<close>

theorem pull_verified:
  assumes "pull c remote local addrs roster = (p, r, l)" and "has_full remote" and "list_all plain addrs"
  shows "p = filter (\<lambda>a. \<exists>t. full remote a = Some t \<and> acceptable c roster a t) addrs \<and>
    map fst r = filter (\<lambda>a. \<not> (\<exists>t. full remote a = Some t \<and> acceptable c roster a t)) addrs \<and>
    full l = (\<lambda>a. if a \<in> set p then full remote a else full local a)"
  using pull_loop_spec [OF assms(2,3) _ assms(1) [unfolded pull_def]] by (auto simp: fun_eq_iff)

text \<open>A store with root \<^verbatim>\<open>/m\<close> and one object.\<close>

definition demo_store :: "ustr \<Rightarrow> ustr \<Rightarrow> mem_store" where
  "demo_store a t = with_dir FULL_DIR \<lparr>st_root = [[109]], st_dirs = (\<lambda>p. p = []), st_files = [[[109], FULL_DIR, a @ lit ''.md''] \<mapsto> t]\<rparr>"

lemma demo_store_simps:
  "full (demo_store a t) = [a \<mapsto> t]" "has_full (demo_store a t)" "st_root (demo_store a t) = [[109]]"
  "st_files (demo_store a t) = [[[109], FULL_DIR, a @ lit ''.md''] \<mapsto> t]"
  by (auto simp: demo_store_def full_def has_full_def fun_eq_iff with_dir_def)

definition demo_crypto :: "(nat, bytes) crypto" where
  "demo_crypto = \<lparr>sha256 = (\<lambda>m. of_nat (length m) # replicate 31 0), hex_encode = hex_enc_ref,
     hex_decode = hex_dec_ref, sig_from_slice = Some, vk_verify = (\<lambda>k m sg. sg = take 4 m)\<rparr>"

lemma pull_verified_witness:
  "\<exists>p r l. pull demo_crypto (demo_store [97] [98]) (demo_store [99] [100]) [[97], [98]] None = (p, r, l) \<and>
      p = [] \<and> map fst r = [[97], [98]] \<and> full l = [[99] \<mapsto> [100]]"
proof -
  obtain p r l where run: "pull demo_crypto (demo_store [97] [98]) (demo_store [99] [100]) [[97], [98]] None = (p, r, l)" by (rule prod_cases3)
  have "length (addr_of demo_crypto [98]) = 16"
    using hex_ref_contract by (simp add: addr_of_def demo_crypto_def hex_contract_def)
  then have "addr_of demo_crypto [98] \<noteq> [97]" by auto
  then have "\<not> acceptable demo_crypto None [97] [98]"
    by (simp add: acceptable_def accept_iff parse_fm_def classify_def strip_prefix_def fence_def)
  with pull_verified [OF run demo_store_simps(2)] run show ?thesis by (auto simp: fun_eq_iff demo_store_simps plain_def)
qed

text \<open>
  Objects written with clean lines and a body without carriage returns are read back as written:
  a signed object whose address is its content hash is accepted as \<^verbatim>\<open>Content\<close> when the key of its
  signer verifies the signature.
\<close>

theorem signed_object_accepted:
  assumes "clean signer" and "clean sig_hex" and "13 \<notin> set body"
    and "roster signer = Some vk" and "hex_decode c sig_hex = Some raw" and "sig_from_slice c raw = Some sg"
    and "vk_verify c vk (signing_payload (addr_of c body) body) sg"
  shows "accept c (addr_of c body) (signed_object signer sig_hex body) (Some roster) = Inr Content"
  using assms key_facts
  by (auto simp: accept_iff parse_signed_object classify_def vouched_def clean_def)

lemma signed_object_accepted_witness:
  "accept demo_crypto (addr_of demo_crypto [104, 105])
    (signed_object [110] (hex_enc_ref (take 4 (signing_payload (addr_of demo_crypto [104, 105]) [104, 105]))) [104, 105])
    (Some [[110] \<mapsto> 7]) = Inr Content"
proof (rule signed_object_accepted)
  let ?m = "take 4 (signing_payload (addr_of demo_crypto [104, 105]) [104, 105])"
  show "clean [110]" by (rule clean_lit) (simp_all add: is_ws_def)
  have "signing_payload a b \<noteq> []" for a b
    by (simp add: signing_payload_def utf8_def)
  then have "?m \<noteq> []" by simp
  then show "clean (hex_enc_ref ?m)"
    using hex_ref_contract by (intro hex_clean)
  show "hex_decode demo_crypto (hex_enc_ref ?m) = Some ?m"
    using hex_ref_contract by (simp add: demo_crypto_def hex_contract_dec)
qed (simp_all add: demo_crypto_def)


text \<open>
  The normalisation is not idempotent on CR CR LF, and reading normalises once more than writing: a body
  containing it gets an address over one carriage return, but the reader re-hashes it without, so the object
  is refused under its own content address (unless the two truncated hashes collide).
\<close>

theorem crcrlf_object_rejected:
  assumes hash: "take 16 (hex_encode c (sha256 c (utf8 [97, 10, 98, 10]))) \<noteq>
      take 16 (hex_encode c (sha256 c (utf8 [97, 13, 10, 98, 10])))"
    and ls: "list_all line_ok ls" "ls \<noteq> []" and kind: "fold parse_fm_line ls Map.empty MEM_ADDR = None"
  shows "accept c (addr_of c [97, 13, 13, 10, 98]) (render ls [97, 13, 13, 10, 98]) roster = Inl IntegrityFail"
proof -
  have n: "norm [97, 13, 13, 10, 98] = [97, 13, 10, 98, 10]" "norm [97, 13, 10, 98] = [97, 10, 98, 10]"
    by (simp_all add: norm_def trim_def trim_end_def trim_start_def is_ws_def)
  have "replace_crlf [97, 13, 13, 10, 98] = [97, 13, 10, 98]" by simp
  then show ?thesis
    using hash kind by (simp add: accept_def parse_render_crlf [OF ls] classify_def addr_of_def n Let_def)
qed

lemma crcrlf_object_rejected_witness:
  "accept demo_crypto (addr_of demo_crypto [97, 13, 13, 10, 98])
    (render [fm_line (MEM_SIGNER, [110])] [97, 13, 13, 10, 98]) None = Inl IntegrityFail"
proof (rule crcrlf_object_rejected)
  have n: "clean [110]" by (rule clean_lit) (simp_all add: is_ws_def)
  show "list_all line_ok [fm_line (MEM_SIGNER, [110])]" using n key_facts by (simp add: fm_line_ok)
  show "fold parse_fm_line [fm_line (MEM_SIGNER, [110])] Map.empty MEM_ADDR = None"
    using n key_facts by (simp add: parse_fm_line_clean) (simp add: MEM_ADDR_def MEM_SIGNER_def lit_def)
qed (simp_all add: demo_crypto_def hex_enc_ref_def utf8_def utf8_char_def nibble_def)

end
