(* ===== verification/Swarm_Transport.thy ===== *)
theory Swarm_Transport
  imports Swarm
begin

text \<open>
  \<^verbatim>\<open>sp_swarm/src/transport.rs\<close>: the length-prefixed frames, the mutual challenge-response
  against the roster, the serving loop and the two verified pulls. A bidirectional QUIC stream is the
  list of bytes one side sends and the list it receives; a side's output is a function of what it has
  received. Ed25519 signing keys and their bytes are added to \<open>crypto\<close>; the nonces are arguments.
\<close>

record ('vk, 'sg, 'sk) keys = "('vk, 'sg) crypto" +
  sk_sign :: "'sk \<Rightarrow> bytes \<Rightarrow> 'sg"
  sg_to_bytes :: "'sg \<Rightarrow> bytes"
  vk_of :: "'sk \<Rightarrow> 'vk"

text \<open>The documented behaviour of the signature library.\<close>

definition keys_contract :: "('vk, 'sg, 'sk) keys \<Rightarrow> bool" where
  "keys_contract c \<longleftrightarrow> hex_contract (hex_encode c) (hex_decode c) \<and>
     (\<forall>k m. vk_verify c (vk_of c k) m (sk_sign c k m)) \<and>
     (\<forall>s. sig_from_slice c (sg_to_bytes c s) = Some s \<and> length (sg_to_bytes c s) = 64)"

record 'sk identity =
  node_id :: ustr
  sk :: 'sk

subsection \<open>Frames\<close>

datatype t_error = StreamEnded | FrameTooLarge | BadUtf8 | Untrusted | BadSigBytes | SigBad | PeerRejected

definition wr :: "bytes \<Rightarrow> bytes" where
  "wr b = to_le 4 (of_nat (length b) :: u32) @ b"

definition rd :: "bytes \<Rightarrow> t_error + bytes \<times> bytes" where
  "rd r =
     (if length r < 4 then Inl StreamEnded
      else let n = unat (from_le (take 4 r) :: u32)
           in if 64 * 1024 * 1024 < n then Inl FrameTooLarge
              else if length (drop 4 r) < n then Inl StreamEnded
              else Inr (take n (drop 4 r), drop n (drop 4 r)))"

lemma rd_wr: "length b \<le> 64 * 1024 * 1024 \<Longrightarrow> rd (wr b @ rest) = Inr (b, rest)"
  by (simp add: rd_def wr_def Let_def unat_of_nat)

lemma rd_wr_large: "64 * 1024 * 1024 < length b \<Longrightarrow> length b < 2 ^ 32 \<Longrightarrow> rd (wr b @ rest) = Inl FrameTooLarge"
  by (simp add: rd_def wr_def Let_def unat_of_nat)

lemma rd_shorter: "rd r = Inr (b, rest) \<Longrightarrow> length rest < length r"
  by (auto simp: rd_def Let_def split: if_splits)

subsection \<open>Authentication\<close>

definition OK_MSG :: bytes where "OK_MSG = [79, 75]"
definition NO_MSG :: bytes where "NO_MSG = [78, 79]"

text \<open>Sent bytes, and the peer id with the unread rest of the stream, or the error.\<close>

definition client_auth ::
  "('vk, 'sg, 'sk) keys \<Rightarrow> 'sk identity \<Rightarrow> 'vk roster \<Rightarrow> bytes \<Rightarrow> bytes \<Rightarrow> bytes \<times> (t_error + ustr \<times> bytes)" where
  "client_auth c me roster nc r =
     (let out1 = wr (utf8 (node_id me)) @ wr nc in
      case rd r of Inl e \<Rightarrow> (out1, Inl e) | Inr (idb, r1) \<Rightarrow>
      (case from_utf8 idb of None \<Rightarrow> (out1, Inl BadUtf8) | Some peer_id \<Rightarrow>
      (case rd r1 of Inl e \<Rightarrow> (out1, Inl e) | Inr (ns, r2) \<Rightarrow>
      (case rd r2 of Inl e \<Rightarrow> (out1, Inl e) | Inr (sgb, r3) \<Rightarrow>
      (case sig_from_slice c sgb of None \<Rightarrow> (out1, Inl BadSigBytes) | Some sig_c \<Rightarrow>
      (case roster peer_id of None \<Rightarrow> (out1, Inl Untrusted) | Some vk \<Rightarrow>
       if \<not> vk_verify c vk nc sig_c then (out1, Inl SigBad)
       else let out2 = out1 @ wr (sg_to_bytes c (sk_sign c (sk me) ns)) in
         (case rd r3 of Inl e \<Rightarrow> (out2, Inl e) | Inr (v, r4) \<Rightarrow>
            if v \<noteq> OK_MSG then (out2, Inl PeerRejected) else (out2, Inr (peer_id, r4)))))))))"

definition server_auth ::
  "('vk, 'sg, 'sk) keys \<Rightarrow> 'sk identity \<Rightarrow> 'vk roster \<Rightarrow> bytes \<Rightarrow> bytes \<Rightarrow> bytes \<times> (t_error + ustr \<times> bytes)" where
  "server_auth c me roster ns r =
     (case rd r of Inl e \<Rightarrow> ([], Inl e) | Inr (idb, r1) \<Rightarrow>
      (case from_utf8 idb of None \<Rightarrow> ([], Inl BadUtf8) | Some peer_id \<Rightarrow>
      (case rd r1 of Inl e \<Rightarrow> ([], Inl e) | Inr (nc, r2) \<Rightarrow>
      (case roster peer_id of None \<Rightarrow> (wr NO_MSG, Inl Untrusted) | Some vk \<Rightarrow>
       let out = wr (utf8 (node_id me)) @ wr ns @ wr (sg_to_bytes c (sk_sign c (sk me) nc)) in
       (case rd r2 of Inl e \<Rightarrow> (out, Inl e) | Inr (sgb, r3) \<Rightarrow>
       (case sig_from_slice c sgb of None \<Rightarrow> (out, Inl BadSigBytes) | Some sig_s \<Rightarrow>
        if \<not> vk_verify c vk ns sig_s then (out @ wr NO_MSG, Inl SigBad)
        else (out @ wr OK_MSG, Inr (peer_id, r3))))))))"


subsection \<open>Serving\<close>

text \<open>
  \<open>names\<close> is the directory listing of \<^verbatim>\<open>full/\<close> in the order the system gives it. The index holds
  every object with a decodable \<^verbatim>\<open>mem_c2\<close> field (\<^verbatim>\<open>similarity.rs::index_store\<close>).
\<close>

definition MEM_C2 :: ustr where "MEM_C2 = lit ''mem_c2''"

definition index_store :: "(ustr \<Rightarrow> bytes option) \<Rightarrow> mem_store \<Rightarrow> ustr list \<Rightarrow> c2_index" where
  "index_store dec_hex st names =
     fold (\<lambda>addr idx. case full st addr of None \<Rightarrow> idx | Some txt \<Rightarrow>
             (case fst (parse_fm txt) MEM_C2 of None \<Rightarrow> idx | Some h \<Rightarrow>
                (case sig_from_hex dec_hex h of None \<Rightarrow> idx | Some s \<Rightarrow> c2_insert addr s idx)))
       names c2_new"

definition MISS_MSG :: bytes where "MISS_MSG = utf8 (lit ''MISS'')"

definition sim_reply :: "('vk, 'sg, 'sk) keys \<Rightarrow> mem_store \<Rightarrow> ustr list \<Rightarrow> ustr \<Rightarrow> ustr" where
  "sim_reply c st names q =
     (case find_sub [58] q of None \<Rightarrow> [] | Some i \<Rightarrow>
        (case sig_from_hex (hex_decode c) (take i q) of None \<Rightarrow> [] | Some s \<Rightarrow>
           (let k = max (case parse_usize (drop (i + 1) q) of Some n \<Rightarrow> n | None \<Rightarrow> 5) 1
            in join [10] (map (\<lambda>(a, h). a @ [32] @ decimal h)
                 (find_similar (index_store (hex_decode c) st names) s k)))))"

datatype cmd_action = Reply bytes | NoReply | Stop

definition serve_cmd :: "('vk, 'sg, 'sk) keys \<Rightarrow> mem_store \<Rightarrow> ustr list \<Rightarrow> bytes \<Rightarrow> cmd_action" where
  "serve_cmd c st names cmd =
     (if cmd = utf8 (lit ''LIST'') then Reply (utf8 (join [10] (sort names)))
      else if take 4 cmd = utf8 (lit ''GET:'') then
        (case read_object st FULL_DIR (from_utf8_lossy (drop 4 cmd)) of Some txt \<Rightarrow> Reply (utf8 txt) | None \<Rightarrow> Reply MISS_MSG)
      else if take 4 cmd = utf8 (lit ''SIM:'') then
        Reply (utf8 (sim_reply c st names (from_utf8_lossy (drop 4 cmd))))
      else if cmd = utf8 (lit ''DONE'') then Stop
      else NoReply)"

function serve_loop :: "('vk, 'sg, 'sk) keys \<Rightarrow> mem_store \<Rightarrow> ustr list \<Rightarrow> bytes \<Rightarrow> bytes" where
  "serve_loop c st names r =
     (case rd r of
        Inl _ \<Rightarrow> []
      | Inr (cmd, rest) \<Rightarrow>
          (case serve_cmd c st names cmd of
             Reply b \<Rightarrow> wr b @ serve_loop c st names rest
           | NoReply \<Rightarrow> serve_loop c st names rest
           | Stop \<Rightarrow> []))"
  by pat_completeness auto
termination
  by (relation "measure (\<lambda>(c, st, names, r). length r)") (auto dest: rd_shorter)

declare serve_loop.simps [simp del]

definition serve_conn ::
  "('vk, 'sg, 'sk) keys \<Rightarrow> 'sk identity \<Rightarrow> 'vk roster \<Rightarrow> bytes \<Rightarrow> mem_store \<Rightarrow> ustr list \<Rightarrow> bytes \<Rightarrow> bytes" where
  "serve_conn c me roster ns st names r =
     (case server_auth c me roster ns r of
        (out, Inl _) \<Rightarrow> out
      | (out, Inr (_, rest)) \<Rightarrow> out @ serve_loop c st names rest)"

subsection \<open>Pulling\<close>

text \<open>The loop of GET requests; an error leaves the objects already written in place.\<close>

fun get_loop ::
  "('vk, 'sg, 'sk) keys \<Rightarrow> 'vk roster \<Rightarrow> ustr list \<Rightarrow> bytes \<Rightarrow> mem_store \<Rightarrow> ustr list \<Rightarrow> (ustr \<times> reject) list \<Rightarrow>
     (t_error + ustr list \<times> (ustr \<times> reject) list) \<times> mem_store" where
  "get_loop c roster [] r local pulled rejected = (Inr (pulled, rejected), local)"
| "get_loop c roster (addr # addrs) r local pulled rejected =
     (case rd r of
        Inl e \<Rightarrow> (Inl e, local)
      | Inr (resp, r') \<Rightarrow>
          (if resp = MISS_MSG then get_loop c roster addrs r' local pulled (rejected @ [(addr, Missing)])
           else (let txt = from_utf8_lossy resp in
                 case accept (crypto.truncate c) addr txt (Some roster) of
                   Inl e \<Rightarrow> get_loop c roster addrs r' local pulled (rejected @ [(addr, e)])
                 | Inr _ \<Rightarrow> get_loop c roster addrs r' (write_object (with_dir FULL_DIR local) FULL_DIR addr txt)
                             (pulled @ [addr]) rejected)))"

definition non_empty_lines :: "bytes \<Rightarrow> ustr list" where
  "non_empty_lines b = filter (\<lambda>l. l \<noteq> []) (str_lines (from_utf8_lossy b))"

text \<open>\<open>order\<close>: the order in which the hash set difference is walked (some permutation).\<close>

definition pull_from ::
  "('vk, 'sg, 'sk) keys \<Rightarrow> 'sk identity \<Rightarrow> 'vk roster \<Rightarrow> bytes \<Rightarrow> (ustr list \<Rightarrow> ustr list) \<Rightarrow> bytes \<Rightarrow> mem_store \<Rightarrow>
     (t_error + ustr list \<times> (ustr \<times> reject) list) \<times> mem_store" where
  "pull_from c me roster nc order r local =
     (case client_auth c me roster nc r of
        (_, Inl e) \<Rightarrow> (Inl e, local)
      | (_, Inr (_, r1)) \<Rightarrow>
          (case rd r1 of
             Inl e \<Rightarrow> (Inl e, local)
           | Inr (hv, r2) \<Rightarrow>
               (let want = filter (\<lambda>a. full local a = None) (remdups (non_empty_lines hv))
                in get_loop c roster (order want) r2 local [] [])))"

definition discover_similar ::
  "('vk, 'sg, 'sk) keys \<Rightarrow> 'sk identity \<Rightarrow> 'vk roster \<Rightarrow> bytes \<Rightarrow> bytes \<Rightarrow> mem_store \<Rightarrow>
     (t_error + ustr list \<times> (ustr \<times> reject) list) \<times> mem_store" where
  "discover_similar c me roster nc r local =
     (case client_auth c me roster nc r of
        (_, Inl e) \<Rightarrow> (Inl e, local)
      | (_, Inr (_, r1)) \<Rightarrow>
          (case rd r1 of
             Inl e \<Rightarrow> (Inl e, local)
           | Inr (resp, r2) \<Rightarrow>
               (let cands = map hd (filter (\<lambda>ws. ws \<noteq> []) (map split_whitespace (non_empty_lines resp)));
                    want = filter (\<lambda>a. full local a = None) cands
                in get_loop c roster want r2 local [] [])))"


subsection \<open>Honest handshakes\<close>

abbreviation frame_ok :: "bytes \<Rightarrow> bool" where
  "frame_ok b \<equiv> length b \<le> 64 * 1024 * 1024"

definition client_hello :: "('vk, 'sg, 'sk) keys \<Rightarrow> 'sk identity \<Rightarrow> bytes \<Rightarrow> bytes \<Rightarrow> bytes" where
  "client_hello c me nc ns = wr (utf8 (node_id me)) @ wr nc @ wr (sg_to_bytes c (sk_sign c (sk me) ns))"

definition server_hello :: "('vk, 'sg, 'sk) keys \<Rightarrow> 'sk identity \<Rightarrow> bytes \<Rightarrow> bytes \<Rightarrow> bytes" where
  "server_hello c me nc ns = wr (utf8 (node_id me)) @ wr ns @ wr (sg_to_bytes c (sk_sign c (sk me) nc)) @ wr OK_MSG"

lemma server_auth_honest:
  assumes "keys_contract c" and "ustr_ok (node_id cl)" and "frame_ok (utf8 (node_id cl))" and "frame_ok nc"
    and "roster (node_id cl) = Some (vk_of c (sk cl))"
  shows "server_auth c sv roster ns (client_hello c cl nc ns @ rest) =
    (server_hello c sv nc ns, Inr (node_id cl, rest))"
  using assms unfolding keys_contract_def
  by (simp add: server_auth_def client_hello_def server_hello_def rd_wr from_utf8_utf8 append.assoc)

lemma client_auth_honest:
  assumes "keys_contract c" and "ustr_ok (node_id sv)" and "frame_ok (utf8 (node_id sv))" and "frame_ok ns"
    and "roster (node_id sv) = Some (vk_of c (sk sv))"
  shows "client_auth c cl roster nc (server_hello c sv nc ns @ rest) =
    (client_hello c cl nc ns, Inr (node_id sv, rest))"
  using assms unfolding keys_contract_def
  by (simp add: client_auth_def client_hello_def server_hello_def rd_wr from_utf8_utf8 append.assoc OK_MSG_def)




subsection \<open>A pull against an honest server\<close>

definition get_cmd :: "ustr \<Rightarrow> bytes" where
  "get_cmd a = utf8 (lit ''GET:'') @ utf8 a"

definition get_reply :: "mem_store \<Rightarrow> ustr \<Rightarrow> bytes" where
  "get_reply st a = (case full st a of Some txt \<Rightarrow> utf8 txt | None \<Rightarrow> MISS_MSG)"

text \<open>What the client sends after authentication: LIST, one GET per wanted address, DONE.\<close>

definition pull_requests :: "ustr list \<Rightarrow> bytes" where
  "pull_requests want =
     wr (utf8 (lit ''LIST'')) @ concat (map (\<lambda>a. wr (get_cmd a)) want) @ wr (utf8 (lit ''DONE''))"

text \<open>A store that fits the protocol: text files of one frame, none of them the word MISS.\<close>

definition store_ok :: "mem_store \<Rightarrow> bool" where
  "store_ok st \<longleftrightarrow> has_full st \<and> (\<forall>a t. full st a = Some t \<longrightarrow> ustr_ok t \<and> frame_ok (utf8 t) \<and> utf8 t \<noteq> MISS_MSG)"

definition listable :: "ustr \<Rightarrow> bool" where
  "listable a \<longleftrightarrow> ustr_ok a \<and> a \<noteq> [] \<and> 10 \<notin> set a \<and> 13 \<notin> set a"

definition name_ok :: "ustr \<Rightarrow> bool" where
  "name_ok a \<longleftrightarrow> listable a \<and> plain a \<and> length (utf8 a) \<le> 255"

lemma utf8_lits:
  "utf8 (lit ''LIST'') = [76, 73, 83, 84]" "utf8 (lit ''GET:'') = [71, 69, 84, 58]"
  "utf8 (lit ''SIM:'') = [83, 73, 77, 58]" "utf8 (lit ''DONE'') = [68, 79, 78, 69]"
  "MISS_MSG = [77, 73, 83, 83]"
  by (simp_all add: MISS_MSG_def lit_def utf8_def utf8_char_def)

lemma serve_get:
  assumes "has_full st" and "name_ok a"
  shows "serve_cmd c st names (get_cmd a) = Reply (get_reply st a)"
  using assms(2) by (simp add: serve_cmd_def get_cmd_def utf8_lits name_ok_def listable_def lossy_utf8 get_reply_def
      read_full [OF assms(1)] split: option.split)

lemma serve_loop_pull:
  assumes "has_full st" and "list_all name_ok want"
  shows "serve_loop c st names (pull_requests want) =
    wr (utf8 (join [10] (sort names))) @ concat (map (\<lambda>a. wr (get_reply st a)) want)"
proof -
  have fin: "serve_loop c st names (wr (utf8 (lit ''DONE''))) = []"
    using rd_wr [of "utf8 (lit ''DONE'')" "[]"]
    by (subst serve_loop.simps) (simp add: serve_cmd_def utf8_lits)
  have gets: "list_all name_ok ws \<Longrightarrow>
    serve_loop c st names (concat (map (\<lambda>a. wr (get_cmd a)) ws) @ wr (utf8 (lit ''DONE''))) =
    concat (map (\<lambda>a. wr (get_reply st a)) ws)" for ws
  proof (induction ws)
    case (Cons a ws)
    then have "frame_ok (get_cmd a)" by (simp add: name_ok_def get_cmd_def utf8_lits)
    then have "rd (wr (get_cmd a) @ concat (map (\<lambda>a. wr (get_cmd a)) ws) @ wr (utf8 (lit ''DONE''))) =
        Inr (get_cmd a, concat (map (\<lambda>a. wr (get_cmd a)) ws) @ wr (utf8 (lit ''DONE'')))"
      by (rule rd_wr)
    then show ?case using Cons by (subst serve_loop.simps) (simp add: serve_get [OF assms(1)])
  qed (simp add: fin)
  have "serve_cmd c st names (utf8 (lit ''LIST'')) = Reply (utf8 (join [10] (sort names)))"
    by (simp add: serve_cmd_def)
  moreover have "frame_ok (utf8 (lit ''LIST''))" by (simp add: utf8_lits)
  ultimately show ?thesis unfolding pull_requests_def
    by (subst serve_loop.simps) (simp add: rd_wr gets [OF assms(2)])
qed

lemma get_loop_honest:
  assumes "store_ok st"
  shows "list_all name_ok want \<Longrightarrow>
    \<exists>p' q' l. get_loop c roster want (concat (map (\<lambda>a. wr (get_reply st a)) want)) local p q = (Inr (p', q'), l) \<and>
      (\<forall>a. full l a = (if a \<in> set want \<and> (\<exists>t. full st a = Some t \<and> acceptable (crypto.truncate c) (Some roster) a t)
                       then full st a else full local a))"
proof (induction want arbitrary: local p q)
  case (Cons a want)
  have fr: "frame_ok (get_reply st a)"
    using assms by (auto simp: get_reply_def store_ok_def utf8_lits split: option.split)
  note r = rd_wr [OF fr, of "concat (map (\<lambda>a. wr (get_reply st a)) want)"]
  have IH: "\<exists>p' q' l. get_loop c roster want (concat (map (\<lambda>a. wr (get_reply st a)) want)) local p q = (Inr (p', q'), l) \<and>
      (\<forall>a. full l a = (if a \<in> set want \<and> (\<exists>t. full st a = Some t \<and> acceptable (crypto.truncate c) (Some roster) a t)
                       then full st a else full local a))" for local p q
    using Cons.IH Cons.prems by simp
  show ?case
  proof (cases "full st a")
    case None
    then show ?thesis using IH [of local p "q @ [(a, Missing)]"] r by (auto simp: get_reply_def)
  next
    case (Some t)
    then have t: "get_reply st a = utf8 t" "utf8 t \<noteq> MISS_MSG" "from_utf8_lossy (utf8 t) = t"
      using assms by (auto simp: get_reply_def store_ok_def lossy_utf8)
    show ?thesis
    proof (cases "accept (crypto.truncate c) a t (Some roster)")
      case (Inl e)
      then show ?thesis using IH [of local p "q @ [(a, e)]"] r Some t by (auto simp: acceptable_def)
    next
      case (Inr cls)
      let ?l = "write_object (with_dir FULL_DIR local) FULL_DIR a t"
      have f: "full ?l b = (if b = a then Some t else full local b)" for b
        using Cons.prems by (simp add: write_plain name_ok_def)
      obtain p' q' l where g: "get_loop c roster want (concat (map (\<lambda>a. wr (get_reply st a)) want)) ?l (p @ [a]) q = (Inr (p', q'), l)"
        "\<forall>b. full l b = (if b \<in> set want \<and> (\<exists>t. full st b = Some t \<and> acceptable (crypto.truncate c) (Some roster) b t)
                       then full st b else full ?l b)" using IH by blast
      have "get_loop c roster (a # want) (concat (map (\<lambda>a. wr (get_reply st a)) (a # want))) local p q = (Inr (p', q'), l)"
        using g(1) r t Inr by simp
      then show ?thesis using g(2) f Some Inr by (intro exI conjI) (assumption, auto simp: acceptable_def)
    qed
  qed
qed simp

lemma lines_of_names:
  assumes "list_all listable ns"
  shows "non_empty_lines (utf8 (join [10] ns)) = ns"
proof -
  have ok: "ustr_ok (join [10] ns)" using assms
    by (induction "[10] :: ustr" ns rule: join.induct) (auto simp: listable_def ustr_ok_def scalar_def)
  have "str_lines (join [10] ns) = ns"
  proof (cases "ns = []")
    case False
    have sp: "split_on 10 (join [10] ns) = ns"
      using assms False by (intro split_join) (auto simp: list_all_iff listable_def)
    have "map strip_cr (butlast ns) = butlast ns"
      using assms by (intro map_idI)
        (auto simp: strip_cr_def list_all_iff listable_def dest!: in_set_butlastD last_in_set)
    moreover have "last ns \<noteq> []" using assms False by (auto simp: list_all_iff listable_def)
    ultimately show ?thesis using False by (simp add: str_lines_def sp Let_def)
  qed (simp add: str_lines_def)
  moreover have "filter (\<lambda>l. l \<noteq> []) ns = ns"
    using assms by (auto simp: filter_id_conv list_all_iff listable_def)
  ultimately show ?thesis by (simp add: non_empty_lines_def lossy_utf8 ok)
qed


subsection \<open>Properties\<close>

text \<open>
  Framing: a frame is read back exactly, with the rest of the stream untouched, precisely when its
  payload is at most 64 MiB; a longer one is refused as too large.
\<close>

theorem frame_roundtrip:
  assumes "length b < 2 ^ 32"
  shows "rd (wr b @ rest) = (if length b \<le> 64 * 1024 * 1024 then Inr (b, rest) else Inl FrameTooLarge)"
  using assms rd_wr rd_wr_large by simp

lemma frame_roundtrip_witness: "rd (wr [1, 2, 3] @ [4]) = Inr ([1, 2, 3], [4])"
  using frame_roundtrip [of "[1, 2, 3]" "[4]"] by simp

text \<open>
  The gate: the server authenticates a peer only if its id is on the roster and the peer signed this
  connection's nonce with the rostered key; until then nothing it sends depends on the store.
\<close>

theorem server_gate:
  "(case server_auth c me roster ns r of
      (out, Inr (peer, rest)) \<Rightarrow>
        (\<exists>vk sg. roster peer = Some vk \<and> vk_verify c vk ns sg) \<and>
        serve_conn c me roster ns st names r = out @ serve_loop c st names rest
    | (out, Inl e) \<Rightarrow> serve_conn c me roster ns st names r = out)"
  by (auto simp: server_auth_def serve_conn_def Let_def split: sum.splits option.splits prod.splits)

text \<open>A toy signature scheme for the witnesses: 64-byte signatures that carry one checksum byte.\<close>

definition demo_keys :: "(nat, u8, nat) keys" where
  "demo_keys = \<lparr>sha256 = (\<lambda>m. of_nat (length m) # replicate 31 0), hex_encode = hex_enc_ref,
     hex_decode = hex_dec_ref, sig_from_slice = (\<lambda>b. if length b = 64 then Some (hd b) else None),
     vk_verify = (\<lambda>k m s. s = of_nat (k + length m)), sk_sign = (\<lambda>k m. of_nat (k + length m)),
     sg_to_bytes = (\<lambda>s. s # replicate 63 0), vk_of = id\<rparr>"

lemma demo_keys_contract: "keys_contract demo_keys"
  by (simp add: keys_contract_def demo_keys_def hex_ref_contract)

definition demo_roster :: "nat roster" where
  "demo_roster = [[110] \<mapsto> 7, [109] \<mapsto> 9]"

definition node_n :: "nat identity" where "node_n = \<lparr>node_id = [110], sk = 7\<rparr>"
definition node_m :: "nat identity" where "node_m = \<lparr>node_id = [109], sk = 9\<rparr>"








text \<open>
  Mutual authentication completes: two nodes that hold the keys the other's roster lists authenticate
  each other, over exactly the bytes the other side sends.
\<close>

theorem mutual_auth_completes:
  assumes "keys_contract c" and "ustr_ok (node_id cl)" "frame_ok (utf8 (node_id cl))"
    and "ustr_ok (node_id sv)" "frame_ok (utf8 (node_id sv))" and "frame_ok nc" "frame_ok ns"
    and "roster_s (node_id cl) = Some (vk_of c (sk cl))" and "roster_c (node_id sv) = Some (vk_of c (sk sv))"
  shows "\<exists>cs ss. client_auth c cl roster_c nc ss = (cs, Inr (node_id sv, [])) \<and>
    server_auth c sv roster_s ns cs = (ss, Inr (node_id cl, []))"
  using client_auth_honest [of c sv ns roster_c cl nc "[]"] server_auth_honest [of c cl nc roster_s sv ns "[]"] assms
  by auto

lemma mutual_auth_completes_witness:
  "\<exists>cs ss. client_auth demo_keys node_n demo_roster [1, 2] ss = (cs, Inr ([109], [])) \<and>
    server_auth demo_keys node_m demo_roster [3, 4, 5] cs = (ss, Inr ([110], []))"
proof -
  have u: "ustr_ok [110]" "ustr_ok [109]" "frame_ok (utf8 [110])" "frame_ok (utf8 [109])"
    by (simp_all add: ustr_ok_def scalar_def utf8_def utf8_char_def)
  have "\<exists>cs ss. client_auth demo_keys node_n demo_roster [1, 2] ss = (cs, Inr (node_id node_m, [])) \<and>
    server_auth demo_keys node_m demo_roster [3, 4, 5] cs = (ss, Inr (node_id node_n, []))"
    by (rule mutual_auth_completes [OF demo_keys_contract])
      (use u in \<open>simp_all add: node_n_def node_m_def demo_roster_def demo_keys_def\<close>)
  then show ?thesis by (simp add: node_n_def node_m_def)
qed

text \<open>
  C24. The handshake is a signing oracle for provenance. The server signs the client's challenge before it
  has checked anything but that the claimed id is on the roster, the challenge may be any bytes, and the same
  key signs objects. So somebody without any key who knows one rostered id can make the server sign
  \<^verbatim>\<open>signing_payload(addr, body)\<close> for a body of his choice, and every node that has the server on its
  roster accepts the forged object as \<^verbatim>\<open>Content\<close> signed by the server.
\<close>

theorem handshake_forges_provenance:
  assumes c: "keys_contract c"
    and id: "ustr_ok claimed" "frame_ok (utf8 claimed)" "roster_s claimed = Some vk"
    and payload: "frame_ok (signing_payload (addr_of (crypto.truncate c) body) body)"
    and victim: "roster (node_id sv) = Some (vk_of c (sk sv))" "clean (node_id sv)" and body: "13 \<notin> set body"
  shows "\<exists>sgb. server_auth c sv roster_s ns
      (wr (utf8 claimed) @ wr (signing_payload (addr_of (crypto.truncate c) body) body)) =
        (wr (utf8 (node_id sv)) @ wr ns @ wr sgb, Inl StreamEnded) \<and>
    accept (crypto.truncate c) (addr_of (crypto.truncate c) body)
      (signed_object (node_id sv) (hex_encode c sgb) body) (Some roster) = Inr Content"
proof -
  let ?m = "signing_payload (addr_of (crypto.truncate c) body) body"
  let ?s = "sg_to_bytes c (sk_sign c (sk sv) ?m)"
  have hex: "hex_contract (hex_encode c) (hex_decode c)" and ver: "vk_verify c (vk_of c (sk sv)) ?m (sk_sign c (sk sv) ?m)"
    and sg: "sig_from_slice c ?s = Some (sk_sign c (sk sv) ?m)" "length ?s = 64"
    using c by (simp_all add: keys_contract_def)
  have "server_auth c sv roster_s ns (wr (utf8 claimed) @ wr ?m) =
      (wr (utf8 (node_id sv)) @ wr ns @ wr ?s, Inl StreamEnded)"
    using rd_wr [OF id(2)] rd_wr [OF payload, of "[]"] id
    by (simp add: server_auth_def from_utf8_utf8 Let_def) (simp add: rd_def)
  moreover have "clean (hex_encode c ?s)" using hex sg(2) by (intro hex_clean) auto
  then have "accept (crypto.truncate c) (addr_of (crypto.truncate c) body)
      (signed_object (node_id sv) (hex_encode c ?s) body) (Some roster) = Inr Content"
    using victim body sg ver hex
    by (intro signed_object_accepted) (simp_all add: crypto.defs hex_contract_dec)
  ultimately show ?thesis by blast
qed


lemma handshake_forges_provenance_witness:
  "\<exists>sgb. server_auth demo_keys node_m demo_roster [3, 4, 5]
      (wr (utf8 [110]) @ wr (signing_payload (addr_of (crypto.truncate demo_keys) [104, 105]) [104, 105])) =
        (wr (utf8 [109]) @ wr [3, 4, 5] @ wr sgb, Inl StreamEnded) \<and>
    accept (crypto.truncate demo_keys) (addr_of (crypto.truncate demo_keys) [104, 105])
      (signed_object [109] (hex_encode demo_keys sgb) [104, 105]) (Some demo_roster) = Inr Content"
proof -
  let ?a = "addr_of (crypto.truncate demo_keys) [104, 105]"
  have "list_all hex_digit ?a \<and> length ?a \<le> 16"
    using hex_ref_contract
    by (auto simp: addr_of_def crypto.defs demo_keys_def hex_contract_def list_all_iff dest: in_set_takeD)
  then have "ascii ?a" "length ?a \<le> 16" by (auto simp: ascii_def hex_digit_def list_all_iff)
  then have "length (utf8 ?a) \<le> 16" by (simp add: utf8_ascii)
  then have p: "frame_ok (signing_payload ?a [104, 105])"
    by (simp add: signing_payload_def norm_def trim_def trim_start_def trim_end_def is_ws_def utf8_def utf8_char_def)
  have n: "ustr_ok [110]" "frame_ok (utf8 [110])" "demo_roster [110] = Some 7" "clean (node_id node_m)"
    "demo_roster (node_id node_m) = Some (vk_of demo_keys (sk node_m))" "node_id node_m = [109]"
    by (auto simp: ustr_ok_def scalar_def utf8_def utf8_char_def demo_roster_def demo_keys_def node_m_def is_ws_def
        intro!: clean_lit)
  from handshake_forges_provenance [where sv = node_m and roster = demo_roster and roster_s = demo_roster
      and ns = "[3, 4, 5]", OF demo_keys_contract n(1-3) p n(5,4)]
  show ?thesis
    unfolding n(6) by simp
qed

text \<open>
  C25. An honest pull converges in one round: between two nodes that authenticate, with a store that fits
  the protocol, the client ends with every object it had unchanged and, of the server's other objects, exactly
  the acceptable ones, in whatever order the difference is walked.
\<close>

theorem honest_pull_converges:
  assumes "keys_contract c" and "ustr_ok (node_id cl)" "frame_ok (utf8 (node_id cl))"
    and "ustr_ok (node_id sv)" "frame_ok (utf8 (node_id sv))" and "frame_ok nc" "frame_ok ns"
    and "roster_s (node_id cl) = Some (vk_of c (sk cl))" and "roster_c (node_id sv) = Some (vk_of c (sk sv))"
    and st: "store_ok st" "set names = dom (full st)" "list_all name_ok names"
    and lst: "frame_ok (utf8 (join [10] (sort names)))"
    and order: "\<forall>xs. set (order xs) = set xs"
    and want: "want = order (filter (\<lambda>a. full local a = None) (remdups (sort names)))"
    and stream: "stream = serve_conn c sv roster_s ns st names (client_hello c cl nc ns @ pull_requests want)"
  shows "\<exists>p q l. pull_from c cl roster_c nc order stream local = (Inr (p, q), l) \<and>
    full l = (\<lambda>a. case full local a of Some t \<Rightarrow> Some t | None \<Rightarrow>
      (case full st a of None \<Rightarrow> None
       | Some t \<Rightarrow> if acceptable (crypto.truncate c) (Some roster_c) a t then Some t else None))"
proof -
  have wset: "set want = {a. full local a = None \<and> full st a \<noteq> None}"
    unfolding want using order st(2) by auto
  have wok: "list_all name_ok want" "list_all listable (sort names)" and hf: "has_full st"
    using wset st by (auto simp: list_all_iff name_ok_def store_ok_def)
  have s: "stream = server_hello c sv nc ns @ wr (utf8 (join [10] (sort names))) @
      concat (map (\<lambda>a. wr (get_reply st a)) want)"
    unfolding stream serve_conn_def using assms(1-3,6,8)
    by (simp add: server_auth_honest serve_loop_pull [OF hf wok(1)])
  obtain p q l where pl: "get_loop c roster_c want (concat (map (\<lambda>a. wr (get_reply st a)) want)) local [] [] = (Inr (p, q), l)"
    "\<forall>a. full l a = (if a \<in> set want \<and> (\<exists>t. full st a = Some t \<and> acceptable (crypto.truncate c) (Some roster_c) a t)
                     then full st a else full local a)"
    using get_loop_honest [OF st(1) wok(1)] by blast
  have "pull_from c cl roster_c nc order stream local = (Inr (p, q), l)"
    unfolding s pull_from_def using assms(1,4,5,7,9) rd_wr [OF lst]
    by (simp add: client_auth_honest lines_of_names [OF wok(2)] want [symmetric] pl(1))
  moreover have "full l a = (case full local a of Some t \<Rightarrow> Some t | None \<Rightarrow>
      (case full st a of None \<Rightarrow> None
       | Some t \<Rightarrow> if acceptable (crypto.truncate c) (Some roster_c) a t then Some t else None))" for a
    using pl(2) wset by (auto split: option.splits)
  ultimately show ?thesis by blast
qed

lemma honest_pull_converges_witness:
  "\<exists>p q l. pull_from demo_keys node_n demo_roster [1, 2] rev
      (serve_conn demo_keys node_m demo_roster [3] (demo_store [99] [100]) [[99]]
        (client_hello demo_keys node_n [1, 2] [3] @ pull_requests [[99]]))
      (demo_store [98] [97]) = (Inr (p, q), l) \<and> full l [98] = Some [97]"
proof -
  let ?st = "demo_store [99] [100]"
  let ?lo = "demo_store [98] [97]"
  have u: "ustr_ok [110]" "ustr_ok [109]" "utf8 [110] = [110]" "utf8 [109] = [109]"
    "ustr_ok [99]" "utf8 [99] = [99]" "ustr_ok [100]" "utf8 [100] = [100]"
    by (simp_all add: ustr_ok_def scalar_def utf8_def utf8_char_def)
  have "\<exists>p q l. pull_from demo_keys node_n demo_roster [1, 2] rev
      (serve_conn demo_keys node_m demo_roster [3] ?st [[99]]
        (client_hello demo_keys node_n [1, 2] [3] @ pull_requests [[99]])) ?lo = (Inr (p, q), l) \<and>
    full l = (\<lambda>a. case full ?lo a of Some t \<Rightarrow> Some t | None \<Rightarrow>
      (case full ?st a of None \<Rightarrow> None
       | Some t \<Rightarrow> if acceptable (crypto.truncate demo_keys) (Some demo_roster) a t then Some t else None))"
    by (rule honest_pull_converges [OF demo_keys_contract])
      (use u in \<open>simp_all add: node_n_def node_m_def demo_roster_def demo_keys_def store_ok_def name_ok_def listable_def plain_def demo_store_simps utf8_lits
        split: if_splits\<close>)
  then show ?thesis by (fastforce simp: demo_store_simps)
qed

end
