(* ===== verification/Sampler.thy ===== *)
theory Sampler
  imports Float32 "HOL-Library.Multiset"
begin

text \<open>
  \<^verbatim>\<open>sampler.rs\<close>: the token sampler of a chat turn. Suppression, the no-repeat-n-gram guard and the
  greedy path are modelled on the bit patterns of \<open>Float32\<close>; the sampled path is modelled step by step
  over a record of the floating-point operations it uses (\<open>float_ops\<close>), and over the result of
  \<^verbatim>\<open>sort_unstable_by\<close>, which the standard library fixes only up to the order of equal elements.
\<close>

subsection \<open>Parameters, random numbers\<close>

record sampling_params =
  temperature :: f32
  top_p :: f32
  top_k :: u32
  repetition_penalty :: f32
  frequency_penalty :: f32
  seed :: "u64 option"
  no_repeat_ngram :: nat

definition rng_new :: "u64 \<Rightarrow> u64" where
  "rng_new sd = sd XOR 0x9E3779B97F4A7C15"

text \<open>The draw and the new state.\<close>

definition next_u64 :: "u64 \<Rightarrow> u64 \<times> u64" where
  "next_u64 state0 =
     (let state = state0 + 0x9E3779B97F4A7C15;
          z1 = (state XOR drop_bit 30 state) * 0xBF58476D1CE4E5B9;
          z2 = (z1 XOR drop_bit 27 z1) * 0x94D049BB133111EB
      in (z2 XOR drop_bit 31 z2, state))"

record sampler =
  params :: sampling_params
  rng :: u64
  history :: "i32 list"
  suppress :: "i32 list"
  ngram_prefix :: "i32 list"

text \<open>\<open>clock\<close> is the nanosecond reading used when no seed is given.\<close>

definition with_suppress :: "u64 \<Rightarrow> sampling_params \<Rightarrow> i32 list \<Rightarrow> sampler" where
  "with_suppress clock ps ids = \<lparr>params = ps,
     rng = rng_new (case seed ps of Some sd \<Rightarrow> sd | None \<Rightarrow> clock),
     history = [], suppress = ids, ngram_prefix = []\<rparr>"

definition sampler_new :: "u64 \<Rightarrow> sampling_params \<Rightarrow> sampler" where
  "sampler_new clock ps = with_suppress clock ps []"

definition set_ngram_prefix :: "i32 list \<Rightarrow> sampler \<Rightarrow> sampler" where
  "set_ngram_prefix pre s = s\<lparr>ngram_prefix := pre\<rparr>"

definition set_no_repeat_ngram :: "nat \<Rightarrow> sampler \<Rightarrow> sampler" where
  "set_no_repeat_ngram n s = s\<lparr>params := (params s)\<lparr>no_repeat_ngram := n\<rparr>\<rparr>"

definition is_greedy :: "sampler \<Rightarrow> bool" where
  "is_greedy s \<longleftrightarrow> \<not> f32_nan (temperature (params s)) \<and> f32_key (temperature (params s)) \<le> 0"

definition observe :: "i32 \<Rightarrow> sampler \<Rightarrow> sampler" where
  "observe token s = s\<lparr>history := history s @ [token]\<rparr>"

subsection \<open>Masks\<close>

definition mask_one :: "i32 \<Rightarrow> f32 list \<Rightarrow> f32 list" where
  "mask_one t logits = (if as_usize t < length logits then logits[as_usize t := NEG_INFINITY] else logits)"

definition apply_suppress :: "i32 list \<Rightarrow> f32 list \<Rightarrow> f32 list" where
  "apply_suppress ids logits = fold mask_one ids logits"

definition ban_repeat_ngram :: "f32 list \<Rightarrow> i32 list \<Rightarrow> i32 list \<Rightarrow> nat \<Rightarrow> f32 list" where
  "ban_repeat_ngram logits prefix hist n =
     (if n < 2 then logits
      else let sq = prefix @ hist in
           if length sq < n then logits
           else let m = length sq; suffix = drop (m - (n - 1)) sq; last_src = m - n
                in fold (\<lambda>i l. if bslice i (i + (n - 1)) sq = suffix then mask_one (sq ! (i + (n - 1))) l else l)
                     [0..<last_src + 1] logits)"

definition masked_row :: "sampler \<Rightarrow> f32 list \<Rightarrow> f32 list" where
  "masked_row s logits =
     (let l1 = apply_suppress (suppress s) logits; n = no_repeat_ngram (params s)
      in if 2 \<le> n then ban_repeat_ngram l1 (ngram_prefix s) (history s) n else l1)"

subsection \<open>The sampled path\<close>

record 'd float_ops =
  fsub :: "f32 \<Rightarrow> f32 \<Rightarrow> f32"
  fmul :: "f32 \<Rightarrow> f32 \<Rightarrow> f32"
  fdiv :: "f32 \<Rightarrow> f32 \<Rightarrow> f32"
  widen :: "f32 \<Rightarrow> 'd"
  dexp :: "'d \<Rightarrow> 'd"
  dadd :: "'d \<Rightarrow> 'd \<Rightarrow> 'd"
  dmul :: "'d \<Rightarrow> 'd \<Rightarrow> 'd"
  ddiv :: "'d \<Rightarrow> 'd \<Rightarrow> 'd"
  dzero :: 'd
  done1 :: 'd
  dlt :: "'d \<Rightarrow> 'd \<Rightarrow> bool"
  dle :: "'d \<Rightarrow> 'd \<Rightarrow> bool"
  dfinite :: "'d \<Rightarrow> bool"
  unit_of :: "u64 \<Rightarrow> 'd"

definition F32_ONE :: f32 where "F32_ONE = 0x3F800000"
definition F32_EPSILON :: f32 where "F32_EPSILON = 0x34000000"
definition F32_1E_6 :: f32 where "F32_1E_6 = 0x358637BD"

definition fabs :: "f32 \<Rightarrow> f32" where "fabs x = x AND 0x7FFFFFFF"

definition fmax :: "f32 \<Rightarrow> f32 \<Rightarrow> f32" where
  "fmax x y = (if f32_nan x then y else if f32_nan y then x else if f32_gt y x then y else x)"

definition clamp01 :: "f32 \<Rightarrow> f32" where
  "clamp01 x = (if f32_gt 0 x then 0 else if f32_gt x F32_ONE then F32_ONE else x)"

fun penalty_loop :: "'d float_ops \<Rightarrow> f32 \<Rightarrow> f32 \<Rightarrow> i32 list \<Rightarrow> i32 list \<Rightarrow> f32 list \<Rightarrow> f32 list" where
  "penalty_loop o' rp fp [] seen logits = logits"
| "penalty_loop o' rp fp (t # ts) seen logits =
     (if length logits \<le> as_usize t then penalty_loop o' rp fp ts seen logits
      else let idx = as_usize t;
               rep = f32_gt (fabs (fsub o' rp F32_ONE)) F32_EPSILON;
               fresh = rep \<and> t \<notin> set seen;
               l1 = (if fresh then logits[idx := (if f32_gt (logits ! idx) 0 then fdiv o' (logits ! idx) rp
                                                  else fmul o' (logits ! idx) rp)] else logits);
               l2 = (if f32_gt (fabs fp) F32_EPSILON then l1[idx := fsub o' (l1 ! idx) fp] else l1)
           in penalty_loop o' rp fp ts (if rep then t # seen else seen) l2)"

definition apply_penalties :: "'d float_ops \<Rightarrow> sampler \<Rightarrow> f32 list \<Rightarrow> f32 list" where
  "apply_penalties o' s logits =
     (let rp = repetition_penalty (params s); fp = frequency_penalty (params s) in
      if f32_gt (fabs (fsub o' rp F32_ONE)) F32_EPSILON \<or> f32_gt (fabs fp) F32_EPSILON
      then penalty_loop o' rp fp (history s) [] logits else logits)"

fun nucleus_loop :: "'d float_ops \<Rightarrow> 'd \<Rightarrow> nat \<Rightarrow> nat \<Rightarrow> 'd \<Rightarrow> 'd list \<Rightarrow> nat" where
  "nucleus_loop o' tp dflt i acc [] = dflt"
| "nucleus_loop o' tp dflt i acc (p # ps) =
     (let acc' = dadd o' acc p in if dle o' tp acc' then i + 1 else nucleus_loop o' tp dflt (i + 1) acc' ps)"

fun draw_loop :: "'d float_ops \<Rightarrow> 'd \<Rightarrow> nat \<Rightarrow> 'd \<Rightarrow> 'd list \<Rightarrow> nat option" where
  "draw_loop o' r i acc [] = None"
| "draw_loop o' r i acc (p # ps) =
     (let acc' = dadd o' acc p in if dlt o' r acc' then Some i else draw_loop o' r (i + 1) acc' ps)"

definition dsum :: "'d float_ops \<Rightarrow> 'd list \<Rightarrow> 'd" where
  "dsum o' xs = fold (\<lambda>x a. dadd o' a x) xs (dzero o')"

text \<open>From the sorted candidates to the token and the new generator state.\<close>

definition draw :: "'d float_ops \<Rightarrow> sampler \<Rightarrow> (nat \<times> f32) list \<Rightarrow> i32 \<times> u64" where
  "draw o' s sorted_cand =
     (let n = length sorted_cand;
          k = (if top_k (params s) = 0 then n else min (unat (top_k (params s))) n);
          cand = take k sorted_cand;
          max_logit = (case cand of [] \<Rightarrow> 0 | c # _ \<Rightarrow> snd c);
          probs0 = map (\<lambda>(i, l). dexp o' (widen o' (fsub o' l max_logit))) cand;
          sm = dsum o' probs0
      in if dle o' sm (dzero o') \<or> \<not> dfinite o' sm
         then ((case cand of [] \<Rightarrow> 0 | c # _ \<Rightarrow> of_nat (fst c)), rng s)
         else let probs = map (\<lambda>p. ddiv o' p sm) probs0;
                  tp = widen o' (clamp01 (top_p (params s)));
                  nuc0 = (if dlt o' tp (done1 o') then nucleus_loop o' tp (length cand) 0 (dzero o') probs
                          else length cand);
                  nuc = max nuc0 1;
                  (u, st') = next_u64 (rng s);
                  r = dmul o' (unit_of o' u) (dsum o' (take nuc probs))
              in (case draw_loop o' r 0 (dzero o') (take nuc probs) of
                    Some i \<Rightarrow> of_nat (fst (cand ! i))
                  | None \<Rightarrow> of_nat (fst (cand ! (nuc - 1))), st'))"

text \<open>\<open>srt\<close> is what \<^verbatim>\<open>sort_unstable_by\<close> does to the candidate list.\<close>

definition sample ::
  "'d float_ops \<Rightarrow> ((nat \<times> f32) list \<Rightarrow> (nat \<times> f32) list) \<Rightarrow> sampler \<Rightarrow> f32 list \<Rightarrow> i32 \<times> f32 list \<times> sampler" where
  "sample o' srt s logits =
     (if logits = [] then (0, logits, s)
      else let l1 = masked_row s logits in
           if is_greedy s then (spec_argmax l1, l1, s)
           else let l2 = apply_penalties o' s l1;
                    temp = fmax (temperature (params s)) F32_1E_6;
                    l3 = map (\<lambda>l. fdiv o' l temp) l2;
                    (tok, st') = draw o' s (srt (zip [0..<length l3] l3))
                in (tok, l3, s\<lparr>rng := st'\<rparr>))"

subsection \<open>The masks\<close>

lemma mask_one_simps [simp]:
  "length (mask_one t l) = length l"
  "nan_free l \<Longrightarrow> nan_free (mask_one t l)"
  by (auto simp: mask_one_def nan_free_def dest!: set_update_subset_insert [THEN subsetD])

lemma mask_one_nth:
  "j < length l \<Longrightarrow> mask_one t l ! j = (if j = as_usize t then NEG_INFINITY else l ! j)"
  by (simp add: mask_one_def nth_list_update)

text \<open>Folding a guarded mask over a list masks exactly the guarded tokens.\<close>

lemma fold_mask:
  "length (fold (\<lambda>x l. if P x then mask_one (g x) l else l) xs l) = length l \<and>
   (nan_free l \<longrightarrow> nan_free (fold (\<lambda>x l. if P x then mask_one (g x) l else l) xs l)) \<and>
   (\<forall>j < length l. fold (\<lambda>x l. if P x then mask_one (g x) l else l) xs l ! j =
     (if \<exists>x \<in> set xs. P x \<and> as_usize (g x) = j then NEG_INFINITY else l ! j))"
  by (induction xs arbitrary: l) (auto simp: mask_one_nth)

lemma apply_suppress_fold:
  "apply_suppress ids l = fold (\<lambda>x l. if True then mask_one x l else l) ids l"
  by (simp add: apply_suppress_def)

text \<open>The token ids that would complete an \<open>n\<close>-gram of the sequence.\<close>

definition completes_ngram :: "i32 list \<Rightarrow> nat \<Rightarrow> i32 \<Rightarrow> bool" where
  "completes_ngram sq n t \<longleftrightarrow>
     (\<exists>i. i + n \<le> length sq \<and> take n (drop i sq) = drop (length sq - (n - 1)) sq @ [t])"

lemma take_snoc_eq:
  assumes "i + n \<le> length sq" and "2 \<le> n"
  shows "take n (drop i sq) = w @ [t] \<longleftrightarrow>
    bslice i (i + (n - 1)) sq = w \<and> sq ! (i + (n - 1)) = t"
proof -
  have "take (Suc (n - 1)) (drop i sq) = take (n - 1) (drop i sq) @ [drop i sq ! (n - 1)]"
    by (rule take_Suc_conv_app_nth) (use assms in simp)
  then show ?thesis using assms by (simp add: bslice_def)
qed

lemma ban_repeat_ngram_spec:
  fixes prefix hist :: "i32 list"
  assumes "2 \<le> n"
  defines "sq \<equiv> prefix @ hist"
  shows "length (ban_repeat_ngram l prefix hist n) = length l \<and>
    (nan_free l \<longrightarrow> nan_free (ban_repeat_ngram l prefix hist n)) \<and>
    (\<forall>j < length l. ban_repeat_ngram l prefix hist n ! j =
      (if \<exists>t. completes_ngram sq n t \<and> as_usize t = j then NEG_INFINITY else l ! j))"
proof (cases "length sq < n")
  case True
  then have "\<not> completes_ngram sq n t" for t by (auto simp: completes_ngram_def)
  then show ?thesis using True assms by (simp add: ban_repeat_ngram_def)
next
  case False
  let ?P = "\<lambda>i. bslice i (i + (n - 1)) sq = drop (length sq - (n - 1)) sq"
  let ?g = "\<lambda>i. sq ! (i + (n - 1))"
  have lt: "\<not> n < 2" using assms(1) by simp
  have eq: "ban_repeat_ngram l prefix hist n =
      fold (\<lambda>i l. if ?P i then mask_one (?g i) l else l) [0..<length sq - n + 1] l"
    unfolding ban_repeat_ngram_def Let_def sq_def [symmetric] if_not_P [OF lt] if_not_P [OF False]
    by (rule refl)
  have range: "i \<in> set [0..<length sq - n + 1] \<longleftrightarrow> i + n \<le> length sq" for i
    using False by auto
  have "(\<exists>i \<in> set [0..<length sq - n + 1]. ?P i \<and> as_usize (?g i) = j) \<longleftrightarrow>
      (\<exists>t. completes_ngram sq n t \<and> as_usize t = j)" for j
  proof -
    have "completes_ngram sq n t \<longleftrightarrow> (\<exists>i. i + n \<le> length sq \<and> ?P i \<and> ?g i = t)" for t
      unfolding completes_ngram_def
      by (rule ex_cong1) (metis take_snoc_eq [OF _ assms(1)])
    then show ?thesis unfolding Bex_def range by metis
  qed
  then show ?thesis unfolding eq using fold_mask [of ?P ?g "[0..<length sq - n + 1]" l] by simp
qed

text \<open>The ids the two guards forbid to a sampler.\<close>

definition forbidden :: "sampler \<Rightarrow> i32 \<Rightarrow> bool" where
  "forbidden s t \<longleftrightarrow> t \<in> set (suppress s) \<or>
     2 \<le> no_repeat_ngram (params s) \<and>
     completes_ngram (ngram_prefix s @ history s) (no_repeat_ngram (params s)) t"

lemma masked_row_spec:
  shows "length (masked_row s l) = length l"
    and "nan_free l \<Longrightarrow> nan_free (masked_row s l)"
    and "j < length l \<Longrightarrow> masked_row s l ! j =
      (if \<exists>t. forbidden s t \<and> as_usize t = j then NEG_INFINITY else l ! j)"
proof -
  define l1 where "l1 = apply_suppress (suppress s) l"
  have l1: "length l1 = length l \<and> (nan_free l \<longrightarrow> nan_free l1) \<and>
      (\<forall>j < length l. l1 ! j = (if \<exists>t \<in> set (suppress s). as_usize t = j then NEG_INFINITY else l ! j))"
    using fold_mask [of "\<lambda>_. True" "\<lambda>x. x" "suppress s" l] by (simp add: l1_def apply_suppress_fold)
  have m: "masked_row s l = (if 2 \<le> no_repeat_ngram (params s)
      then ban_repeat_ngram l1 (ngram_prefix s) (history s) (no_repeat_ngram (params s)) else l1)"
    by (simp add: masked_row_def l1_def)
  note b = ban_repeat_ngram_spec [of "no_repeat_ngram (params s)" l1 "ngram_prefix s" "history s"]
  show "length (masked_row s l) = length l" using m l1 b by simp
  show "nan_free (masked_row s l)" if "nan_free l" using m l1 b that by simp
  show "masked_row s l ! j = (if \<exists>t. forbidden s t \<and> as_usize t = j then NEG_INFINITY else l ! j)"
    if "j < length l"
    using m l1 b that by (auto simp: forbidden_def)
qed

lemma masked_row_off:
  "suppress s = [] \<Longrightarrow> no_repeat_ngram (params s) < 2 \<Longrightarrow> masked_row s l = l"
  by (simp add: masked_row_def apply_suppress_def)

subsection \<open>The greedy path\<close>

lemma spec_argmax_is_of_nat:
  assumes "logits_row l"
  obtains n where "spec_argmax l = of_nat n" and "is_max_at l n"
  using spec_argmax_last_max [of l] assms by (auto simp: logits_row_def last_max_def)

lemma greedy_pick_of_row:
  assumes "is_greedy s" and "logits_row l" and "length l < 2 ^ 31"
  obtains n where "sample o' srt s l = (of_nat n, masked_row s l, s)" and "is_max_at (masked_row s l) n"
    and "as_usize (of_nat n) = n"
proof -
  have "logits_row (masked_row s l)"
    using assms(2) masked_row_spec(1,2) [where s = s and l = l] by (auto simp: logits_row_def)
  then obtain n where n: "spec_argmax (masked_row s l) = of_nat n" "is_max_at (masked_row s l) n"
    by (rule spec_argmax_is_of_nat)
  moreover have "as_usize (of_nat n) = n"
    using n(2) assms(3) by (intro as_usize_of_nat) (simp add: is_max_at_def masked_row_spec(1))
  moreover have "sample o' srt s l = (of_nat n, masked_row s l, s)"
    using assms n(1) by (simp add: sample_def logits_row_def)
  ultimately show thesis using that by blast
qed

lemma greedy_pick_unforbidden:
  assumes "is_greedy s" and "logits_row l" and "length l < 2 ^ 31"
    and "j < length l" and "\<not> forbidden s (of_nat j)" and "f32_key NEG_INFINITY < f32_key (l ! j)"
  shows "case sample o' srt s l of (t, row, s') \<Rightarrow>
    as_usize t < length l \<and> is_max_at row (as_usize t) \<and> \<not> forbidden s t \<and> s' = s"
proof -
  obtain n where n: "sample o' srt s l = (of_nat n, masked_row s l, s)" "is_max_at (masked_row s l) n"
    "as_usize (of_nat n) = n"
    using greedy_pick_of_row assms(1-3) by blast
  have len: "n < length l" using n(2) by (simp add: is_max_at_def masked_row_spec(1))
  have "masked_row s l ! j = l ! j"
    using masked_row_spec(3) [OF assms(4), of s] as_usize_inv assms(5) by metis
  then have "f32_key NEG_INFINITY < f32_key (masked_row s l ! n)"
    using n(2) assms(4,6) by (metis is_max_at_def masked_row_spec(1) order_less_le_trans)
  then have "\<not> forbidden s (of_nat n)"
    using masked_row_spec(3) [OF len, of s] n(3) by (metis order_less_irrefl)
  then show ?thesis using n len by simp
qed

text \<open>
  C35. A greedy turn never emits a forbidden token while an allowed one has a logit above \<open>-inf\<close>: the
  answer is neither a suppressed id nor an id that would complete an \<open>n\<close>-gram already present in the
  prompt and the generated history (such an \<open>n\<close>-gram is spelled out by \<open>completes_ngram\<close>); it is a valid
  index that holds a maximum of the masked row, and the state of the sampler is untouched.
\<close>

theorem greedy_never_forbidden:
  assumes "is_greedy s" and "logits_row l" and "length l < 2 ^ 31"
    and "j < length l" and "\<not> forbidden s (of_nat j)" and "f32_key NEG_INFINITY < f32_key (l ! j)"
  shows "case sample o' srt s l of (t, row, s') \<Rightarrow>
    as_usize t < length l \<and> is_max_at row (as_usize t) \<and> \<not> forbidden s t \<and> s' = s"
  by (rule greedy_pick_unforbidden [OF assms])

definition nat_float_ops :: "nat float_ops" where
  "nat_float_ops = \<lparr>fsub = \<lambda>x y. x, fmul = \<lambda>x y. x, fdiv = \<lambda>x y. x, widen = unat, dexp = \<lambda>x. x,
     dadd = (+), dmul = (*), ddiv = (div), dzero = 0, done1 = 1, dlt = (<), dle = (\<le>),
     dfinite = \<lambda>x. True, unit_of = \<lambda>u. 0\<rparr>"

theorem greedy_never_forbidden_witness:
  defines "s \<equiv> \<lparr>params = \<lparr>temperature = 0, top_p = 0, top_k = 0, repetition_penalty = 0,
      frequency_penalty = 0, seed = None, no_repeat_ngram = 2\<rparr>,
      rng = 7, history = [2, 1], suppress = [0], ngram_prefix = [1, 3]\<rparr>"
  defines "l \<equiv> [0x40000000, 0x3F800000, 0x3F000000, 0x40400000]"
  shows "case sample nat_float_ops id s l of (t, row, s') \<Rightarrow>
    as_usize t < length l \<and> is_max_at row (as_usize t) \<and> \<not> forbidden s t \<and> s' = s"
proof -
  have f: "\<not> forbidden s (of_nat 2)"
    by (auto simp: s_def forbidden_def completes_ngram_def)
      (auto simp: le_Suc_eq numeral_eq_Suc)
  have k: "f32_key NEG_INFINITY < f32_key (l ! 2)"
    by (simp add: l_def f32_key_def NEG_INFINITY_def bit_numeral_rec)
  have g: "is_greedy s" by (simp add: s_def is_greedy_def f32_nan_def f32_key_def)
  have r: "logits_row l"
    by (simp add: l_def logits_row_def f32_nan_def)
  show ?thesis
    by (rule greedy_never_forbidden [OF g r _ _ f k]) (simp_all add: l_def)
qed

subsection \<open>The sampled path\<close>

lemma nucleus_loop_le: "nucleus_loop o' tp d i acc ps \<le> max d (i + length ps)"
  by (induction o' tp d i acc ps rule: nucleus_loop.induct) (fastforce simp: Let_def)+

lemma draw_loop_lt: "draw_loop o' r i acc ps = Some j \<Longrightarrow> j < i + length ps"
  by (induction o' r i acc ps rule: draw_loop.induct) (fastforce simp: Let_def split: if_splits)+

lemma penalty_loop_length [simp]: "length (penalty_loop o' rp fp ts seen l) = length l"
  by (induction o' rp fp ts seen l rule: penalty_loop.induct) (simp_all add: Let_def)

lemma apply_penalties_length: "length (apply_penalties o' s l) = length l"
  by (simp add: apply_penalties_def Let_def)

lemma draw_index:
  assumes "sc \<noteq> []"
  shows "\<exists>i st. draw o' s sc = (of_nat (fst (sc ! i)), st) \<and> i < length sc \<and>
    (top_k (params s) \<noteq> 0 \<longrightarrow> i < unat (top_k (params s)))"
proof -
  define k where "k = (if top_k (params s) = 0 then length sc else min (unat (top_k (params s))) (length sc))"
  have "0 < unat (top_k (params s))" if "top_k (params s) \<noteq> 0"
    using that by (simp add: unat_gt_0)
  then have k: "0 < k" "k \<le> length sc" "top_k (params s) \<noteq> 0 \<Longrightarrow> k \<le> unat (top_k (params s))"
    using assms by (auto simp: k_def)
  have cand: "length (take k sc) = k" "take k sc \<noteq> []" using k assms by auto
  have hd0: "(case take k sc of [] \<Rightarrow> 0 | c # _ \<Rightarrow> of_nat (fst c)) = (of_nat (fst (sc ! 0)) :: i32)"
    using cand k by (cases sc; cases k) auto
  have nth: "take k sc ! i = sc ! i" if "i < k" for i using that by simp
  have "\<exists>i st. draw o' s sc = (of_nat (fst (sc ! i)), st) \<and> i < k"
  proof -
    define probs0 where "probs0 = map (\<lambda>(i, l). dexp o' (widen o' (fsub o' l
      (case take k sc of [] \<Rightarrow> 0 | c # _ \<Rightarrow> snd c)))) (take k sc)"
    define probs where "probs = map (\<lambda>p. ddiv o' p (dsum o' probs0)) probs0"
    define tp where "tp = widen o' (clamp01 (top_p (params s)))"
    define nuc where "nuc = max (if dlt o' tp (done1 o') then nucleus_loop o' tp (length (take k sc)) 0 (dzero o') probs
                          else length (take k sc)) 1"
    define r where "r = dmul o' (unit_of o' (fst (next_u64 (rng s)))) (dsum o' (take nuc probs))"
    have lp: "length probs = k" using cand by (simp add: probs_def probs0_def)
    have nuc: "0 < nuc" "nuc \<le> k"
      using nucleus_loop_le [of o' tp k 0 "dzero o'" probs] k(1) lp cand by (auto simp: nuc_def)
    let ?i = "case draw_loop o' r 0 (dzero o') (take nuc probs) of Some i \<Rightarrow> i | None \<Rightarrow> nuc - 1"
    have i: "?i < k" using draw_loop_lt [of o' r 0 "dzero o'" "take nuc probs"] nuc lp
      by (auto split: option.split)
    have "draw o' s sc = (if dle o' (dsum o' probs0) (dzero o') \<or> \<not> dfinite o' (dsum o' probs0)
        then (of_nat (fst (sc ! 0)), rng s)
        else (of_nat (fst (take k sc ! ?i)), snd (next_u64 (rng s))))"
      unfolding draw_def Let_def k_def [symmetric] hd0 probs0_def [symmetric] probs_def [symmetric]
        tp_def [symmetric] nuc_def [symmetric] r_def
      by (simp add: split_beta split: option.split)
    then show ?thesis using i k(1) nth by (auto split: if_splits)
  qed
  then show ?thesis using k by (meson order_less_le_trans)
qed

text \<open>
  C36. The sampled path returns a valid index, and with \<^verbatim>\<open>top_k\<close> set one of the \<open>top_k\<close> best: fewer than
  \<open>top_k\<close> entries of the row it drew from are strictly larger. This holds for every implementation of
  the floating-point operations and every sort that permutes its input and orders NaN-free candidates
  by descending logit; of the sampler only the generator changes.
\<close>

theorem sampled_in_top_k:
  assumes perm: "\<And>xs. mset (srt xs) = mset xs"
    and sorted: "\<And>xs. nan_free (map snd xs) \<Longrightarrow> sorted_wrt (\<lambda>a b. f32_key (snd b) \<le> f32_key (snd a)) (srt xs)"
    and "\<not> is_greedy s" and "l \<noteq> []" and "length l < 2 ^ 31"
  shows "case sample o' srt s l of (t, row, s') \<Rightarrow>
    as_usize t < length l \<and> s' = s\<lparr>rng := rng s'\<rparr> \<and>
    (nan_free row \<and> top_k (params s) \<noteq> 0 \<longrightarrow>
      card {j. j < length row \<and> f32_key (row ! as_usize t) < f32_key (row ! j)} < unat (top_k (params s)))"
proof -
  define row where "row = map (\<lambda>x. fdiv o' x (fmax (temperature (params s)) F32_1E_6))
    (apply_penalties o' s (masked_row s l))"
  define cand where "cand = zip [0..<length row] row"
  define sc where "sc = srt cand"
  have len: "length row = length l"
    by (simp add: row_def apply_penalties_length masked_row_spec(1))
  have eq: "sample o' srt s l = (fst (draw o' s sc), row, s\<lparr>rng := snd (draw o' s sc)\<rparr>)"
    using assms(3,4) by (simp add: sample_def Let_def row_def sc_def cand_def split_beta)
  have set_sc: "set sc = set cand" using perm [of cand] by (metis sc_def set_mset_mset)
  have mem: "c \<in> set sc \<longleftrightarrow> fst c < length l \<and> snd c = row ! fst c" for c
    unfolding set_sc by (cases c) (auto simp: cand_def in_set_zip len intro!: exI [of _ "fst c"])
  have "sc \<noteq> []" using mem [of "(0, row ! 0)"] assms(4) by auto
  then obtain i st where i: "draw o' s sc = (of_nat (fst (sc ! i)), st)" "i < length sc"
    "top_k (params s) \<noteq> 0 \<Longrightarrow> i < unat (top_k (params s))"
    using draw_index by blast
  have mi: "fst (sc ! i) < length l" "snd (sc ! i) = row ! fst (sc ! i)"
    using mem [of "sc ! i"] i(2) by auto
  then have tok: "as_usize (of_nat (fst (sc ! i))) = fst (sc ! i)"
    using assms(5) by (intro as_usize_of_nat) simp
  have "card {j. j < length row \<and> f32_key (row ! fst (sc ! i)) < f32_key (row ! j)} \<le> i"
    if "nan_free row"
  proof -
    have "nan_free (map snd cand)" using that by (simp add: cand_def)
    then have ord: "sorted_wrt (\<lambda>a b. f32_key (snd b) \<le> f32_key (snd a)) sc"
      unfolding sc_def by (rule sorted)
    have "{j. j < length row \<and> f32_key (row ! fst (sc ! i)) < f32_key (row ! j)} \<subseteq> fst ` set (take i sc)"
    proof
      fix j assume j: "j \<in> {j. j < length row \<and> f32_key (row ! fst (sc ! i)) < f32_key (row ! j)}"
      then have "(j, row ! j) \<in> set sc" using mem [of "(j, row ! j)"] len by simp
      then obtain q where q: "q < length sc" "sc ! q = (j, row ! j)" by (metis in_set_conv_nth)
      have "q < i"
      proof (rule ccontr)
        assume "\<not> q < i"
        then have "q = i \<or> i < q" by auto
        then show False
          using sorted_wrt_nth_less [OF ord, of i q] q j mi by auto
      qed
      then have "(j, row ! j) \<in> set (take i sc)" using q i(2) by (metis in_set_conv_nth length_take min_less_iff_conj nth_take)
      then show "j \<in> fst ` set (take i sc)" by force
    qed
    then have "card {j. j < length row \<and> f32_key (row ! fst (sc ! i)) < f32_key (row ! j)} \<le> card (fst ` set (take i sc))"
      by (rule card_mono [rotated]) simp
    also have "\<dots> \<le> length (take i sc)" by (metis card_image_le card_length finite_set order_trans)
    finally show ?thesis by simp
  qed
  then show ?thesis using eq i tok mi by fastforce
qed

theorem sampled_in_top_k_witness:
  defines "s \<equiv> \<lparr>params = \<lparr>temperature = F32_ONE, top_p = 0, top_k = 2, repetition_penalty = 0,
      frequency_penalty = 0, seed = None, no_repeat_ngram = 0\<rparr>,
      rng = 7, history = [], suppress = [], ngram_prefix = []\<rparr>"
  defines "l \<equiv> [0x40000000, 0x3F800000, 0x40400000]"
  shows "case sample nat_float_ops (sort_key (\<lambda>c. - f32_key (snd c))) s l of (t, row, s') \<Rightarrow>
    as_usize t < length l \<and> s' = s\<lparr>rng := rng s'\<rparr> \<and>
    card {j. j < length row \<and> f32_key (row ! as_usize t) < f32_key (row ! j)} < 2"
proof -
  let ?srt = "sort_key (\<lambda>c :: nat \<times> f32. - f32_key (snd c))"
  have g: "\<not> is_greedy s"
    by (simp add: s_def is_greedy_def f32_nan_def f32_key_def F32_ONE_def bit_numeral_rec)
  have "sorted (map (\<lambda>c. - f32_key (snd c)) (?srt xs))" for xs by simp
  then have ord: "sorted_wrt (\<lambda>a b. f32_key (snd b) \<le> f32_key (snd a)) (?srt xs)" for xs
    by (simp add: sorted_map)
  have "fst (snd (sample nat_float_ops ?srt s l)) =
      map (\<lambda>x. fdiv nat_float_ops x (fmax (temperature (params s)) F32_1E_6))
        (apply_penalties nat_float_ops s (masked_row s l))"
    using g by (simp add: sample_def Let_def split_beta l_def)
  moreover have "apply_penalties nat_float_ops s (masked_row s l) = l"
    by (simp add: apply_penalties_def s_def masked_row_off)
  ultimately have row: "fst (snd (sample nat_float_ops ?srt s l)) = l"
    by (simp add: nat_float_ops_def)
  have "nan_free l" "top_k (params s) \<noteq> 0" "unat (top_k (params s)) = 2"
    by (simp_all add: l_def s_def f32_nan_def)
  then show ?thesis
    using sampled_in_top_k [of ?srt s l nat_float_ops, OF _ ord g] row by (auto simp: l_def)
qed

end
