(* ===== verification/Token_Stream.thy ===== *)
theory Token_Stream
  imports Rust_Str
begin

text \<open>
  The streaming buffer of \<^verbatim>\<open>tokenizer.rs\<close>: token bytes go in, text goes out in whole UTF-8 characters,
  and the tail that could be the beginning of a stop string is held back. \<open>push_all\<close> is the way the
  decode loops use it: push token after token until one push reports a stop.
\<close>

datatype push_result = Emit bytes | Stopped bytes

record decode_buffer =
  buf :: bytes
  stop_bytes :: "bytes list"
  hold :: nat

definition memmem :: "bytes \<Rightarrow> bytes \<Rightarrow> nat option" where
  "memmem haystack needle = (if needle = [] then Some 0 else find_sub needle haystack)"

definition max_len :: "bytes list \<Rightarrow> nat" where
  "max_len stops = fold max (map length stops) 0"

definition buffer_new :: "ustr list \<Rightarrow> decode_buffer" where
  "buffer_new stop_strings =
     (let sb = map utf8 stop_strings in \<lparr>buf = [], stop_bytes = sb, hold = max_len sb - 1\<rparr>)"

text \<open>The first stop string, in list order, that occurs; and where it first does.\<close>

fun find_stop :: "bytes \<Rightarrow> bytes list \<Rightarrow> nat option" where
  "find_stop b [] = None"
| "find_stop b (s # ss) = (case memmem b s of Some pos \<Rightarrow> Some pos | None \<Rightarrow> find_stop b ss)"

definition push :: "bytes \<Rightarrow> decode_buffer \<Rightarrow> push_result \<times> decode_buffer" where
  "push new db =
     (let b = buf db @ new in
      case find_stop b (stop_bytes db) of
        Some pos \<Rightarrow> (Stopped (take pos b), db\<lparr>buf := []\<rparr>)
      | None \<Rightarrow>
          if length b \<le> hold db then (Emit [], db\<lparr>buf := b\<rparr>)
          else let emit_end = utf8_valid_up_to (take (length b - hold db) b) in
               if emit_end = 0 then (Emit [], db\<lparr>buf := b\<rparr>)
               else (Emit (take emit_end b), db\<lparr>buf := drop emit_end b\<rparr>))"

definition flush :: "decode_buffer \<Rightarrow> bytes \<times> decode_buffer" where
  "flush db = (buf db, db\<lparr>buf := []\<rparr>)"

text \<open>The pieces sent, whether a stop was reported, and the buffer left.\<close>

fun push_all :: "decode_buffer \<Rightarrow> bytes list \<Rightarrow> bytes list \<times> bool \<times> decode_buffer" where
  "push_all db [] = ([], False, db)"
| "push_all db (c # cs) =
     (case push c db of
        (Stopped out, db') \<Rightarrow> ([out], True, db')
      | (Emit out, db') \<Rightarrow> (case push_all db' cs of (outs, st, db'') \<Rightarrow> (out # outs, st, db'')))"

subsection \<open>Occurrences\<close>

definition occurs_at :: "'a list \<Rightarrow> 'a list \<Rightarrow> nat \<Rightarrow> bool" where
  "occurs_at s t q \<longleftrightarrow> q + length s \<le> length t \<and> take (length s) (drop q t) = s"

definition has_stop :: "'a list list \<Rightarrow> 'a list \<Rightarrow> bool" where
  "has_stop ss t \<longleftrightarrow> (\<exists>s q. s \<in> set ss \<and> occurs_at s t q)"

lemma occurs_at_take:
  assumes "take (length s) (drop q t) = s" and "s \<noteq> []"
  shows "occurs_at s t q"
proof -
  have "length (take (length s) (drop q t)) = length s" using assms(1) by simp
  then have "length s \<le> length t - q" by simp
  then have "q + length s \<le> length t" using assms(2) by (cases s) auto
  then show ?thesis using assms(1) by (simp add: occurs_at_def)
qed

lemma occurs_at_append: "occurs_at s t q \<Longrightarrow> occurs_at s (t @ u) q"
  by (auto simp: occurs_at_def)

lemma occurs_at_within: "occurs_at s (t @ u) q \<Longrightarrow> q + length s \<le> length t \<Longrightarrow> occurs_at s t q"
  by (auto simp: occurs_at_def)

lemma occurs_at_shift: "occurs_at s (e @ b) (length e + q) \<longleftrightarrow> occurs_at s b q"
  by (simp add: occurs_at_def add.assoc)

lemma find_sub_first:
  assumes "s \<noteq> []"
  shows "find_sub s t = Some i \<longleftrightarrow> occurs_at s t i \<and> (\<forall>j<i. \<not> occurs_at s t j)"
    and "find_sub s t = None \<longleftrightarrow> (\<forall>j. \<not> occurs_at s t j)"
proof -
  have some: "occurs_at s t i \<and> (\<forall>j<i. \<not> occurs_at s t j)" if "find_sub s t = Some i" for i
    using find_sub_Some [OF that] occurs_at_take assms by (auto simp: occurs_at_def)
  have none: "\<not> occurs_at s t j" if "find_sub s t = None" for j
    using that assms
  proof (induction t arbitrary: j)
    case Nil
    then show ?case by (simp add: occurs_at_def)
  next
    case (Cons c t)
    then show ?case
      by (cases j) (auto simp: occurs_at_def split: if_splits)
  qed
  show "find_sub s t = None \<longleftrightarrow> (\<forall>j. \<not> occurs_at s t j)"
    using some none by (metis option.exhaust)
  show "find_sub s t = Some i \<longleftrightarrow> occurs_at s t i \<and> (\<forall>j<i. \<not> occurs_at s t j)"
    using some none by (metis linorder_neqE_nat option.exhaust)
qed

lemma find_stop_spec:
  assumes "[] \<notin> set ss"
  shows "find_stop b ss = None \<longleftrightarrow> \<not> has_stop ss b"
    and "find_stop b ss = Some p \<Longrightarrow> \<exists>s \<in> set ss. find_sub s b = Some p"
proof -
  show "find_stop b ss = None \<longleftrightarrow> \<not> has_stop ss b"
    using assms by (induction ss) (auto simp: memmem_def has_stop_def find_sub_first split: option.splits, blast)
  show "\<exists>s \<in> set ss. find_sub s b = Some p" if "find_stop b ss = Some p"
    using assms that by (induction ss) (auto simp: memmem_def split: option.splits)
qed

lemma max_len_ge: "s \<in> set ss \<Longrightarrow> length s \<le> max_len ss"
proof -
  have "x \<le> fold max xs a" if "x \<in> set xs \<or> x \<le> a" for x a :: nat and xs
    using that by (induction xs arbitrary: a) (auto simp: le_max_iff_disj)
  then show "s \<in> set ss \<Longrightarrow> length s \<le> max_len ss" by (simp add: max_len_def)
qed

subsection \<open>Nothing of a stop string leaks, and nothing else is lost\<close>

text \<open>
  The invariant of a stream that has not stopped: the bytes sent so far and the buffer are the input so far,
  no stop string occurs in it, and what was sent stays \<open>hold\<close> bytes behind the end.
\<close>

definition stream_inv :: "decode_buffer \<Rightarrow> bytes \<Rightarrow> bytes \<Rightarrow> bool" where
  "stream_inv db sent seen \<longleftrightarrow> [] \<notin> set (stop_bytes db) \<and> hold db = max_len (stop_bytes db) - 1 \<and>
     sent @ buf db = seen \<and> \<not> has_stop (stop_bytes db) seen \<and>
     (sent = [] \<or> length sent + hold db \<le> length seen)"

lemma stream_inv_new: "[] \<notin> set stops \<Longrightarrow> stream_inv (buffer_new stops) [] []"
  by (auto simp: stream_inv_def buffer_new_def Let_def has_stop_def occurs_at_def)

text \<open>A stop string completed by the next chunk still lies in the buffer.\<close>

lemma stop_in_buffer:
  assumes "stream_inv db sent seen" and "s \<in> set (stop_bytes db)" and "occurs_at s (seen @ c) q"
  shows "length sent \<le> q \<and> occurs_at s (buf db @ c) (q - length sent)"
proof -
  have inv: "hold db = max_len (stop_bytes db) - 1" "sent @ buf db = seen"
    "\<not> has_stop (stop_bytes db) seen" "sent = [] \<or> length sent + hold db \<le> length seen"
    using assms(1) by (auto simp: stream_inv_def)
  have "\<not> q + length s \<le> length seen"
    using occurs_at_within [OF assms(3)] inv(3) assms(2) by (auto simp: has_stop_def)
  then have q: "length sent \<le> q"
    using inv(1,4) max_len_ge [OF assms(2)] by auto
  have "occurs_at s (sent @ (buf db @ c)) (length sent + (q - length sent))"
    using assms(3) inv(2) q by (metis append.assoc le_add_diff_inverse)
  then show ?thesis using q by (simp only: occurs_at_shift simp_thms)
qed

lemma valid_up_to_le: "utf8_valid_up_to b \<le> length b"
  unfolding utf8_valid_up_to_def by (rule valid_up_to_nat_le [of "map unat b", simplified])

text \<open>\<open>x\<close> is what precedes the first occurrence in \<open>t\<close> of one of the stop strings.\<close>

definition cut_at :: "'a list list \<Rightarrow> 'a list \<Rightarrow> 'a list \<Rightarrow> bool" where
  "cut_at ss t x \<longleftrightarrow> (\<exists>s \<in> set ss. find_sub s t = Some (length x)) \<and> (\<exists>r. t = x @ r)"

lemma find_sub_append:
  assumes "s \<noteq> []" and "find_sub s t = Some i"
  shows "find_sub s (t @ u) = Some i"
proof -
  have i: "occurs_at s t i" "\<forall>j<i. \<not> occurs_at s t j" using assms find_sub_first(1) by auto
  have "\<not> occurs_at s (t @ u) j" if "j < i" for j
    using occurs_at_within [of s t u j] i that by (auto simp: occurs_at_def)
  then show ?thesis using occurs_at_append [OF i(1)] find_sub_first(1) [OF assms(1)] by blast
qed

lemma cut_at_append: "[] \<notin> set ss \<Longrightarrow> cut_at ss t x \<Longrightarrow> cut_at ss (t @ u) x"
  unfolding cut_at_def using find_sub_append by (metis append.assoc)

lemma push_stops:
  assumes "stream_inv db sent seen" and "push c db = (Stopped out, db')"
  shows "cut_at (stop_bytes db) (seen @ c) (sent @ out) \<and> buf db' = []"
proof -
  have inv: "sent @ buf db = seen" "[] \<notin> set (stop_bytes db)"
    using assms(1) by (auto simp: stream_inv_def)
  obtain p where p: "find_stop (buf db @ c) (stop_bytes db) = Some p" "out = take p (buf db @ c)" "buf db' = []"
    using assms(2) by (auto simp: push_def Let_def split: option.splits if_splits)
  obtain s where s: "s \<in> set (stop_bytes db)" "find_sub s (buf db @ c) = Some p"
    using find_stop_spec(2) [OF inv(2) p(1)] by blast
  then have at: "occurs_at s (buf db @ c) p"
    using find_sub_first(1) inv(2) by metis
  then have "p \<le> length (buf db @ c)" unfolding occurs_at_def by linarith
  then have len: "length out = p" by (simp only: p(2) length_take min_absorb2)
  have sn: "s \<noteq> []" using s(1) inv(2) by auto
  have seen: "seen @ c = sent @ (buf db @ c)" using inv(1) by auto
  have "\<not> occurs_at s (seen @ c) j" if "j < length sent + p" for j
    using stop_in_buffer [OF assms(1) s(1), of c j] s(2) that unfolding find_sub_first(1) [OF sn] by auto
  moreover have "occurs_at s (seen @ c) (length sent + p)" using at unfolding seen by (simp only: occurs_at_shift)
  ultimately have "find_sub s (seen @ c) = Some (length (sent @ out))"
    unfolding find_sub_first(1) [OF sn] len length_append by blast
  moreover have "seen @ c = (sent @ out) @ drop p (buf db @ c)"
    unfolding p(2) seen by (metis append.assoc append_take_drop_id)
  ultimately have "cut_at (stop_bytes db) (seen @ c) (sent @ out)"
    unfolding cut_at_def using s(1) by blast
  then show ?thesis using p(3) by auto
qed

lemma push_emits:
  assumes "stream_inv db sent seen" and "push c db = (Emit out, db')"
  shows "stream_inv db' (sent @ out) (seen @ c) \<and> stop_bytes db' = stop_bytes db"
proof -
  have inv: "sent @ buf db = seen" "[] \<notin> set (stop_bytes db)" "hold db = max_len (stop_bytes db) - 1"
    "sent = [] \<or> length sent + hold db \<le> length seen"
    using assms(1) by (auto simp: stream_inv_def)
  define b where "b = buf db @ c"
  define e where "e = utf8_valid_up_to (take (length b - hold db) b)"
  have e: "e \<le> length b - hold db"
    using valid_up_to_le [of "take (length b - hold db) b"] by (simp add: e_def)
  have none: "find_stop b (stop_bytes db) = None"
    using assms(2) by (auto simp: push_def Let_def b_def split: option.splits if_splits)
  then have no: "\<not> has_stop (stop_bytes db) (seen @ c)"
    using find_stop_spec(1) [OF inv(2)] stop_in_buffer [OF assms(1)] unfolding has_stop_def b_def by blast
  have "push c db = (if length b \<le> hold db \<or> e = 0 then (Emit [], db\<lparr>buf := b\<rparr>)
      else (Emit (take e b), db\<lparr>buf := drop e b\<rparr>))"
    using none by (simp add: push_def Let_def b_def [symmetric] e_def [symmetric])
  then consider "out = []" "db' = db\<lparr>buf := b\<rparr>"
    | "out = take e b" "db' = db\<lparr>buf := drop e b\<rparr>" "\<not> length b \<le> hold db"
    using assms(2) by (auto split: if_splits)
  then show ?thesis
  proof cases
    case 1
    then show ?thesis using inv no by (auto simp: stream_inv_def b_def)
  next
    case 2
    have "length (sent @ out) + hold db \<le> length (seen @ c)"
    proof -
      have "length out + hold db \<le> length b" using 2 e by simp
      moreover have "length sent + length b = length (seen @ c)" using inv(1) by (auto simp: b_def)
      ultimately show ?thesis by simp
    qed
    moreover have "(sent @ out) @ buf db' = seen @ c"
      using 2 inv(1) by (metis append.assoc append_take_drop_id b_def decode_buffer.select_convs(1) decode_buffer.surjective decode_buffer.update_convs(1))
    ultimately show ?thesis using 2 inv no by (simp add: stream_inv_def)
  qed
qed

lemma push_all_inv:
  assumes "stream_inv db sent seen" and "push_all db cs = (outs, st, db')"
  shows "if st then cut_at (stop_bytes db) (seen @ concat cs) (sent @ concat outs) \<and> buf db' = [] \<and> outs \<noteq> [] \<and>
                 (\<forall>t q. t \<in> set (stop_bytes db) \<longrightarrow> occurs_at t (seen @ concat cs) q \<longrightarrow>
                    length (sent @ concat (butlast outs)) \<le> q)
         else stream_inv db' (sent @ concat outs) (seen @ concat cs) \<and> stop_bytes db' = stop_bytes db \<and>
              length outs = length cs"
  using assms
proof (induction cs arbitrary: db sent seen outs)
  case Nil
  then show ?case by simp
next
  case (Cons c cs)
  obtain r db1 where r: "push c db = (r, db1)" by (cases "push c db") auto
  show ?case
  proof (cases r)
    case (Stopped out)
    then have outs: "outs = [out]" "st" "db' = db1" using Cons.prems(2) r by simp_all
    have cut: "cut_at (stop_bytes db) ((seen @ c) @ concat cs) (sent @ out)" "buf db1 = []"
      using push_stops [OF Cons.prems(1)] r Stopped cut_at_append Cons.prems(1) unfolding stream_inv_def by metis+
    have "length sent \<le> q" if "t \<in> set (stop_bytes db)" "occurs_at t (seen @ c @ concat cs) q" for t q
      using stop_in_buffer [OF Cons.prems(1) that(1), of "c @ concat cs" q] that(2) by simp
    then show ?thesis using outs cut by simp
  next
    case (Emit out)
    obtain outs' where oo: "push_all db1 cs = (outs', st, db')" "outs = out # outs'"
      using Cons.prems(2) r Emit by (auto split: prod.splits)
    have e: "stream_inv db1 (sent @ out) (seen @ c)" "stop_bytes db1 = stop_bytes db"
      using push_emits [OF Cons.prems(1)] r Emit by auto
    have ne: "outs' \<noteq> []" if st using Cons.IH [OF e(1) oo(1)] that by auto
    show ?thesis using Cons.IH [OF e(1) oo(1)] ne unfolding e(2) oo(2)
      by (cases st) simp_all
  qed
qed

subsection \<open>What the client sees\<close>

lemma stream_stops_exactly_aux:
  assumes "[] \<notin> set stops" and "push_all (buffer_new stops) cs = (outs, stopped, db)"
  shows "stopped \<longleftrightarrow> has_stop (map utf8 stops) (concat cs)"
proof -
  have sb: "stop_bytes (buffer_new stops) = map utf8 stops" by (simp add: buffer_new_def Let_def)
  note inv = push_all_inv [OF stream_inv_new [OF assms(1)] assms(2), unfolded sb]
  show ?thesis
  proof (cases stopped)
    case True
    then have cut: "cut_at (map utf8 stops) (concat cs) (concat outs)" using inv by simp
    then obtain s where s: "s \<in> set (map utf8 stops)" "find_sub s (concat cs) = Some (length (concat outs))"
      unfolding cut_at_def by blast
    moreover have "s \<noteq> []" using s(1) assms(1) by auto
    ultimately show ?thesis
      using True find_sub_first(1) unfolding has_stop_def by blast
  next
    case False
    then show ?thesis using inv by (auto simp: stream_inv_def)
  qed
qed

text \<open>
  C21. The stream stops exactly when some stop string occurs in the concatenated token bytes. If none does,
  the pieces sent and the final flush are together the whole text; if one does, they are the text before the
  first occurrence of one of the stop strings, the flush is empty, and no piece sent before the stopping
  push reached into any occurrence of any stop string. (No stop string is empty.)
\<close>

theorem stream_stops_exactly:
  assumes "[] \<notin> set stops" and "push_all (buffer_new stops) cs = (outs, stopped, db)"
  shows "(stopped \<longleftrightarrow> has_stop (map utf8 stops) (concat cs)) \<and>
    (if stopped
     then cut_at (map utf8 stops) (concat cs) (concat outs) \<and> fst (flush db) = [] \<and>
          (\<forall>t q. t \<in> set (map utf8 stops) \<longrightarrow> occurs_at t (concat cs) q \<longrightarrow> length (concat (butlast outs)) \<le> q)
     else concat outs @ fst (flush db) = concat cs \<and> length outs = length cs)"
proof -
  have sb: "stop_bytes (buffer_new stops) = map utf8 stops" by (simp add: buffer_new_def Let_def)
  note inv = push_all_inv [OF stream_inv_new [OF assms(1)] assms(2), unfolded sb]
  show ?thesis
    using stream_stops_exactly_aux [OF assms] inv sb by (cases stopped) (simp_all add: flush_def stream_inv_def)
qed

theorem stream_stops_exactly_witness:
  "cut_at (map utf8 [lit ''ab'']) (concat [utf8 (lit ''xa''), utf8 (lit ''bz'')])
     (concat (fst (push_all (buffer_new [lit ''ab'']) [utf8 (lit ''xa''), utf8 (lit ''bz'')])))"
proof -
  define st where "st = push_all (buffer_new [lit ''ab'']) [utf8 (lit ''xa''), utf8 (lit ''bz'')]"
  obtain outs s db where e: "st = (outs, s, db)" by (metis prod_cases3)
  have ne: "[] \<notin> set [lit ''ab'']" by (simp add: lit_def)
  have "occurs_at (utf8 (lit ''ab'')) (concat [utf8 (lit ''xa''), utf8 (lit ''bz'')]) 1"
    by (simp add: occurs_at_def utf8_def lit_def utf8_char_def)
  then have "has_stop (map utf8 [lit ''ab'']) (concat [utf8 (lit ''xa''), utf8 (lit ''bz'')])"
    unfolding has_stop_def by (intro exI [of _ "utf8 (lit ''ab'')"] exI [of _ 1]) simp
  then show ?thesis
    using stream_stops_exactly [OF ne, of _ outs s db] e unfolding st_def by (metis fst_conv)
qed

text \<open>
  With one stop string what the client sees does not depend on how the tokens cut the text: it is the text
  before the first occurrence of the stop string, or all of it.
\<close>

theorem stream_single_stop:
  assumes "s \<noteq> []" and "push_all (buffer_new [s]) cs = (outs, stopped, db)"
  shows "concat outs @ fst (flush db) =
    (case find_sub (utf8 s) (concat cs) of Some p \<Rightarrow> take p (concat cs) | None \<Rightarrow> concat cs)"
proof -
  have sb: "stop_bytes (buffer_new [s]) = [utf8 s]" by (simp add: buffer_new_def Let_def)
  have ne: "[] \<notin> set [s]" using assms(1) by simp
  note inv = push_all_inv [OF stream_inv_new [OF ne] assms(2), unfolded sb]
  show ?thesis
  proof (cases stopped)
    case True
    then show ?thesis using inv by (auto simp: flush_def cut_at_def)
  next
    case False
    then have "\<not> has_stop [utf8 s] (concat cs)" "concat outs @ buf db = concat cs"
      using inv sb by (auto simp: stream_inv_def)
    moreover from this have "find_sub (utf8 s) (concat cs) = None"
      using find_sub_first(2) [of "utf8 s"] assms(1) by (auto simp: has_stop_def)
    ultimately show ?thesis by (simp add: flush_def)
  qed
qed

theorem stream_single_stop_witness:
  "concat (fst (push_all (buffer_new [lit ''ab'']) [utf8 (lit ''xa''), utf8 (lit ''bz'')])) @
     fst (flush (snd (snd (push_all (buffer_new [lit ''ab'']) [utf8 (lit ''xa''), utf8 (lit ''bz'')])))) =
   utf8 (lit ''x'')"
proof -
  obtain outs st db where e: "push_all (buffer_new [lit ''ab'']) [utf8 (lit ''xa''), utf8 (lit ''bz'')] = (outs, st, db)"
    by (metis prod_cases3)
  have "find_sub (utf8 (lit ''ab'')) (concat [utf8 (lit ''xa''), utf8 (lit ''bz'')]) = Some 1"
    by (simp add: utf8_def lit_def utf8_char_def)
  then show ?thesis using stream_single_stop [OF _ e] unfolding e
    by (simp add: lit_def utf8_def utf8_char_def)
qed

subsection \<open>Whole characters, and the stall on an invalid byte\<close>

lemma ustr_ok_append [simp]: "ustr_ok (s @ t) \<longleftrightarrow> ustr_ok s \<and> ustr_ok t"
  by (simp add: ustr_ok_def)

lemma push_chars:
  assumes "push c db = (Emit out, db')" and "(buf db @ c) @ rest = utf8 t" and "ustr_ok t"
  shows "\<exists>k. out = utf8 (take k t) \<and> buf db' @ rest = utf8 (drop k t)"
proof -
  define b where "b = buf db @ c"
  define n where "n = length b - hold db"
  have pre: "take n b = take n (utf8 t)" using assms(2) by (metis b_def diff_le_self n_def take_append append_Nil2 diff_is_0_eq' take0)
  obtain k where k: "utf8_valid_up_to (take n b) = length (utf8 (take k t))"
    using utf8_valid_up_to_cut [OF assms(3), of n] unfolding pre by blast
  have split: "utf8 t = utf8 (take k t) @ utf8 (drop k t)" by (simp flip: utf8_append)
  have le: "length (utf8 (take k t)) \<le> length b"
    using valid_up_to_le [of "take n b"] k by simp
  have "b @ rest = utf8 (take k t) @ utf8 (drop k t)" using assms(2) split by (simp add: b_def)
  then have cut: "take (length (utf8 (take k t))) b = utf8 (take k t)"
    "drop (length (utf8 (take k t))) b @ rest = utf8 (drop k t)"
    using le by (auto simp: append_eq_append_conv_if split: if_splits)
  have "out = [] \<and> buf db' = b \<or> out = take (length (utf8 (take k t))) b \<and> buf db' = drop (length (utf8 (take k t))) b"
    using assms(1) by (auto simp: push_def Let_def b_def [symmetric] n_def [symmetric] k split: option.splits if_splits)
  then show ?thesis
  proof
    assume "out = [] \<and> buf db' = b"
    then show ?thesis using assms(2) by (intro exI [of _ 0]) (simp add: b_def)
  qed (use cut in auto)
qed

lemma stream_text:
  assumes "concat cs = utf8 body" and "ustr_ok body" and "[] \<notin> set stops"
    and "\<not> has_stop (map utf8 stops) (utf8 body)"
    and "push_all (buffer_new stops) cs = (outs, stopped, db)"
  shows "concat (map from_utf8_lossy outs) @ from_utf8_lossy (fst (flush db)) = body"
proof -
  have ns: "\<not> stopped" using stream_stops_exactly_aux [OF assms(3,5)] assms(1,4) by simp
  have main: "concat (map from_utf8_lossy outs) @ from_utf8_lossy (buf db') = t"
    if "push_all d cs = (outs, False, db')" "buf d @ concat cs = utf8 t" "ustr_ok t" for d cs outs db' t
    using that
  proof (induction cs arbitrary: d t outs)
    case Nil
    then show ?case by (simp add: lossy_utf8)
  next
    case (Cons c cs)
    obtain out d1 outs' where p: "push c d = (Emit out, d1)" "push_all d1 cs = (outs', False, db')" "outs = out # outs'"
      using Cons.prems(1) by (auto split: prod.splits push_result.splits)
    obtain k where k: "out = utf8 (take k t)" "buf d1 @ concat cs = utf8 (drop k t)"
      using push_chars [OF p(1), of "concat cs" t] Cons.prems(2,3) by auto
    have ok: "ustr_ok (take k t)" "ustr_ok (drop k t)"
      using Cons.prems(3) by (metis append_take_drop_id ustr_ok_append)+
    show ?case using Cons.IH [OF p(2) k(2) ok(2)] p(3) k(1) lossy_utf8 [OF ok(1)]
      by simp
  qed
  show ?thesis
    using main [of "buffer_new stops" cs outs db body] assms(1,2,5) ns by (simp add: flush_def buffer_new_def Let_def)
qed

text \<open>
  C23. When the tokens together spell valid text and no stop string occurs, every piece sent is a whole
  number of characters, so that decoding each piece by itself (as the server does, lossily) loses nothing:
  the decoded pieces and the decoded flush spell the text.
\<close>

theorem stream_whole_characters:
  assumes "concat cs = utf8 body" and "ustr_ok body" and "[] \<notin> set stops"
    and "\<not> has_stop (map utf8 stops) (utf8 body)"
    and "push_all (buffer_new stops) cs = (outs, stopped, db)"
  shows "concat (map from_utf8_lossy outs) @ from_utf8_lossy (fst (flush db)) = body"
  by (rule stream_text [OF assms])

theorem stream_whole_characters_witness:
  "concat (map from_utf8_lossy (fst (push_all (buffer_new []) [[0xE2, 0x82], [0xAC], [0x21]]))) @
   from_utf8_lossy (fst (flush (snd (snd (push_all (buffer_new []) [[0xE2, 0x82], [0xAC], [0x21]]))))) = [0x20AC, 0x21]"
proof -
  obtain outs st db where e: "push_all (buffer_new []) [[0xE2, 0x82], [0xAC], [0x21]] = (outs, st, db)"
    by (metis prod_cases3)
  have "concat [[0xE2, 0x82], [0xAC], [0x21]] = utf8 [0x20AC, 0x21]"
    by (simp add: utf8_def utf8_char_def)
  moreover have "ustr_ok [0x20AC, 0x21]" by (simp add: ustr_ok_def scalar_def)
  moreover have "\<not> has_stop (map utf8 []) (utf8 [0x20AC, 0x21])" by (simp add: has_stop_def)
  ultimately show ?thesis
    using stream_whole_characters [OF _ _ _ _ e] unfolding e by simp
qed

lemma valid_up_to_bad_head:
  assumes "0x80 \<le> unat x \<and> unat x < 0xC2 \<or> 0xF5 \<le> unat x" and "b = x # r"
  shows "utf8_valid_up_to (take n b) = 0"
proof (cases n)
  case (Suc m)
  have "fst (utf8_step (unat x # map unat (take m r))) = None"
    using assms(1) by (auto simp: utf8_step_def)
  then show ?thesis using Suc assms(2)
    by (simp add: utf8_valid_up_to_def valid_up_to_step [of "unat x # map unat (take m r)"])
qed (simp add: utf8_valid_up_to_def)

text \<open>
  A byte that can never begin a character blocks the stream: once it is at the head of the buffer, no later
  push sends anything (unless a stop string comes up), and all later text waits for the flush.
\<close>

theorem invalid_byte_stalls:
  assumes "buf db = x # r" and "0x80 \<le> unat x \<and> unat x < 0xC2 \<or> 0xF5 \<le> unat x"
    and "push_all db cs = (outs, False, db')"
  shows "concat outs = [] \<and> fst (flush db') = x # r @ concat cs"
proof -
  have "concat outs = [] \<and> buf db' = x # r @ concat cs"
    using assms(1,3)
  proof (induction cs arbitrary: db r outs)
    case Nil
    then show ?case by simp
  next
    case (Cons c cs)
    obtain out d1 outs' where p: "push c db = (Emit out, d1)" "push_all d1 cs = (outs', False, db')" "outs = out # outs'"
      using Cons.prems(2) by (auto split: prod.splits push_result.splits)
    have "out = [] \<and> buf d1 = x # (r @ c)"
      using p(1) valid_up_to_bad_head [OF assms(2), of "x # (r @ c)" "r @ c"] Cons.prems(1)
      by (auto simp: push_def Let_def split: option.splits if_splits)
    then show ?case using Cons.IH [of d1 "r @ c" outs'] p by simp
  qed
  then show ?thesis by (simp add: flush_def)
qed

theorem invalid_byte_stalls_witness:
  "push_all \<lparr>buf = [0x80], stop_bytes = [], hold = 0\<rparr> [[0x61], [0x62, 0x63]] =
     ([[], []], False, \<lparr>buf = [0x80, 0x61, 0x62, 0x63], stop_bytes = [], hold = 0\<rparr>) \<and>
   concat [[], []] = ([] :: bytes)"
proof -
  have v: "utf8_valid_up_to [0x80, 0x61] = 0" "utf8_valid_up_to [0x80, 0x61, 0x62, 0x63] = 0"
    using valid_up_to_bad_head [of "0x80" "[0x80, 0x61]" _ 2] valid_up_to_bad_head [of "0x80" "[0x80, 0x61, 0x62, 0x63]" _ 4]
    by simp_all
  have e: "push_all \<lparr>buf = [0x80], stop_bytes = [], hold = 0\<rparr> [[0x61], [0x62, 0x63]] =
     ([[], []], False, \<lparr>buf = [0x80, 0x61, 0x62, 0x63], stop_bytes = [], hold = 0\<rparr>)"
    using v by (simp add: push_def)
  show ?thesis using invalid_byte_stalls [OF _ _ e, of "0x80" "[]"] e by simp
qed

text \<open>
  With several stop strings the first in list order wins, not the first in the text: a piece sent can then
  contain a whole stop string.
\<close>

lemma list_order_leaks_stop:
  "push_all (buffer_new [lit ''zz'', lit ''a'']) [utf8 (lit ''azz'')] =
     ([utf8 (lit ''a'')], True, (buffer_new [lit ''zz'', lit ''a''])\<lparr>buf := []\<rparr>)"
  by (simp add: push_def buffer_new_def Let_def lit_def utf8_def utf8_char_def memmem_def max_len_def)

end
