(* ===== verification/Tokenizer.thy ===== *)
theory Tokenizer
  imports Token_Stream
begin

text \<open>
  \<^verbatim>\<open>tokenizer.rs\<close>: the SPTB vocabulary format, the byte image of the vocabulary, end-of-sequence and
  suppressed ids, and the chat templates as text and as ids. The encoders (the \<^verbatim>\<open>tokenizers\<close> crate,
  the C encoder) and \<^verbatim>\<open>generation_config.json\<close> are parameters: what building and calling them returns.
\<close>

record message =
  role :: ustr
  content :: ustr

definition TYPE_BPE_LLAMA3 :: u32 where "TYPE_BPE_LLAMA3 = 1"
definition TYPE_BPE_GPT2 :: u32 where "TYPE_BPE_GPT2 = 2"
definition TYPE_GEMMA4_BPE :: u32 where "TYPE_GEMMA4_BPE = 4"
definition ARCH_QWEN3 :: u32 where "ARCH_QWEN3 = 2"
definition ARCH_GEMMA3 :: u32 where "ARCH_GEMMA3 = 3"
definition ARCH_QWEN36 :: u32 where "ARCH_QWEN36 = 8"
definition ARCH_QWEN25 :: u32 where "ARCH_QWEN25 = 6"
definition ARCH_GEMMA4 :: u32 where "ARCH_GEMMA4 = 7"

lemmas arch_defs = ARCH_QWEN3_def ARCH_GEMMA3_def ARCH_QWEN36_def ARCH_QWEN25_def ARCH_GEMMA4_def

definition qwen :: "u32 \<Rightarrow> bool" where
  "qwen a \<longleftrightarrow> a = ARCH_QWEN3 \<or> a = ARCH_QWEN25 \<or> a = ARCH_QWEN36"

definition gemma :: "u32 \<Rightarrow> bool" where
  "gemma a \<longleftrightarrow> a = ARCH_GEMMA3 \<or> a = ARCH_GEMMA4"

subsection \<open>The SPTB blob\<close>

record sptb_data =
  type_id :: u32
  vocab :: "ustr list"
  merges :: "(ustr \<times> ustr) list"

datatype sptb_error =
    TruncatedMagic | BadMagic u32 | TruncatedTypeId | TruncatedVocabSize | TruncatedNMerges
  | TruncatedVocab nat | TruncatedScores | TruncatedMerge nat | NoSeparator nat

text \<open>Readers return the value and the new position.\<close>

definition get_range :: "nat \<Rightarrow> nat \<Rightarrow> 'a list \<Rightarrow> 'a list option" where
  "get_range i j b = (if i \<le> j \<and> j \<le> length b then Some (bslice i j b) else None)"

definition read_u32 :: "bytes \<Rightarrow> nat \<Rightarrow> (u32 \<times> nat) option" where
  "read_u32 b pos = (case get_range pos (pos + 4) b of Some w \<Rightarrow> Some (from_le w, pos + 4) | None \<Rightarrow> None)"

definition read_str :: "bytes \<Rightarrow> nat \<Rightarrow> (ustr \<times> nat) option" where
  "read_str b pos =
     (case read_u32 b pos of None \<Rightarrow> None
      | Some (w, pos1) \<Rightarrow>
          let len = unat w in
          (case get_range pos1 (pos1 + len) b of None \<Rightarrow> None
           | Some raw \<Rightarrow> (case from_utf8 raw of None \<Rightarrow> None | Some s \<Rightarrow> Some (s, pos1 + len))))"

fun read_vocab :: "bytes \<Rightarrow> nat \<Rightarrow> nat \<Rightarrow> nat \<Rightarrow> sptb_error + (ustr list \<times> nat)" where
  "read_vocab b 0 i pos = Inr ([], pos)"
| "read_vocab b (Suc n) i pos =
     (case read_str b pos of None \<Rightarrow> Inl (TruncatedVocab i)
      | Some (s, pos') \<Rightarrow>
          (case read_vocab b n (Suc i) pos' of Inl e \<Rightarrow> Inl e | Inr (ss, p) \<Rightarrow> Inr (s # ss, p)))"

fun read_merges :: "bytes \<Rightarrow> nat \<Rightarrow> nat \<Rightarrow> nat \<Rightarrow> sptb_error + (ustr \<times> ustr) list" where
  "read_merges b 0 i pos = Inr []"
| "read_merges b (Suc n) i pos =
     (case read_str b pos of None \<Rightarrow> Inl (TruncatedMerge i)
      | Some (s, pos') \<Rightarrow>
          (case find_sub [32] s of None \<Rightarrow> Inl (NoSeparator i)
           | Some sep \<Rightarrow>
               (case read_merges b n (Suc i) pos' of Inl e \<Rightarrow> Inl e
                | Inr ms \<Rightarrow> Inr ((take sep s, drop (sep + 1) s) # ms))))"

definition SPTB_MAGIC :: u32 where "SPTB_MAGIC = 0x42545053"

definition parse_sptb :: "bytes \<Rightarrow> sptb_error + sptb_data" where
  "parse_sptb blob =
     (case read_u32 blob 0 of None \<Rightarrow> Inl TruncatedMagic
      | Some (magic, p1) \<Rightarrow> if magic \<noteq> SPTB_MAGIC then Inl (BadMagic magic) else
     (case read_u32 blob p1 of None \<Rightarrow> Inl TruncatedTypeId
      | Some (ty, p2) \<Rightarrow>
     (case read_u32 blob p2 of None \<Rightarrow> Inl TruncatedVocabSize
      | Some (vs, p3) \<Rightarrow>
     (case read_u32 blob p3 of None \<Rightarrow> Inl TruncatedNMerges
      | Some (nm, p4) \<Rightarrow>
     (case read_vocab blob (unat vs) 0 p4 of Inl e \<Rightarrow> Inl e
      | Inr (vo, p5) \<Rightarrow>
          let skip = unat vs * 4 in
          if ty = 0 \<and> length blob < p5 + skip then Inl TruncatedScores
          else (case read_merges blob (unat nm) 0 (if ty = 0 then p5 + skip else p5) of
                  Inl e \<Rightarrow> Inl e
                | Inr ms \<Rightarrow> Inr \<lparr>type_id = ty, vocab = vo, merges = ms\<rparr>))))))"

subsection \<open>Byte images of tokens\<close>

definition gpt2_char_to_byte :: "nat \<Rightarrow> u8 option" where
  "gpt2_char_to_byte cp =
     (if 0x21 \<le> cp \<and> cp \<le> 0x7E then Some (of_nat cp)
      else if 0xA1 \<le> cp \<and> cp \<le> 0xAC then Some (of_nat cp)
      else if 0xAE \<le> cp \<and> cp \<le> 0xFF then Some (of_nat cp)
      else if 0x100 \<le> cp \<and> cp \<le> 0x120 then Some (of_nat (cp - 0x100))
      else if cp = 0x121 then Some 0x7F
      else if 0x122 \<le> cp \<and> cp \<le> 0x142 then Some (of_nat (cp - 0x122 + 0x80))
      else if cp = 0x143 then Some 0xAD
      else None)"

definition gpt2_decode :: "ustr \<Rightarrow> bytes" where
  "gpt2_decode s = List.map_filter gpt2_char_to_byte s"

definition spm_bytes :: "ustr \<Rightarrow> bytes" where
  "spm_bytes s = utf8 (map (\<lambda>c. if c = 0x2581 then 32 else c) s)"

subsection \<open>Control tokens\<close>

fun ids_where :: "('a \<Rightarrow> bool) \<Rightarrow> nat \<Rightarrow> 'a list \<Rightarrow> i32 list" where
  "ids_where P i [] = []"
| "ids_where P i (t # ts) = (if P t then of_nat i # ids_where P (Suc i) ts else ids_where P (Suc i) ts)"

definition eos_names :: "u32 \<Rightarrow> ustr list" where
  "eos_names a = (if qwen a then [lit ''<|im_end|>'', lit ''<|endoftext|>'']
     else if gemma a then [lit ''<eos>'', lit ''<end_of_turn>''] else [])"

definition find_eos_ids :: "u32 \<Rightarrow> ustr list \<Rightarrow> i32 list" where
  "find_eos_ids a vo = ids_where (\<lambda>t. t \<in> set (eos_names a)) 0 vo"

text \<open>The byte string of an ASCII literal.\<close>

definition blit :: "string \<Rightarrow> bytes" where
  "blit s = map of_char s"

definition is_unused_reserve :: "bytes \<Rightarrow> bool" where
  "is_unused_reserve b \<longleftrightarrow> take 7 b = blit ''<unused'' \<and> b \<noteq> [] \<and> last b = 62"

definition is_suppressed_control :: "bytes \<Rightarrow> bool" where
  "is_suppressed_control b =
     (if b = blit ''<|turn>'' \<or> b = blit ''<turn|>'' then False
      else let pipe_control = b \<noteq> [] \<and> hd b = 60 \<and> last b = 62 \<and> 124 \<in> set b;
               named_special = b \<in> set [blit ''<pad>'', blit ''<bos>'', blit ''<unk>'', blit ''<mask>''] \<or> is_unused_reserve b
           in pipe_control \<or> named_special)"

fun first_pos :: "('a \<Rightarrow> bool) \<Rightarrow> 'a list \<Rightarrow> nat option" where
  "first_pos P [] = None"
| "first_pos P (x # xs) = (if P x then Some 0 else map_option Suc (first_pos P xs))"

subsection \<open>The tokenizer\<close>

type_synonym 'e encoder = "ustr \<Rightarrow> 'e + i32 list"

datatype 'e tok_error =
    BlobError 'e | SptbError sptb_error | BpeBuild 'e | CLoad 'e | VocabMismatch nat nat
  | EncodeFailed 'e | EncodeUnsupported u32 | NoTemplate u32

record 'e sptb_tokenizer =
  inner :: "'e encoder option"
  c_tokenizer :: "'e encoder option"
  id_to_bytes :: "bytes list"
  eos_ids :: "i32 list"
  arch_id :: u32
  tok_type_id :: u32
  bos_id :: "i32 option"
  config_suppress :: "i32 list"

text \<open>Appending the ids that are not in the list yet.\<close>

definition push_new :: "i32 list \<Rightarrow> i32 \<Rightarrow> i32 list" where
  "push_new out e = (if e \<in> set out then out else out @ [e])"

definition build_eos_ids :: "u32 \<Rightarrow> ustr list \<Rightarrow> i32 list \<Rightarrow> i32 list" where
  "build_eos_ids a vo config_eos =
     (let ids0 = find_eos_ids a vo;
          ids1 = foldl push_new ids0 (filter (\<lambda>e. as_usize e < length vo) config_eos)
      in if gemma a
         then (case first_pos (\<lambda>t. t = lit ''<turn|>'') vo of
                 Some end_pos \<Rightarrow> push_new ids1 (of_nat end_pos) | None \<Rightarrow> ids1)
         else ids1)"

text \<open>
  \<open>blob\<close> is what \<^verbatim>\<open>tokenizer_blob\<close> returns, \<open>config\<close> the suppressed and end ids of the generation
  configuration, \<open>bpe\<close> the BPE builder of the library (vocabulary, merges, special tokens) and
  \<open>c_load\<close> the C encoder of the tokenizer file with its vocabulary size.
\<close>

definition tok_build ::
  "'e + bytes \<Rightarrow> u32 \<Rightarrow> i32 list \<times> i32 list \<Rightarrow>
   ((ustr \<times> nat) list \<Rightarrow> (ustr \<times> ustr) list \<Rightarrow> ustr list \<Rightarrow> 'e + 'e encoder) \<Rightarrow>
   'e + ('e encoder \<times> nat) \<Rightarrow> 'e tok_error + 'e sptb_tokenizer" where
  "tok_build blob a config bpe c_load =
     (case blob of Inl e \<Rightarrow> Inl (BlobError e) | Inr raw \<Rightarrow>
     (case parse_sptb raw of Inl e \<Rightarrow> Inl (SptbError e) | Inr d \<Rightarrow>
      let vo = vocab d;
          is_bpe = type_id d = TYPE_BPE_GPT2 \<or> type_id d = TYPE_BPE_LLAMA3;
          is_gemma4 = type_id d = TYPE_GEMMA4_BPE;
          specials = filter (\<lambda>t. t \<noteq> [] \<and> hd t = 60 \<and> last t = 62) vo;
          inner_result = (if is_bpe then map_sum id Some (bpe (zip vo [0..<length vo]) (merges d) specials) else Inr None)
      in case inner_result of Inl e \<Rightarrow> Inl (BpeBuild e) | Inr inn \<Rightarrow>
         let tok = \<lparr>inner = inn, c_tokenizer = None,
               id_to_bytes = (if is_bpe then map gpt2_decode vo else map spm_bytes vo),
               eos_ids = build_eos_ids a vo (snd config), arch_id = a, tok_type_id = type_id d,
               bos_id = map_option of_nat (first_pos (\<lambda>t. t = lit ''<bos>'') vo),
               config_suppress = fst config\<rparr>
         in if is_gemma4
            then (case c_load of Inl e \<Rightarrow> Inl (CLoad e)
                  | Inr (c, cvs) \<Rightarrow>
                      if cvs \<noteq> length vo then Inl (VocabMismatch cvs (length vo))
                      else Inr (tok\<lparr>c_tokenizer := Some c\<rparr>))
            else Inr tok))"

definition encode :: "'e sptb_tokenizer \<Rightarrow> ustr \<Rightarrow> 'e tok_error + i32 list" where
  "encode tok s =
     (case c_tokenizer tok of Some c \<Rightarrow> map_sum EncodeFailed id (c s)
      | None \<Rightarrow> (case inner tok of None \<Rightarrow> Inl (EncodeUnsupported (tok_type_id tok))
                 | Some e \<Rightarrow> map_sum EncodeFailed id (e s)))"

definition encode_no_bos :: "'e sptb_tokenizer \<Rightarrow> ustr \<Rightarrow> 'e tok_error + i32 list" where
  "encode_no_bos tok s =
     (case encode tok s of Inl e \<Rightarrow> Inl e
      | Inr ids \<Rightarrow>
          if c_tokenizer tok \<noteq> None
          then (case bos_id tok of
                  Some bos \<Rightarrow> if ids \<noteq> [] \<and> hd ids = bos then Inr (tl ids) else Inr ids
                | None \<Rightarrow> Inr ids)
          else Inr ids)"

definition control_id :: "'e sptb_tokenizer \<Rightarrow> bytes \<Rightarrow> i32 option" where
  "control_id tok surface = map_option of_nat (first_pos (\<lambda>b. b = surface) (id_to_bytes tok))"

definition decode_token :: "'e sptb_tokenizer \<Rightarrow> i32 \<Rightarrow> bytes" where
  "decode_token tok i = (if as_usize i < length (id_to_bytes tok) then id_to_bytes tok ! as_usize i else [])"

definition default_stops :: "'e sptb_tokenizer \<Rightarrow> ustr list" where
  "default_stops tok =
     (if gemma (arch_id tok) then
        [lit ''<end_of_turn>'', lit ''<start_of_turn>'', lit ''<|turn>'', lit ''<turn|>'',
         [10, 10] @ lit ''Question:'', [10] @ lit ''User:'', [10, 10] @ lit ''User'', [10] @ lit ''Question:'',
         [10] @ lit ''user'' @ [10], [10] @ lit ''model'' @ [10], [10] @ lit ''User'' @ [10], [10] @ lit ''Model'' @ [10]]
      else [])"

definition turn_stop_ids :: "'e sptb_tokenizer \<Rightarrow> i32 list" where
  "turn_stop_ids tok =
     (if gemma (arch_id tok) then ids_where (\<lambda>b. b = blit ''<|turn>'' \<or> b = blit ''<turn|>'') 0 (id_to_bytes tok)
      else [])"

definition suppress_token_ids :: "'e sptb_tokenizer \<Rightarrow> i32 list" where
  "suppress_token_ids tok =
     foldl (\<lambda>out i. if as_usize i < length (id_to_bytes tok) then push_new out i else out)
       (ids_where is_suppressed_control 0 (id_to_bytes tok)) (config_suppress tok)"

subsection \<open>Chat templates\<close>

definition chatml_template :: "message list \<Rightarrow> ustr" where
  "chatml_template ms =
     (if ms = [] \<or> role (hd ms) \<noteq> lit ''system''
      then lit ''<|im_start|>system'' @ [10] @ lit ''<|im_end|>'' @ [10] else []) @
     concat (map (\<lambda>m. lit ''<|im_start|>'' @ role m @ [10] @ content m @ lit ''<|im_end|>'' @ [10]) ms) @
     lit ''<|im_start|>assistant'' @ [10]"

definition turn_role :: "message \<Rightarrow> ustr" where
  "turn_role m = (if role m = lit ''assistant'' then lit ''model'' else role m)"

definition gemma3_template :: "message list \<Rightarrow> ustr" where
  "gemma3_template ms =
     concat (map (\<lambda>m. lit ''<start_of_turn>'' @ turn_role m @ [10] @ content m @ lit ''<end_of_turn>'' @ [10]) ms) @
     lit ''<start_of_turn>model'' @ [10]"

definition apply_template :: "'e sptb_tokenizer \<Rightarrow> message list \<Rightarrow> 'e tok_error + ustr" where
  "apply_template tok ms =
     (if qwen (arch_id tok) then Inr (chatml_template ms)
      else if gemma (arch_id tok) then Inr (gemma3_template ms)
      else Inl (NoTemplate (arch_id tok)))"

fun template_turns ::
  "'e sptb_tokenizer \<Rightarrow> i32 \<Rightarrow> i32 \<Rightarrow> i32 \<Rightarrow> message list \<Rightarrow> i32 list \<Rightarrow> 'e tok_error + i32 list" where
  "template_turns tok start_turn end_turn nl [] out = Inr out"
| "template_turns tok start_turn end_turn nl (m # ms) out =
     (case encode_no_bos tok (turn_role m) of Inl e \<Rightarrow> Inl e | Inr r \<Rightarrow>
     (case encode_no_bos tok (content m) of Inl e \<Rightarrow> Inl e | Inr c \<Rightarrow>
      template_turns tok start_turn end_turn nl ms (out @ [start_turn] @ r @ [nl] @ c @ [end_turn] @ [nl])))"

definition apply_template_ids :: "'e sptb_tokenizer \<Rightarrow> message list \<Rightarrow> 'e tok_error + i32 list" where
  "apply_template_ids tok ms =
     (if gemma (arch_id tok) then
        (case (control_id tok (blit ''<|turn>''), control_id tok (blit ''<turn|>''), control_id tok [10]) of
           (Some start_turn, Some end_turn, Some nl) \<Rightarrow>
             (case template_turns tok start_turn end_turn nl ms (case bos_id tok of Some b \<Rightarrow> [b] | None \<Rightarrow> []) of
                Inl e \<Rightarrow> Inl e
              | Inr out \<Rightarrow>
                  (case encode_no_bos tok (lit ''model'') of Inl e \<Rightarrow> Inl e
                   | Inr r \<Rightarrow> Inr (out @ [start_turn] @ r @ [nl])))
         | _ \<Rightarrow> encode tok (gemma3_template ms))
      else if qwen (arch_id tok) then encode tok (chatml_template ms)
      else Inl (NoTemplate (arch_id tok)))"

subsection \<open>The blob format\<close>

definition str_image :: "ustr \<Rightarrow> bytes" where
  "str_image s = to_le 4 (of_nat (length (utf8 s)) :: u32) @ utf8 s"

definition str_fits :: "ustr \<Rightarrow> bool" where
  "str_fits s \<longleftrightarrow> ustr_ok s \<and> length (utf8 s) < 2 ^ 32"

definition merge_line :: "ustr \<times> ustr \<Rightarrow> ustr" where
  "merge_line m = fst m @ [32] @ snd m"

definition sptb_image :: "sptb_data \<Rightarrow> bytes \<Rightarrow> bytes" where
  "sptb_image d scores =
     to_le 4 SPTB_MAGIC @ to_le 4 (type_id d) @ to_le 4 (of_nat (length (vocab d)) :: u32) @
     to_le 4 (of_nat (length (merges d)) :: u32) @ concat (map str_image (vocab d)) @ scores @
     concat (map (\<lambda>m. str_image (merge_line m)) (merges d))"

definition sptb_ok :: "sptb_data \<Rightarrow> bytes \<Rightarrow> bool" where
  "sptb_ok d scores \<longleftrightarrow> length (vocab d) < 2 ^ 32 \<and> length (merges d) < 2 ^ 32 \<and>
     list_all str_fits (vocab d) \<and> list_all (\<lambda>m. 32 \<notin> set (fst m) \<and> str_fits (merge_line m)) (merges d) \<and>
     length scores = (if type_id d = 0 then 4 * length (vocab d) else 0)"

text \<open>\<open>spans b pos x p\<close>: the bytes of \<open>b\<close> from \<open>pos\<close> to \<open>p\<close> are \<open>x\<close>.\<close>

definition spans :: "bytes \<Rightarrow> nat \<Rightarrow> bytes \<Rightarrow> nat \<Rightarrow> bool" where
  "spans b pos x p \<longleftrightarrow> pos \<le> p \<and> p \<le> length b \<and> x = bslice pos p b"

lemma spans_end: "spans b pos x p \<Longrightarrow> p = pos + length x \<and> pos \<le> length b \<and> p \<le> length b"
  by (auto simp: spans_def)

lemma spans_append: "spans b pos (x @ y) p \<longleftrightarrow> (\<exists>q. spans b pos x q \<and> spans b q y p)"
proof
  assume a: "spans b pos (x @ y) p"
  define q where "q = pos + length x"
  have q: "pos \<le> q" "q \<le> p" "p \<le> length b" using spans_end [OF a] by (auto simp: q_def)
  have "bslice pos q b @ bslice q p b = x @ y"
    using a q by (simp add: bslice_glue spans_def)
  moreover have "length (bslice pos q b) = length x" using q by (simp add: q_def)
  ultimately show "\<exists>q. spans b pos x q \<and> spans b q y p"
    using q by (intro exI [of _ q]) (simp add: spans_def)
next
  assume "\<exists>q. spans b pos x q \<and> spans b q y p"
  then show "spans b pos (x @ y) p" by (auto simp: spans_def bslice_glue)
qed

lemma spans_Nil [simp]: "spans b pos [] p \<longleftrightarrow> pos \<le> length b \<and> p = pos"
  by (auto simp: spans_def bslice_def)

lemma spans_all: "spans b 0 x p \<longleftrightarrow> (\<exists>rest. b = x @ rest \<and> p = length x)"
  by (auto simp: spans_def bslice_def) (metis append_take_drop_id)

lemma get_range_spans: "get_range pos q b = Some x \<longleftrightarrow> spans b pos x q"
  by (auto simp: get_range_def spans_def)

lemma read_u32_iff: "read_u32 b pos = Some (w, p) \<longleftrightarrow> spans b pos (to_le 4 w) p"
proof
  assume "read_u32 b pos = Some (w, p)"
  then obtain x where x: "spans b pos x (pos + 4)" "w = from_le x" "p = pos + 4"
    unfolding read_u32_def get_range_spans [symmetric] by (auto split: option.splits)
  then have "length x = 4" by (simp add: spans_def)
  then show "spans b pos (to_le 4 w) p" using x by (simp add: to_le_from_le_widths)
next
  assume a: "spans b pos (to_le 4 w) p"
  then have "p = pos + 4" using spans_end [OF a] by simp
  then show "read_u32 b pos = Some (w, p)" using a [folded get_range_spans] by (simp add: read_u32_def)
qed

lemma read_str_iff: "read_str b pos = Some (s, p) \<longleftrightarrow> str_fits s \<and> spans b pos (str_image s) p"
proof
  assume "read_str b pos = Some (s, p)"
  then obtain w q raw where r: "read_u32 b pos = Some (w, q)" "get_range q (q + unat w) b = Some raw"
    "from_utf8 raw = Some s" "p = q + unat w"
    unfolding read_str_def Let_def by (auto split: option.splits prod.splits)
  have raw: "raw = utf8 s" "ustr_ok s" using r(3) by (auto simp: from_utf8_iff)
  have sp: "spans b pos (to_le 4 w) q" "spans b q (utf8 s) p"
    using r(1,2,4) raw by (simp_all add: read_u32_iff get_range_spans)
  then have len: "length (utf8 s) = unat w" using r(4) spans_end [OF sp(2)] by simp
  have "unat w < 2 ^ 32" using unsigned_less [of w] by simp
  then show "str_fits s \<and> spans b pos (str_image s) p"
    using sp raw(2) unfolding str_fits_def str_image_def spans_append len by auto
next
  assume a: "str_fits s \<and> spans b pos (str_image s) p"
  then obtain q where q: "spans b pos (to_le 4 (of_nat (length (utf8 s)) :: u32)) q" "spans b q (utf8 s) p"
    by (auto simp: str_image_def spans_append)
  have u: "unat (of_nat (length (utf8 s)) :: u32) = length (utf8 s)"
    using a by (simp add: str_fits_def unat_of_nat)
  have p: "p = q + length (utf8 s)" using spans_end [OF q(2)] by simp
  have f: "from_utf8 (utf8 s) = Some s" using a by (simp add: from_utf8_utf8 str_fits_def)
  show "read_str b pos = Some (s, p)"
    using q(1) [folded read_u32_iff] q(2) [unfolded p, folded get_range_spans] p u f
    by (simp add: read_str_def)
qed

lemma read_vocab_iff:
  "pos \<le> length b \<Longrightarrow> read_vocab b n i pos = Inr (ss, p) \<longleftrightarrow>
     length ss = n \<and> list_all str_fits ss \<and> spans b pos (concat (map str_image ss)) p"
proof (induction n arbitrary: i pos ss)
  case 0
  then show ?case by auto
next
  case (Suc n)
  have ih: "read_vocab b n (Suc i) q = Inr (ss', p) \<longleftrightarrow>
      length ss' = n \<and> list_all str_fits ss' \<and> spans b q (concat (map str_image ss')) p"
    if "spans b pos x q" for q ss' x
    using Suc.IH spans_end [OF that] by blast
  have "read_vocab b (Suc n) i pos = Inr (ss, p) \<longleftrightarrow>
      (\<exists>s q ss'. ss = s # ss' \<and> read_str b pos = Some (s, q) \<and> read_vocab b n (Suc i) q = Inr (ss', p))"
    by (auto split: option.splits sum.splits prod.splits)
  also have "\<dots> \<longleftrightarrow> (\<exists>s q ss'. ss = s # ss' \<and> str_fits s \<and> spans b pos (str_image s) q \<and>
      length ss' = n \<and> list_all str_fits ss' \<and> spans b q (concat (map str_image ss')) p)"
    unfolding read_str_iff using ih by (intro ex_cong1) blast
  also have "\<dots> \<longleftrightarrow> length ss = Suc n \<and> list_all str_fits ss \<and> spans b pos (concat (map str_image ss)) p"
    by (cases ss) (auto simp: spans_append)
  finally show ?case .
qed

lemma split_merge: "find_sub [32] s = Some k \<longleftrightarrow>
    s = merge_line (take k s, drop (k + 1) s) \<and> 32 \<notin> set (take k s) \<and> k < length s"
proof (induction s arbitrary: k)
  case (Cons c s)
  then show ?case by (cases k) (auto simp: merge_line_def)
qed simp

lemma find_merge_line: "32 \<notin> set a \<Longrightarrow> find_sub [32] (merge_line (a, c)) = Some (length a)"
  by (induction a) (simp_all add: merge_line_def)

lemma merge_of_line:
  "(take (length (fst m)) (merge_line m), drop (length (fst m) + 1) (merge_line m)) = m"
  by (cases m) (simp add: merge_line_def)

lemma read_merges_iff:
  "pos \<le> length b \<Longrightarrow> read_merges b n i pos = Inr ms \<longleftrightarrow>
     length ms = n \<and> list_all (\<lambda>m. 32 \<notin> set (fst m) \<and> str_fits (merge_line m)) ms \<and>
     (\<exists>p. spans b pos (concat (map (\<lambda>m. str_image (merge_line m)) ms)) p)"
proof (induction n arbitrary: i pos ms)
  case 0
  then show ?case by auto
next
  case (Suc n)
  have one: "(\<exists>s k. read_str b pos = Some (s, q) \<and> find_sub [32] s = Some k \<and> m = (take k s, drop (k + 1) s)) \<longleftrightarrow>
      32 \<notin> set (fst m) \<and> read_str b pos = Some (merge_line m, q)" for m q
  proof
    assume "\<exists>s k. read_str b pos = Some (s, q) \<and> find_sub [32] s = Some k \<and> m = (take k s, drop (k + 1) s)"
    then show "32 \<notin> set (fst m) \<and> read_str b pos = Some (merge_line m, q)" using split_merge by fastforce
  next
    assume a: "32 \<notin> set (fst m) \<and> read_str b pos = Some (merge_line m, q)"
    then have "find_sub [32] (merge_line m) = Some (length (fst m))"
      using find_merge_line [of "fst m" "snd m"] by simp
    then show "\<exists>s k. read_str b pos = Some (s, q) \<and> find_sub [32] s = Some k \<and> m = (take k s, drop (k + 1) s)"
      using a merge_of_line [of m, symmetric] by blast
  qed
  have ih: "read_merges b n (Suc i) q = Inr ms' \<longleftrightarrow> length ms' = n \<and>
      list_all (\<lambda>m. 32 \<notin> set (fst m) \<and> str_fits (merge_line m)) ms' \<and>
      (\<exists>p. spans b q (concat (map (\<lambda>m. str_image (merge_line m)) ms')) p)"
    if "spans b pos x q" for q ms' x
    using Suc.IH spans_end [OF that] by blast
  have "read_merges b (Suc n) i pos = Inr ms \<longleftrightarrow>
      (\<exists>m q ms'. ms = m # ms' \<and>
        (\<exists>s k. read_str b pos = Some (s, q) \<and> find_sub [32] s = Some k \<and> m = (take k s, drop (k + 1) s)) \<and>
        read_merges b n (Suc i) q = Inr ms')"
    by (auto split: option.splits sum.splits prod.splits)
  also have "\<dots> \<longleftrightarrow> (\<exists>m q ms'. ms = m # ms' \<and> 32 \<notin> set (fst m) \<and> str_fits (merge_line m) \<and>
      spans b pos (str_image (merge_line m)) q \<and> length ms' = n \<and>
      list_all (\<lambda>m. 32 \<notin> set (fst m) \<and> str_fits (merge_line m)) ms' \<and>
      (\<exists>p. spans b q (concat (map (\<lambda>m. str_image (merge_line m)) ms')) p))"
    unfolding one unfolding read_str_iff using ih by (intro ex_cong1) blast
  also have "\<dots> \<longleftrightarrow> length ms = Suc n \<and> list_all (\<lambda>m. 32 \<notin> set (fst m) \<and> str_fits (merge_line m)) ms \<and>
      (\<exists>p. spans b pos (concat (map (\<lambda>m. str_image (merge_line m)) ms)) p)"
    by (cases ms) (auto simp: spans_append)
  finally show ?case .
qed

lemma parse_sptb_heads:
  "parse_sptb blob = Inr d \<longleftrightarrow> (\<exists>p1 p2 p3 p4 p5 vs nm.
    read_u32 blob 0 = Some (SPTB_MAGIC, p1) \<and> read_u32 blob p1 = Some (type_id d, p2) \<and>
    read_u32 blob p2 = Some (vs, p3) \<and> read_u32 blob p3 = Some (nm, p4) \<and>
    read_vocab blob (unat vs) 0 p4 = Inr (vocab d, p5) \<and>
    \<not> (type_id d = 0 \<and> length blob < p5 + unat vs * 4) \<and>
    read_merges blob (unat nm) 0 (if type_id d = 0 then p5 + unat vs * 4 else p5) = Inr (merges d))"
  by (cases d) (auto simp: parse_sptb_def Let_def split: option.splits prod.splits sum.splits if_splits)

lemma parse_sptb_sound:
  assumes "parse_sptb blob = Inr d"
  shows "\<exists>scores p. sptb_ok d scores \<and> spans blob 0 (sptb_image d scores) p"
proof -
  let ?tail = "concat (map (\<lambda>m. str_image (merge_line m)) (merges d))"
  obtain p1 p2 p3 p4 p5 and vs nm :: u32 where h: "spans blob 0 (to_le 4 SPTB_MAGIC) p1"
    "spans blob p1 (to_le 4 (type_id d)) p2" "spans blob p2 (to_le 4 vs) p3" "spans blob p3 (to_le 4 nm) p4"
    "read_vocab blob (unat vs) 0 p4 = Inr (vocab d, p5)" "\<not> (type_id d = 0 \<and> length blob < p5 + unat vs * 4)"
    "read_merges blob (unat nm) 0 (if type_id d = 0 then p5 + unat vs * 4 else p5) = Inr (merges d)"
    using assms unfolding parse_sptb_heads read_u32_iff by blast
  have vo: "length (vocab d) = unat vs" "list_all str_fits (vocab d)" "spans blob p4 (concat (map str_image (vocab d))) p5"
    using h(5) read_vocab_iff [of p4 blob] spans_end [OF h(4)] by auto
  define q where "q = (if type_id d = 0 then p5 + unat vs * 4 else p5)"
  have q: "p5 \<le> q" "q \<le> length blob" using h(6) spans_end [OF vo(3)] by (auto simp: q_def)
  then have sc: "spans blob p5 (bslice p5 q blob) q" by (simp add: spans_def)
  obtain p where me: "length (merges d) = unat nm"
    "list_all (\<lambda>m. 32 \<notin> set (fst m) \<and> str_fits (merge_line m)) (merges d)" "spans blob q ?tail p"
    using h(7) [folded q_def] read_merges_iff [OF q(2)] by blast
  have "unat vs < 2 ^ 32" "unat nm < 2 ^ 32" using unsigned_less [of vs] unsigned_less [of nm] by simp_all
  then have "sptb_ok d (bslice p5 q blob)"
    using vo me q unfolding sptb_ok_def by (auto simp: q_def)
  moreover have "of_nat (length (vocab d)) = vs" "of_nat (length (merges d)) = nm" using vo(1) me(1) by simp_all
  then have "spans blob 0 (sptb_image d (bslice p5 q blob)) p"
    unfolding sptb_image_def spans_append using h(1-4) vo(3) sc me(3) by blast
  ultimately show "\<exists>scores p. sptb_ok d scores \<and> spans blob 0 (sptb_image d scores) p" by blast
qed

lemma parse_sptb_complete:
  assumes ok: "sptb_ok d scores" and sp: "spans blob 0 (sptb_image d scores) p"
  shows "parse_sptb blob = Inr d"
proof -
  let ?tail = "concat (map (\<lambda>m. str_image (merge_line m)) (merges d))"
  obtain p1 p2 p3 p4 p5 q where h: "spans blob 0 (to_le 4 SPTB_MAGIC) p1"
    "spans blob p1 (to_le 4 (type_id d)) p2" "spans blob p2 (to_le 4 (of_nat (length (vocab d)) :: u32)) p3"
    "spans blob p3 (to_le 4 (of_nat (length (merges d)) :: u32)) p4"
    "spans blob p4 (concat (map str_image (vocab d))) p5" "spans blob p5 scores q" "spans blob q ?tail p"
    using sp unfolding sptb_image_def spans_append by blast
  have u: "unat (of_nat (length (vocab d)) :: u32) = length (vocab d)"
    "unat (of_nat (length (merges d)) :: u32) = length (merges d)"
    using ok by (simp_all add: sptb_ok_def unat_of_nat)
  have q: "q = (if type_id d = 0 then p5 + length (vocab d) * 4 else p5)" "q \<le> length blob"
    using spans_end [OF h(6)] ok by (auto simp: sptb_ok_def)
  have "read_vocab blob (length (vocab d)) 0 p4 = Inr (vocab d, p5)"
    using read_vocab_iff [of p4 blob] h(5) spans_end [OF h(4)] ok by (auto simp: sptb_ok_def)
  moreover have "read_merges blob (length (merges d)) 0 q = Inr (merges d)"
    using read_merges_iff [OF q(2)] h(7) ok unfolding sptb_ok_def by blast
  moreover have "\<not> (type_id d = 0 \<and> length blob < p5 + length (vocab d) * 4)" using q by auto
  ultimately show ?thesis
    unfolding parse_sptb_heads read_u32_iff
    by (intro exI [of _ p1] exI [of _ p2] exI [of _ p3] exI [of _ p4] exI [of _ p5]
        exI [of _ "of_nat (length (vocab d))"] exI [of _ "of_nat (length (merges d))"])
      (use h(1-4) in \<open>simp only: u q(1) [symmetric] simp_thms\<close>)
qed

text \<open>
  C34. The SPTB parser is exact: it accepts a blob with the data \<open>d\<close> precisely when the blob begins with the
  image of \<open>d\<close> (with some scores where the type has them). So what a writer of the format wrote is read
  back, whatever follows it, and no other blob is accepted.
\<close>

theorem parse_sptb_exact:
  "parse_sptb blob = Inr d \<longleftrightarrow> (\<exists>scores rest. blob = sptb_image d scores @ rest \<and> sptb_ok d scores)"
proof -
  have "parse_sptb blob = Inr d \<longleftrightarrow> (\<exists>scores p. sptb_ok d scores \<and> spans blob 0 (sptb_image d scores) p)"
    using parse_sptb_sound parse_sptb_complete by blast
  then show ?thesis by (auto simp: spans_all)
qed

subsection \<open>The byte-level alphabet\<close>

text \<open>The published byte-to-character table of GPT-2, written from the byte's side.\<close>

definition byte_to_char :: "u8 \<Rightarrow> nat" where
  "byte_to_char b =
     (let n = unat b in
      if n \<le> 0x20 then 0x100 + n
      else if n = 0x7F then 0x121
      else if 0x80 \<le> n \<and> n \<le> 0xA0 then 0x122 + (n - 0x80)
      else if n = 0xAD then 0x143
      else n)"

lemma gpt2_code:
  assumes "gpt2_char_to_byte c = Some b"
  obtains k where "b = of_nat k" "k < 256" "0x21 \<le> k \<and> k \<le> 0x7E \<and> c = k \<or>
      0xA1 \<le> k \<and> k \<le> 0xAC \<and> c = k \<or> 0xAE \<le> k \<and> c = k \<or> k \<le> 0x20 \<and> c = 0x100 + k \<or>
      k = 0x7F \<and> c = 0x121 \<or> 0x80 \<le> k \<and> k \<le> 0xA0 \<and> c = 0x122 + (k - 0x80) \<or> k = 0xAD \<and> c = 0x143"
proof -
  consider "b = of_nat c" "0x21 \<le> c" "c \<le> 0x7E" | "b = of_nat c" "0xA1 \<le> c" "c \<le> 0xAC"
    | "b = of_nat c" "0xAE \<le> c" "c \<le> 0xFF" | "b = of_nat (c - 0x100)" "0x100 \<le> c" "c \<le> 0x120"
    | "b = 0x7F" "c = 0x121" | "b = of_nat (c - 0x122 + 0x80)" "0x122 \<le> c" "c \<le> 0x142" | "b = 0xAD" "c = 0x143"
    using assms unfolding gpt2_char_to_byte_def by (simp only: option.inject split: if_splits) blast+
  then show thesis
  proof cases
    case 4
    show ?thesis by (rule that [of "c - 0x100"]) (use 4 in auto)
  next
    case 5
    show ?thesis by (rule that [of "0x7F"]) (use 5 in auto)
  next
    case 6
    show ?thesis by (rule that [of "c - 0x122 + 0x80"]) (use 6 in auto)
  next
    case 7
    show ?thesis by (rule that [of "0xAD"]) (use 7 in auto)
  qed (rule that [of c]; simp)+
qed

lemma gpt2_char_to_byte_iff: "gpt2_char_to_byte c = Some b \<longleftrightarrow> c = byte_to_char b"
proof
  assume "gpt2_char_to_byte c = Some b"
  then obtain k where "b = of_nat k" "k < 256" "0x21 \<le> k \<and> k \<le> 0x7E \<and> c = k \<or>
      0xA1 \<le> k \<and> k \<le> 0xAC \<and> c = k \<or> 0xAE \<le> k \<and> c = k \<or> k \<le> 0x20 \<and> c = 0x100 + k \<or>
      k = 0x7F \<and> c = 0x121 \<or> 0x80 \<le> k \<and> k \<le> 0xA0 \<and> c = 0x122 + (k - 0x80) \<or> k = 0xAD \<and> c = 0x143"
    by (rule gpt2_code)
  moreover from this have "unat b = k" by (simp add: unat_of_nat)
  ultimately show "c = byte_to_char b"
    unfolding byte_to_char_def Let_def by auto
next
  assume c: "c = byte_to_char b"
  define n where "n = unat b"
  have b: "b = of_nat n" by (simp add: n_def)
  have "n < 256" using unsigned_less [of b] by (simp add: n_def)
  then show "gpt2_char_to_byte c = Some b"
    unfolding c b by (simp add: gpt2_char_to_byte_def byte_to_char_def Let_def unat_of_nat, presburger)
qed

text \<open>
  The character table inverts the byte-level alphabet: every byte has exactly one character, every other
  character is dropped, and decoding a token gives back the bytes that were spelled.
\<close>

theorem gpt2_decode_exact:
  "gpt2_decode (map byte_to_char bs) = bs \<and>
   gpt2_decode s = map (\<lambda>c. the (gpt2_char_to_byte c)) (filter (\<lambda>c. c \<in> range byte_to_char) s)"
proof -
  have "gpt2_char_to_byte (byte_to_char b) = Some b" for b by (simp add: gpt2_char_to_byte_iff)
  then have "gpt2_decode (map byte_to_char bs) = bs"
    unfolding gpt2_decode_def by (induction bs) (simp_all add: map_filter_simps)
  moreover have "gpt2_char_to_byte c \<noteq> None \<longleftrightarrow> c \<in> range byte_to_char" for c
    using gpt2_char_to_byte_iff by auto
  ultimately show ?thesis by (simp add: gpt2_decode_def map_filter_def comp_def)
qed

subsection \<open>Which ids are suppressed\<close>

lemma ids_where_set:
  "set (ids_where P i ts) = (\<lambda>j. of_nat (i + j)) ` {j. j < length ts \<and> P (ts ! j)}"
proof (induction ts arbitrary: i)
  case (Cons t ts)
  have "{j. j < length (t # ts) \<and> P ((t # ts) ! j)} =
      (if P t then {0} else {}) \<union> Suc ` {j. j < length ts \<and> P (ts ! j)}"
    by (auto simp: less_Suc_eq_0_disj)
  then show ?case using Cons.IH [of "Suc i"] by (auto simp: image_Un image_image)
qed simp

lemma push_new_set [simp]: "set (push_new out e) = insert e (set out)"
  by (auto simp: push_new_def)

lemma suppress_set:
  "set (suppress_token_ids tok) = set (ids_where is_suppressed_control 0 (id_to_bytes tok)) \<union>
     {i \<in> set (config_suppress tok). as_usize i < length (id_to_bytes tok)}"
proof -
  have "set (foldl (\<lambda>out i. if P i then push_new out i else out) out xs) = set out \<union> {i \<in> set xs. P i}" for P out xs
    by (induction xs arbitrary: out) auto
  then show ?thesis by (simp add: suppress_token_ids_def)
qed

lemma of_nat_id_inj: "of_nat j = (of_nat k :: i32) \<Longrightarrow> j < 2 ^ 32 \<Longrightarrow> k < 2 ^ 32 \<Longrightarrow> j = k"
proof -
  have u: "unat (of_nat m :: i32) = m" if "m < 2 ^ 32" for m using that by (simp add: unat_of_nat)
  show "of_nat j = (of_nat k :: i32) \<Longrightarrow> j < 2 ^ 32 \<Longrightarrow> k < 2 ^ 32 \<Longrightarrow> j = k"
    by (metis u)
qed

text \<open>The byte image of a plain name is the name, in both vocabulary families.\<close>

lemma image_of_name:
  assumes "s = map of_char cs" and "list_all (\<lambda>c. 0x21 \<le> (of_char c :: nat) \<and> of_char c \<le> (0x7E :: nat)) cs"
  shows "gpt2_decode s = blit cs" and "spm_bytes s = blit cs"
proof -
  have b: "(of_char c :: u8) = of_nat (of_char c)" for c by (rule of_nat_of_char [symmetric])
  show "gpt2_decode s = blit cs"
    using assms by (auto simp: gpt2_decode_def blit_def b map_filter_def comp_def list_all_iff gpt2_char_to_byte_def
        intro!: filter_True)
  have "map (\<lambda>c. if c = 0x2581 then 32 else c) s = s"
    using assms by (intro map_idI) (auto simp: list_all_iff)
  then have "spm_bytes s = utf8 s" by (simp only: spm_bytes_def)
  moreover have "ascii s" using assms by (auto simp: ascii_def list_all_iff)
  ultimately show "spm_bytes s = blit cs" by (simp add: utf8_ascii blit_def b assms(1))
qed

text \<open>The tokenizer that \<^verbatim>\<open>build\<close> returns, for a blob it can parse.\<close>

lemma tok_build_fields:
  assumes "tok_build (Inr raw) a config bpe c_load = Inr tok" and "parse_sptb raw = Inr d"
  shows "arch_id tok = a" and "config_suppress tok = fst config" and "eos_ids tok = build_eos_ids a (vocab d) (snd config)"
    and "id_to_bytes tok = map gpt2_decode (vocab d) \<or> id_to_bytes tok = map spm_bytes (vocab d)"
    and "length (id_to_bytes tok) = length (vocab d)"
  using assms by (auto simp: tok_build_def Let_def split: sum.splits if_splits prod.splits)

lemma build_eos_ids_supset: "set (find_eos_ids a vo) \<subseteq> set (build_eos_ids a vo ce)"
proof -
  have "set ids \<subseteq> set (foldl push_new ids es)" for ids es
    by (induction es arbitrary: ids) (auto, metis insertI2 push_new_set subset_code(1))
  then show ?thesis by (auto simp: build_eos_ids_def Let_def split: option.split)
qed

text \<open>
  On a gemma model nothing in the suppression rule masks a token that ends the turn: the ids of the
  turn markers and of the named end-of-sequence tokens are suppressed only where the generation
  configuration of the model lists them itself.
\<close>

theorem gemma_stops_not_suppressed:
  assumes "tok_build (Inr raw) a config bpe c_load = Inr tok" and "parse_sptb raw = Inr d" and "gemma a"
    and "i \<in> set (find_eos_ids a (vocab d)) \<union> set (turn_stop_ids tok)" and "i \<in> set (suppress_token_ids tok)"
  shows "i \<in> set (fst config)"
proof -
  note f = tok_build_fields [OF assms(1,2)]
  have len: "length (id_to_bytes tok) < 2 ^ 32"
    using assms(2) f(5) by (auto simp: parse_sptb_exact sptb_ok_def)
  have nq: "\<not> qwen a" using assms(3) by (auto simp: gemma_def qwen_def arch_defs)
  obtain j where j: "i = of_nat j" "j < length (id_to_bytes tok)" "\<not> is_suppressed_control (id_to_bytes tok ! j)"
  proof (cases "i \<in> set (turn_stop_ids tok)")
    case True
    then show thesis
      using that f(1) assms(3) by (auto simp: turn_stop_ids_def ids_where_set is_suppressed_control_def)
  next
    case False
    then have "i \<in> set (find_eos_ids a (vocab d))" using assms(4) by simp
    then obtain j where j: "i = of_nat j" "j < length (vocab d)"
      "vocab d ! j = lit ''<eos>'' \<or> vocab d ! j = lit ''<end_of_turn>''"
      using nq assms(3) by (auto simp: find_eos_ids_def ids_where_set eos_names_def)
    have "id_to_bytes tok ! j = blit ''<eos>'' \<or> id_to_bytes tok ! j = blit ''<end_of_turn>''"
      using f(4) j(2,3) image_of_name [of "lit ''<eos>''" "''<eos>''"]
        image_of_name [of "lit ''<end_of_turn>''" "''<end_of_turn>''"]
      by (auto simp: lit_def)
    then have "\<not> is_suppressed_control (id_to_bytes tok ! j)"
      by (auto simp: is_suppressed_control_def is_unused_reserve_def blit_def)
    then show thesis using that j f(5) by simp
  qed
  have "i \<notin> set (ids_where is_suppressed_control 0 (id_to_bytes tok))"
  proof
    assume "i \<in> set (ids_where is_suppressed_control 0 (id_to_bytes tok))"
    then obtain k where k: "of_nat j = (of_nat k :: i32)" "k < length (id_to_bytes tok)"
      "is_suppressed_control (id_to_bytes tok ! k)"
      unfolding ids_where_set j(1) by auto
    have "j = k" by (rule of_nat_id_inj [OF k(1)]) (use j(2) k(2) len in linarith)+
    then show False using j(3) k(3) by simp
  qed
  then show ?thesis using assms(5) f(2) by (auto simp: suppress_set)
qed

lemma qwen_eos_bundle:
  assumes "tok_build (Inr raw) a config bpe c_load = Inr tok" and "parse_sptb raw = Inr d" and "qwen a"
  shows "set (find_eos_ids a (vocab d)) \<subseteq> set (eos_ids tok) \<inter> set (suppress_token_ids tok) \<and>
    default_stops tok = [] \<and> turn_stop_ids tok = []"
proof -
  note f = tok_build_fields [OF assms(1,2)]
  have ng: "\<not> gemma a" using assms(3) by (auto simp: gemma_def qwen_def arch_defs)
  have "i \<in> set (suppress_token_ids tok)" if eos: "i \<in> set (find_eos_ids a (vocab d))" for i
  proof -
    obtain j where j: "i = of_nat j" "j < length (vocab d)"
      "vocab d ! j = lit ''<|im_end|>'' \<or> vocab d ! j = lit ''<|endoftext|>''"
      using eos assms(3) by (auto simp: find_eos_ids_def ids_where_set eos_names_def)
    have "id_to_bytes tok ! j = blit ''<|im_end|>'' \<or> id_to_bytes tok ! j = blit ''<|endoftext|>''"
      using f(4) j(2,3) image_of_name [of "lit ''<|im_end|>''" "''<|im_end|>''"]
        image_of_name [of "lit ''<|endoftext|>''" "''<|endoftext|>''"]
      by (auto simp: lit_def)
    then have "is_suppressed_control (id_to_bytes tok ! j)"
      by (auto simp: is_suppressed_control_def blit_def)
    then show ?thesis using j f(5) by (auto simp: suppress_set ids_where_set)
  qed
  then show ?thesis
    using build_eos_ids_supset f(1,3) ng by (auto simp: default_stops_def turn_stop_ids_def)
qed

text \<open>
  On a Qwen model it is the other way round: every named end-of-sequence token (\<^verbatim>\<open><|im_end|>\<close>,
  \<^verbatim>\<open><|endoftext|>\<close>) falls under the suppression rule for pipe-wrapped markers, and there is neither a
  default stop string nor a turn-stop id that could end the turn instead.
\<close>

theorem qwen_eos_suppressed:
  assumes "tok_build (Inr raw) a config bpe c_load = Inr tok" and "parse_sptb raw = Inr d" and "qwen a"
  shows "set (find_eos_ids a (vocab d)) \<subseteq> set (eos_ids tok) \<inter> set (suppress_token_ids tok) \<and>
    default_stops tok = [] \<and> turn_stop_ids tok = []"
  by (rule qwen_eos_bundle [OF assms])

text \<open>A small vocabulary file, and the tokenizer built from it.\<close>

definition tiny_vocab :: "ustr list \<Rightarrow> sptb_data" where
  "tiny_vocab vo = \<lparr>type_id = 1, vocab = vo, merges = []\<rparr>"

lemma tiny_parses:
  assumes "length vo < 2 ^ 32" and "list_all str_fits vo"
  shows "parse_sptb (sptb_image (tiny_vocab vo) []) = Inr (tiny_vocab vo)"
  unfolding parse_sptb_exact
  by (intro exI [of _ "[]"]) (use assms in \<open>simp add: sptb_ok_def tiny_vocab_def\<close>)

theorem gemma_stops_not_suppressed_witness:
  defines "vo \<equiv> [lit ''<pad>'', lit ''<eos>'', lit ''<turn|>'']"
  defines "raw \<equiv> sptb_image (tiny_vocab vo) []"
  shows "\<exists>tok. tok_build (Inr raw) ARCH_GEMMA4 ([1], []) (\<lambda>_ _ _. Inr (\<lambda>_. Inr [])) (Inl ()) = Inr tok \<and>
    1 \<in> set (suppress_token_ids tok) \<and> 1 \<in> set (fst ([1 :: i32], [] :: i32 list))"
proof -
  have p: "parse_sptb raw = Inr (tiny_vocab vo)"
    unfolding raw_def by (rule tiny_parses) (simp_all add: vo_def str_fits_def lit_def ustr_ok_def scalar_def utf8_def utf8_char_def)
  obtain tok where b: "tok_build (Inr raw) ARCH_GEMMA4 ([1], []) (\<lambda>_ _ _. Inr (\<lambda>_. Inr [])) (Inl ()) = Inr tok"
    by (simp add: tok_build_def p tiny_vocab_def TYPE_BPE_LLAMA3_def TYPE_GEMMA4_BPE_def)
  have g: "gemma ARCH_GEMMA4" "\<not> qwen ARCH_GEMMA4" by (simp_all add: gemma_def qwen_def arch_defs)
  have l: "length (id_to_bytes tok) = 3"
    using tok_build_fields(5) [OF b p] by (simp add: tiny_vocab_def vo_def)
  have "as_usize 1 = 1" using as_usize_of_nat [of 1] by simp
  then have s: "1 \<in> set (suppress_token_ids tok)"
    unfolding suppress_set using tok_build_fields(2) [OF b p] l by simp
  have e: "1 \<in> set (find_eos_ids ARCH_GEMMA4 (vocab (tiny_vocab vo)))"
    using g by (simp add: find_eos_ids_def eos_names_def tiny_vocab_def vo_def lit_def)
  show ?thesis using gemma_stops_not_suppressed [OF b p g(1) _ s] e b s by blast
qed

theorem qwen_eos_suppressed_witness:
  defines "vo \<equiv> [lit ''a'', lit ''<|im_end|>'']"
  defines "raw \<equiv> sptb_image (tiny_vocab vo) []"
  shows "\<exists>tok. tok_build (Inr raw) ARCH_QWEN3 ([], []) (\<lambda>_ _ _. Inr (\<lambda>_. Inr [])) (Inl ()) = Inr tok \<and>
    1 \<in> set (eos_ids tok) \<inter> set (suppress_token_ids tok)"
proof -
  have p: "parse_sptb raw = Inr (tiny_vocab vo)"
    unfolding raw_def by (rule tiny_parses) (simp_all add: vo_def str_fits_def lit_def ustr_ok_def scalar_def utf8_def utf8_char_def)
  obtain tok where b: "tok_build (Inr raw) ARCH_QWEN3 ([], []) (\<lambda>_ _ _. Inr (\<lambda>_. Inr [])) (Inl ()) = Inr tok"
    by (simp add: tok_build_def p tiny_vocab_def TYPE_BPE_LLAMA3_def TYPE_GEMMA4_BPE_def)
  have q: "qwen ARCH_QWEN3" by (simp add: qwen_def)
  have e: "1 \<in> set (find_eos_ids ARCH_QWEN3 (vocab (tiny_vocab vo)))"
    using q by (simp add: find_eos_ids_def eos_names_def tiny_vocab_def vo_def lit_def)
  show ?thesis using qwen_eos_suppressed [OF b p q] e b by blast
qed

subsection \<open>The chat prompt as ids\<close>

definition turn_ids :: "(ustr \<Rightarrow> i32 list) \<Rightarrow> i32 \<Rightarrow> i32 \<Rightarrow> i32 \<Rightarrow> message \<Rightarrow> i32 list" where
  "turn_ids enc st en nl m = [st] @ enc (turn_role m) @ [nl] @ enc (content m) @ [en, nl]"

text \<open>
  With an encoder that puts the BOS id in front of every text (and nowhere else, the documented
  behaviour of the C encoder), the chat prompt is one BOS, then each message between its turn markers, then
  the open turn of the model; BOS occurs once, at the head, whatever the messages contain.
\<close>

theorem template_ids_exact:
  assumes "gemma (arch_id tok)" and "c_tokenizer tok = Some c" and "bos_id tok = Some bos"
    and "\<And>s. c s = Inr (bos # enc s)" and "\<And>s. bos \<notin> set (enc s)"
    and "control_id tok (blit ''<|turn>'') = Some st" and "control_id tok (blit ''<turn|>'') = Some en"
    and "control_id tok [10] = Some nl" and "bos \<notin> {st, en, nl}"
  shows "apply_template_ids tok ms =
      Inr ([bos] @ concat (map (turn_ids enc st en nl) ms) @ [st] @ enc (lit ''model'') @ [nl]) \<and>
    bos \<notin> set (concat (map (turn_ids enc st en nl) ms) @ [st] @ enc (lit ''model'') @ [nl])"
proof -
  have e: "encode_no_bos tok s = Inr (enc s)" for s
    using assms(2,3,4) by (simp add: encode_no_bos_def encode_def)
  have "template_turns tok st en nl ms out = Inr (out @ concat (map (turn_ids enc st en nl) ms))" for out
    by (induction ms arbitrary: out) (simp_all add: e turn_ids_def)
  then show ?thesis
    using assms(1,3,5-9) by (auto simp: apply_template_ids_def e turn_ids_def)
qed

theorem template_ids_exact_witness:
  defines "tok \<equiv> \<lparr>inner = None, c_tokenizer = Some (\<lambda>s. Inr (2 # map (\<lambda>_. 9) s)),
      id_to_bytes = [blit ''<|turn>'', blit ''<turn|>'', blit ''<bos>'', [10]], eos_ids = [], arch_id = ARCH_GEMMA4,
      tok_type_id = TYPE_GEMMA4_BPE, bos_id = Some 2, config_suppress = []\<rparr> :: unit sptb_tokenizer"
  shows "apply_template_ids tok [\<lparr>role = lit ''u'', content = lit ''hi''\<rparr>] =
    Inr [2, 0, 9, 3, 9, 9, 1, 3, 0, 9, 9, 9, 9, 9, 3]"
proof -
  have "apply_template_ids tok [\<lparr>role = lit ''u'', content = lit ''hi''\<rparr>] =
      Inr ([2] @ concat (map (turn_ids (map (\<lambda>_. 9)) 0 1 3) [\<lparr>role = lit ''u'', content = lit ''hi''\<rparr>]) @ [0] @
        map (\<lambda>_. 9) (lit ''model'') @ [3])"
    by (rule template_ids_exact [where c = "\<lambda>s. Inr (2 # map (\<lambda>_. 9) s)", THEN conjunct1])
      (auto simp: tok_def gemma_def control_id_def blit_def)
  then show ?thesis by (simp add: turn_ids_def turn_role_def lit_def)
qed

end
