(* ===== verification/Chat.thy ===== *)
theory Chat
  imports Tokenizer Sampler Session
begin

text \<open>
  One chat turn of the daemon (\<^verbatim>\<open>routes.rs\<close>, the blocking closure of \<^verbatim>\<open>v1_chat\<close> on its session path) and the
  registry of running chats (\<^verbatim>\<open>sessions.rs\<close>). The turn composes the session, the sampler and the
  stream buffer; the client's channel is a parameter that says which send attempts succeed.
\<close>

subsection \<open>The registry\<close>

text \<open>Cancel flags are shared atomics: the table holds their addresses, the store their values.\<close>

record sessions =
  chats :: "u64 \<rightharpoonup> nat"
  next_id :: u64

definition sessions_new :: sessions where
  "sessions_new = \<lparr>chats = Map.empty, next_id = 1\<rparr>"

definition sess_register :: "nat \<Rightarrow> sessions \<Rightarrow> u64 \<times> sessions" where
  "sess_register flag s = (next_id s, s\<lparr>chats := (chats s)(next_id s \<mapsto> flag), next_id := next_id s + 1\<rparr>)"

definition sess_abort :: "u64 \<Rightarrow> sessions \<Rightarrow> (nat \<Rightarrow> i32) \<Rightarrow> bool \<times> (nat \<Rightarrow> i32)" where
  "sess_abort i s flags = (case chats s i of Some flag \<Rightarrow> (True, flags(flag := 1)) | None \<Rightarrow> (False, flags))"

definition sess_remove :: "u64 \<Rightarrow> sessions \<Rightarrow> sessions" where
  "sess_remove i s = s\<lparr>chats := (chats s)(i := None)\<rparr>"

subsection \<open>A turn\<close>

datatype chat_event = Delta ustr | ErrorEvent session_error | CancelledEvent | DoneEvent

record ('s, 'd, 'e) chat_env =
  api :: "'s l1_api"
  tokenizer :: "'e sptb_tokenizer"
  fops :: "'d float_ops"
  srt :: "(nat \<times> f32) list \<Rightarrow> (nat \<times> f32) list"
  send_ok :: "nat \<Rightarrow> bool"

record 's chat_state =
  child :: 's
  smp :: sampler
  row :: "f32 list"
  dec_buf :: decode_buffer
  sent :: "chat_event list"
  attempts :: nat
  tokens_decoded :: nat
  cancel_flag :: i32

definition send_event :: "('s, 'd, 'e) chat_env \<Rightarrow> chat_event \<Rightarrow> 's chat_state \<Rightarrow> bool \<times> 's chat_state" where
  "send_event env ev st =
     (let ok = send_ok env (attempts st)
      in (ok, st\<lparr>attempts := attempts st + 1, sent := (if ok then sent st @ [ev] else sent st)\<rparr>))"

definition sample_next :: "('s, 'd, 'e) chat_env \<Rightarrow> 's chat_state \<Rightarrow> i32 \<times> 's chat_state" where
  "sample_next env st =
     (case sample (fops env) (srt env) (smp st) (row st) of
        (tok, row', smp') \<Rightarrow> (tok, st\<lparr>smp := observe tok smp', row := row'\<rparr>))"

definition is_stop :: "'e sptb_tokenizer \<Rightarrow> i32 \<Rightarrow> bool" where
  "is_stop t tok \<longleftrightarrow> eos_ids t \<noteq> [] \<and> tok \<in> set (eos_ids t) \<or> tok \<in> set (turn_stop_ids t)"

text \<open>The decode loop; the boolean says that the client has gone.\<close>

fun decode_loop :: "('s, 'd, 'e) chat_env \<Rightarrow> nat \<Rightarrow> i32 \<Rightarrow> 's chat_state \<Rightarrow> bool \<times> 's chat_state" where
  "decode_loop env 0 tok st = (False, st)"
| "decode_loop env (Suc n) tok st =
     (if is_stop (tokenizer env) tok then (False, st)
      else case push (decode_token (tokenizer env) tok) (dec_buf st) of
        (Stopped b, db) \<Rightarrow>
          let st1 = st\<lparr>dec_buf := db\<rparr>;
              st2 = (if b \<noteq> [] then snd (send_event env (Delta (from_utf8_lossy b)) st1) else st1)
          in (False, st2\<lparr>tokens_decoded := tokens_decoded st2 + 1\<rparr>)
      | (Emit b, db) \<Rightarrow>
          let st1 = st\<lparr>dec_buf := db\<rparr>;
              (ok, st2) = (if b \<noteq> [] then send_event env (Delta (from_utf8_lossy b)) st1 else (True, st1))
          in if \<not> ok then (True, st2\<lparr>cancel_flag := 1\<rparr>)
             else (case decode_step (api env) (child st2) tok (row st2) of
                     (Inl _, c, r) \<Rightarrow> (False, st2\<lparr>child := c, row := r, tokens_decoded := tokens_decoded st2 + 1\<rparr>)
                   | (Inr _, c, r) \<Rightarrow>
                       let (tok', st3) = sample_next env
                             (st2\<lparr>child := c, row := r, tokens_decoded := tokens_decoded st2 + 1\<rparr>)
                       in decode_loop env n tok' st3))"

text \<open>The status is what the event bus gets: \<open>True\<close> for \<^verbatim>\<open>done\<close>, \<open>False\<close> for \<^verbatim>\<open>cancelled\<close>.\<close>

definition chat_start :: "'s \<Rightarrow> sampler \<Rightarrow> nat \<Rightarrow> ustr list \<Rightarrow> i32 \<Rightarrow> 's chat_state" where
  "chat_start c sm vocab_size stop_strings flag =
     \<lparr>child = c, smp = sm, row = replicate vocab_size 0, dec_buf = buffer_new stop_strings, sent = [],
      attempts = 0, tokens_decoded = 0, cancel_flag = flag\<rparr>"

definition chat_close :: "('s, 'd, 'e) chat_env \<Rightarrow> 's chat_state \<Rightarrow> bool \<times> 's chat_state" where
  "chat_close env st =
     (let (flushed, db) = flush (dec_buf st);
          st1 = st\<lparr>dec_buf := db\<rparr>;
          st2 = (if flushed \<noteq> [] then snd (send_event env (Delta (from_utf8_lossy flushed)) st1) else st1)
      in if cancel_flag st2 \<noteq> 0 then (False, snd (send_event env CancelledEvent st2))
         else (True, snd (send_event env DoneEvent st2)))"

definition chat_turn ::
  "('s, 'd, 'e) chat_env \<Rightarrow> i32 list \<Rightarrow> nat \<Rightarrow> 's chat_state \<Rightarrow> bool \<times> 's chat_state" where
  "chat_turn env tokens max_tokens st =
     (let (r, c, l) = (if tokens \<noteq> [] then prefill_chunk (api env) (child st) tokens (row st)
                       else (Inr (), child st, row st));
          st0 = st\<lparr>child := c, row := l\<rparr>
      in case r of
           Inl e \<Rightarrow> (False, snd (send_event env (ErrorEvent e) st0))
         | Inr _ \<Rightarrow>
             (let (tok, st1) = sample_next env st0;
                  (gone, st2) = decode_loop env max_tokens tok st1
              in if gone then (False, st2) else chat_close env st2))"

text \<open>\<^verbatim>\<open>v1_chat\<close> removes the chat from the registry on every way out of the closure.\<close>

definition run_chat ::
  "('s, 'd, 'e) chat_env \<Rightarrow> u64 \<Rightarrow> i32 list \<Rightarrow> nat \<Rightarrow> 's chat_state \<Rightarrow> sessions \<Rightarrow> bool \<times> 's chat_state \<times> sessions" where
  "run_chat env chat_id tokens max_tokens st reg =
     (case chat_turn env tokens max_tokens st of (status, st') \<Rightarrow> (status, st', sess_remove chat_id reg))"

subsection \<open>The registry hands out fresh ids and aborts only its target\<close>

datatype reg_op = Register nat | Abort u64 | Remove u64

fun run_reg :: "reg_op list \<Rightarrow> sessions \<times> (nat \<Rightarrow> i32) \<times> u64 list \<Rightarrow> sessions \<times> (nat \<Rightarrow> i32) \<times> u64 list" where
  "run_reg [] st = st"
| "run_reg (Register f # ops) (s, fl, ids) =
     (case sess_register f s of (i, s') \<Rightarrow> run_reg ops (s', fl, ids @ [i]))"
| "run_reg (Abort i # ops) (s, fl, ids) = run_reg ops (s, snd (sess_abort i s fl), ids)"
| "run_reg (Remove i # ops) (s, fl, ids) = run_reg ops (sess_remove i s, fl, ids)"

definition registers :: "reg_op list \<Rightarrow> nat" where
  "registers ops = length (filter (\<lambda>p. case p of Register _ \<Rightarrow> True | _ \<Rightarrow> False) ops)"

lemma registers_simps [simp]:
  "registers [] = 0" "registers (Register f # ops) = Suc (registers ops)"
  "registers (Abort i # ops) = registers ops" "registers (Remove i # ops) = registers ops"
  by (simp_all add: registers_def)

lemma run_reg_ids:
  assumes "run_reg ops (s, fl, ids) = (s', fl', ids')" and "ids = map of_nat [1..<Suc n]"
    and "next_id s = of_nat (Suc n)" and "dom (chats s) \<subseteq> set ids"
  shows "ids' = map of_nat [1..<Suc (n + registers ops)] \<and> dom (chats s') \<subseteq> set ids'"
  using assms
proof (induction ops arbitrary: s fl ids n)
  case Nil
  then show ?case by simp
next
  case (Cons p ops)
  show ?case
  proof (cases p)
    case (Register f)
    let ?s = "s\<lparr>chats := (chats s)(next_id s \<mapsto> f), next_id := next_id s + 1\<rparr>"
    have "run_reg ops (?s, fl, ids @ [next_id s]) = (s', fl', ids')"
      using Cons.prems(1) Register by (simp add: sess_register_def)
    moreover have "ids @ [next_id s] = map of_nat [1..<Suc (Suc n)]" using Cons.prems(2,3) by simp
    moreover have "next_id ?s = of_nat (Suc (Suc n))" using Cons.prems(3) by simp
    moreover have "dom (chats ?s) = insert (next_id s) (dom (chats s))" by simp
    then have "dom (chats ?s) \<subseteq> set (ids @ [next_id s])" using Cons.prems(4) by auto
    ultimately have "ids' = map of_nat [1..<Suc (Suc n + registers ops)] \<and> dom (chats s') \<subseteq> set ids'"
      by (rule Cons.IH)
    moreover have "Suc n + registers ops = n + registers (p # ops)" using Register by simp
    ultimately show ?thesis by argo
  next
    case (Abort i)
    then show ?thesis using Cons by simp
  next
    case (Remove i)
    have "run_reg ops (sess_remove i s, fl, ids) = (s', fl', ids')" using Cons.prems(1) Remove by simp
    moreover have "next_id (sess_remove i s) = of_nat (Suc n)" "dom (chats (sess_remove i s)) \<subseteq> set ids"
      using Cons.prems(3,4) by (auto simp: sess_remove_def)
    ultimately have "ids' = map of_nat [1..<Suc (n + registers ops)] \<and> dom (chats s') \<subseteq> set ids'"
      using Cons.IH Cons.prems(2) by blast
    moreover have "n + registers ops = n + registers (p # ops)" using Remove by simp
    ultimately show ?thesis by argo
  qed
qed

text \<open>
  Over any sequence of registrations, aborts and removals (fewer than \<open>2 ^ 64\<close> registrations) no id is
  handed out twice, only handed-out ids are in the table, and an abort reports exactly whether the id is in
  it and changes no flag but that of its chat.
\<close>

theorem registry_fresh_and_targeted:
  assumes "run_reg ops (sessions_new, fl, []) = (s, fl', ids)" and "registers ops < 2 ^ 64"
  shows "distinct ids \<and> dom (chats s) \<subseteq> set ids \<and>
    fst (sess_abort i s fl') = (i \<in> dom (chats s)) \<and>
    snd (sess_abort i s fl') = (case chats s i of Some a \<Rightarrow> fl'(a := 1) | None \<Rightarrow> fl')"
proof -
  have ids: "ids = map of_nat [1..<Suc (0 + registers ops)] \<and> dom (chats s) \<subseteq> set ids"
    by (rule run_reg_ids [OF assms(1), of 0]) (simp_all add: sessions_new_def)
  have u: "unat (of_nat k :: u64) = k" if "k < 2 ^ 64" for k using that by (simp add: unat_of_nat)
  have "inj_on (of_nat :: nat \<Rightarrow> u64) {..<2 ^ 64}" by (rule inj_on_inverseI [of _ unat]) (use u in auto)
  then have "inj_on (of_nat :: nat \<Rightarrow> u64) (set [1..<Suc (registers ops)])"
    by (rule inj_on_subset) (use assms(2) in auto)
  then have "distinct ids" using ids by (simp add: distinct_map del: upt_Suc)
  then show ?thesis using ids by (auto simp: sess_abort_def split: option.split)
qed

theorem registry_fresh_and_targeted_witness:
  "\<exists>s fl ids. run_reg [Register 5, Register 6, Abort 1, Remove 1] (sessions_new, \<lambda>_. 0, []) = (s, fl, ids) \<and>
     distinct ids \<and> ids = [1, 2] \<and> fst (sess_abort 2 s fl) \<and> snd (sess_abort 2 s fl) 6 = 1"
proof -
  obtain s fl ids where e: "run_reg [Register 5, Register 6, Abort 1, Remove 1] (sessions_new, \<lambda>_. 0, []) = (s, fl, ids)"
    by (metis prod_cases3)
  have s: "chats s 2 = Some 6" "ids = [1, 2]"
    using e by (auto simp: sess_register_def sessions_new_def sess_abort_def sess_remove_def)
  show ?thesis using registry_fresh_and_targeted [OF e, of 2] e s by (auto simp: dom_def)
qed

subsection \<open>The turn refines the token stream\<close>

lemma sample_history: "sample o' sr s l = (tok, l', s') \<Longrightarrow> history s' = history s"
  by (auto simp: sample_def Let_def split: if_splits prod.splits)

lemma sample_next_frame:
  assumes "sample_next env st = (tok, st')"
  shows "sent st' = sent st" "dec_buf st' = dec_buf st" "tokens_decoded st' = tokens_decoded st"
    "cancel_flag st' = cancel_flag st" "history (smp st') = history (smp st) @ [tok]" "child st' = child st"
  using assms sample_history by (auto simp: sample_next_def observe_def split: prod.splits)

definition texts :: "bytes list \<Rightarrow> chat_event list" where
  "texts outs = map (\<lambda>b. Delta (from_utf8_lossy b)) (filter (\<lambda>b. b \<noteq> []) outs)"

lemma texts_simps [simp]:
  "texts [] = []" "texts (b # bs) = (if b = [] then texts bs else Delta (from_utf8_lossy b) # texts bs)"
  by (simp_all add: texts_def)

lemma send_event_frame:
  "\<forall>k. send_ok env k \<Longrightarrow> send_event env ev st = (True, st\<lparr>attempts := attempts st + 1, sent := sent st @ [ev]\<rparr>)"
  by (simp add: send_event_def)

lemma decode_loop_refines:
  assumes "\<forall>k. send_ok env k" and "decode_loop env n tok st = (gone, st')"
  shows "\<not> gone \<and> cancel_flag st' = cancel_flag st \<and>
    (\<exists>toks outs stopped new. history (smp st') = history (smp st) @ new \<and> length toks \<le> n \<and>
      take (length toks) (tok # new) = toks \<and> list_all (\<lambda>t. \<not> is_stop (tokenizer env) t) toks \<and>
      push_all (dec_buf st) (map (decode_token (tokenizer env)) toks) = (outs, stopped, dec_buf st') \<and>
      sent st' = sent st @ texts outs \<and> tokens_decoded st' = tokens_decoded st + length toks)"
  using assms(2)
proof (induction n arbitrary: tok st)
  case 0
  then show ?case
    by (intro conjI exI [of _ "[]"] exI [of _ "[]"] exI [of _ False] exI [of _ "[]"]) auto
next
  case (Suc n)
  let ?tk = "tokenizer env"
  show ?case
  proof (cases "is_stop ?tk tok")
    case True
    then show ?thesis using Suc.prems
      by (intro conjI exI [of _ "[]"] exI [of _ "[]"] exI [of _ False] exI [of _ "[]"]) auto
  next
    case False
    obtain r db where p: "push (decode_token ?tk tok) (dec_buf st) = (r, db)" by fastforce
    show ?thesis
    proof (cases r)
      case (Stopped b)
      then have "\<not> gone \<and> cancel_flag st' = cancel_flag st \<and> smp st' = smp st \<and> dec_buf st' = db \<and>
          sent st' = sent st @ texts [b] \<and> tokens_decoded st' = tokens_decoded st + 1"
        using Suc.prems p False assms(1) by (auto simp: Let_def send_event_frame)
      then show ?thesis
        using p Stopped False
        by (intro conjI exI [of _ "[tok]"] exI [of _ "[b]"] exI [of _ True] exI [of _ "[]"]) auto
    next
      case (Emit b)
      define st2 where "st2 = (if b \<noteq> []
        then st\<lparr>dec_buf := db, attempts := attempts st + 1, sent := sent st @ [Delta (from_utf8_lossy b)]\<rparr>
        else st\<lparr>dec_buf := db\<rparr>)"
      have st2: "smp st2 = smp st" "dec_buf st2 = db" "sent st2 = sent st @ texts [b]"
        "tokens_decoded st2 = tokens_decoded st" "cancel_flag st2 = cancel_flag st"
        by (simp_all add: st2_def)
      obtain q c l where d: "decode_step (api env) (child st2) tok (row st2) = (q, c, l)" by (metis prod_cases3)
      have "(if b \<noteq> [] then send_event env (Delta (from_utf8_lossy b)) (st\<lparr>dec_buf := db\<rparr>)
          else (True, st\<lparr>dec_buf := db\<rparr>)) = (True, st2)"
        using assms(1) by (simp add: send_event_frame st2_def)
      note loop = Suc.prems [simplified False p Emit Let_def push_result.case decode_loop.simps if_False prod.case this d]
      show ?thesis
      proof (cases q)
        case (Inl e)
        then have "\<not> gone \<and> st' = st2\<lparr>child := c, row := l, tokens_decoded := tokens_decoded st2 + 1\<rparr>"
          using loop by auto
        then show ?thesis
          using p Emit False st2
          by (intro conjI exI [of _ "[tok]"] exI [of _ "[b]"] exI [of _ False] exI [of _ "[]"]) auto
      next
        case (Inr u)
        obtain tok' st3 where s3: "sample_next env
            (st2\<lparr>child := c, row := l, tokens_decoded := tokens_decoded st2 + 1\<rparr>) = (tok', st3)"
          by fastforce
        note fr = sample_next_frame [OF s3]
        have "decode_loop env n tok' st3 = (gone, st')" using loop Inr s3 by simp
        from Suc.IH [OF this] obtain toks outs stopped new where ih:
          "\<not> gone" "cancel_flag st' = cancel_flag st3" "history (smp st') = history (smp st3) @ new"
          "length toks \<le> n" "take (length toks) (tok' # new) = toks" "list_all (\<lambda>t. \<not> is_stop ?tk t) toks"
          "push_all (dec_buf st3) (map (decode_token ?tk) toks) = (outs, stopped, dec_buf st')"
          "sent st' = sent st3 @ texts outs" "tokens_decoded st' = tokens_decoded st3 + length toks"
          by blast
        show ?thesis
          using ih fr st2 p Emit False
          by (intro conjI exI [of _ "tok # toks"] exI [of _ "b # outs"] exI [of _ stopped] exI [of _ "tok' # new"]) auto
      qed
    qed
  qed
qed

lemma prod_eqI3: "fst p = x \<Longrightarrow> p = (x, fst (snd p), snd (snd p))"
  by (cases p) auto

fun event_text :: "chat_event \<Rightarrow> ustr" where
  "event_text (Delta s) = s"
| "event_text _ = []"

lemma texts_text: "concat (map event_text (texts bs)) = concat (map from_utf8_lossy bs)"
proof -
  have "from_utf8_lossy [] = []" by (simp add: from_utf8_lossy_def)
  then show ?thesis by (induction bs) auto
qed

lemma chat_close_ok:
  assumes "\<forall>k. send_ok env k" and "chat_close env st = (status, st')"
  shows "status = (cancel_flag st = 0) \<and> smp st' = smp st \<and> tokens_decoded st' = tokens_decoded st \<and>
    sent st' = sent st @ texts [buf (dec_buf st)] @ [if cancel_flag st \<noteq> 0 then CancelledEvent else DoneEvent]"
  using assms by (auto simp: chat_close_def flush_def Let_def send_event_frame split: if_splits)

text \<open>
  C8. For a client that stays, and a prompt the session takes, a turn is the token stream: the events are the
  non-empty pieces that pushing the sampled tokens through the buffer and flushing it gives, each decoded by
  itself, and one closing event that tells whether the chat was cancelled. At most \<open>max_tokens\<close> tokens are
  streamed, they are the first ones sampled, and none of them ends the turn. If their bytes spell a text
  without a stop string, the client has received exactly that text.
\<close>

theorem chat_turn_refines_stream:
  assumes "\<forall>k. send_ok env k" and "[] \<notin> set stops"
    and "tokens = [] \<or> fst (prefill_chunk (api env) c tokens (replicate vocab_size 0)) = Inr ()"
    and "chat_turn env tokens max_tokens (chat_start c sm vocab_size stops flag) = (status, st')"
  shows "\<exists>toks new outs stopped db. history (smp st') = history sm @ new \<and> take (length toks) new = toks \<and>
    length toks \<le> max_tokens \<and> list_all (\<lambda>t. \<not> is_stop (tokenizer env) t) toks \<and>
    tokens_decoded st' = length toks \<and> status = (flag = 0) \<and>
    push_all (buffer_new stops) (map (decode_token (tokenizer env)) toks) = (outs, stopped, db) \<and>
    sent st' = texts (outs @ [fst (flush db)]) @ [if flag \<noteq> 0 then CancelledEvent else DoneEvent] \<and>
    (\<forall>body. concat (map (decode_token (tokenizer env)) toks) = utf8 body \<longrightarrow> ustr_ok body \<longrightarrow>
       \<not> has_stop (map utf8 stops) (utf8 body) \<longrightarrow> concat (map event_text (sent st')) = body)"
proof -
  let ?st = "chat_start c sm vocab_size stops flag"
  let ?pre = "if tokens \<noteq> [] then prefill_chunk (api env) (child ?st) tokens (row ?st)
      else (Inr (), child ?st, row ?st)"
  have "fst ?pre = Inr ()" using assms(3) by (auto simp: chat_start_def)
  then obtain c' l' where pre: "?pre = (Inr (), c', l')"
    by (rule that [of "fst (snd ?pre)" "snd (snd ?pre)", OF prod_eqI3])
  obtain tok st1 where s1: "sample_next env (?st\<lparr>child := c', row := l'\<rparr>) = (tok, st1)" by fastforce
  obtain gone st2 where d: "decode_loop env max_tokens tok st1 = (gone, st2)" by fastforce
  note fr = sample_next_frame [OF s1]
  obtain toks outs stopped new where l: "\<not> gone" "cancel_flag st2 = cancel_flag st1"
    "history (smp st2) = history (smp st1) @ new" "length toks \<le> max_tokens" "take (length toks) (tok # new) = toks"
    "list_all (\<lambda>t. \<not> is_stop (tokenizer env) t) toks"
    "push_all (dec_buf st1) (map (decode_token (tokenizer env)) toks) = (outs, stopped, dec_buf st2)"
    "sent st2 = sent st1 @ texts outs" "tokens_decoded st2 = tokens_decoded st1 + length toks"
    using decode_loop_refines [OF assms(1) d] by blast
  have "chat_close env st2 = (status, st')"
    using assms(4) pre s1 d l(1) by (simp add: chat_turn_def Let_def)
  note cl = chat_close_ok [OF assms(1) this]
  have st: "dec_buf st1 = buffer_new stops" "sent st1 = []" "cancel_flag st1 = flag" "tokens_decoded st1 = 0"
    "history (smp st1) = history sm @ [tok]"
    using fr by (simp_all add: chat_start_def)
  have sent: "sent st' = texts (outs @ [fst (flush (dec_buf st2))]) @ [if flag \<noteq> 0 then CancelledEvent else DoneEvent]"
    using cl l(2,8) st by (simp add: texts_def flush_def)
  have push: "push_all (buffer_new stops) (map (decode_token (tokenizer env)) toks) = (outs, stopped, dec_buf st2)"
    using l(7) st(1) by simp
  have spelled: "concat (map event_text (sent st')) = body"
    if "concat (map (decode_token (tokenizer env)) toks) = utf8 body" "ustr_ok body"
      "\<not> has_stop (map utf8 stops) (utf8 body)" for body
    using stream_text [OF that(1,2) assms(2) that(3) push] by (simp add: sent texts_text)
  show ?thesis
    using sent push spelled l(3,4,5,6,9) cl st l(2)
    by (intro exI [of _ toks] exI [of _ "tok # new"] exI [of _ outs] exI [of _ stopped] exI [of _ "dec_buf st2"]) simp
qed

definition demo_env :: "'e sptb_tokenizer \<Rightarrow> ((i32 list \<Rightarrow> f32 list) \<times> i32 list, nat, 'e) chat_env" where
  "demo_env tok = \<lparr>api = ref_api, tokenizer = tok, fops = nat_float_ops, srt = sort_key (\<lambda>c. - f32_key (snd c)),
     send_ok = (\<lambda>_. True)\<rparr>"

definition demo_params :: sampling_params where
  "demo_params = \<lparr>temperature = 0, top_p = 0, top_k = 0, repetition_penalty = 0,
     frequency_penalty = 0, seed = None, no_repeat_ngram = 0\<rparr>"

definition demo_sampler :: "i32 list \<Rightarrow> sampler" where
  "demo_sampler ids = with_suppress 0 demo_params ids"

lemma demo_sampler_greedy: "is_greedy (demo_sampler ids)"
  by (simp add: demo_sampler_def demo_params_def with_suppress_def is_greedy_def f32_nan_def f32_key_def)

theorem chat_turn_refines_stream_witness:
  defines "tok \<equiv> \<lparr>inner = None, c_tokenizer = None, id_to_bytes = [blit ''a'', blit ''b''], eos_ids = [1], arch_id = 0,
      tok_type_id = 0, bos_id = None, config_suppress = []\<rparr> :: unit sptb_tokenizer"
  defines "st0 \<equiv> chat_start (\<lambda>_. [0x3F800000, 0], []) (demo_sampler []) 2 [] 0"
  shows "fst (chat_turn (demo_env tok) [0] 3 st0) \<and> last (sent (snd (chat_turn (demo_env tok) [0] 3 st0))) = DoneEvent \<and>
    tokens_decoded (snd (chat_turn (demo_env tok) [0] 3 st0)) \<le> 3"
proof -
  obtain status st' where e: "chat_turn (demo_env tok) [0] 3 st0 = (status, st')" by fastforce
  have "\<exists>toks new outs stopped db. history (smp st') = history (demo_sampler []) @ new \<and> take (length toks) new = toks \<and>
    length toks \<le> 3 \<and> list_all (\<lambda>t. \<not> is_stop (tokenizer (demo_env tok)) t) toks \<and>
    tokens_decoded st' = length toks \<and> status = ((0 :: i32) = 0) \<and>
    push_all (buffer_new []) (map (decode_token (tokenizer (demo_env tok))) toks) = (outs, stopped, db) \<and>
    sent st' = texts (outs @ [fst (flush db)]) @ [if (0 :: i32) \<noteq> 0 then CancelledEvent else DoneEvent] \<and>
    (\<forall>body. concat (map (decode_token (tokenizer (demo_env tok))) toks) = utf8 body \<longrightarrow> ustr_ok body \<longrightarrow>
       \<not> has_stop (map utf8 []) (utf8 body) \<longrightarrow> concat (map event_text (sent st')) = body)"
    by (rule chat_turn_refines_stream [OF _ _ _ e [unfolded st0_def]])
      (simp_all add: demo_env_def ref_api_def prefill_chunk_def)
  then show ?thesis unfolding e by auto
qed

subsection \<open>A Qwen chat does not stop\<close>

lemma push_no_stops:
  assumes "stop_bytes db = []"
  obtains b db' where "push c db = (Emit b, db')" and "stop_bytes db' = []"
  using assms by (cases "push c db") (auto simp: push_def Let_def split: if_splits)

text \<open>A row that offers a token outside the suppressed set.\<close>

definition offers :: "i32 list \<Rightarrow> f32 list \<Rightarrow> bool" where
  "offers ids l \<longleftrightarrow> logits_row l \<and> length l < 2 ^ 31 \<and>
     (\<exists>j < length l. of_nat j \<notin> set ids \<and> f32_key NEG_INFINITY < f32_key (l ! j))"

lemma greedy_sample_next:
  assumes "is_greedy (smp st)" and "no_repeat_ngram (params (smp st)) < 2" and "offers (suppress (smp st)) (row st)"
    and "sample_next env st = (tok, st')"
  shows "tok \<notin> set (suppress (smp st)) \<and> is_greedy (smp st') \<and> params (smp st') = params (smp st) \<and>
    suppress (smp st') = suppress (smp st)"
proof -
  obtain j where j: "j < length (row st)" "of_nat j \<notin> set (suppress (smp st))"
    "f32_key NEG_INFINITY < f32_key (row st ! j)" and r: "logits_row (row st)" "length (row st) < 2 ^ 31"
    using assms(3) by (auto simp: offers_def)
  have forb: "forbidden (smp st) t \<longleftrightarrow> t \<in> set (suppress (smp st))" for t
    using assms(2) by (simp add: forbidden_def)
  obtain t l s where s: "sample (fops env) (srt env) (smp st) (row st) = (t, l, s)" by (metis prod_cases3)
  have "\<not> forbidden (smp st) t \<and> s = smp st"
    using greedy_pick_unforbidden [OF assms(1) r j(1) _ j(3), of "fops env" "srt env"] j(2) s by (simp add: forb)
  then show ?thesis
    using assms(1,4) s by (auto simp: sample_next_def observe_def is_greedy_def forb)
qed

lemma qwen_loop:
  assumes "l1_contract (api env) hist fwd ctx" and "\<forall>k. send_ok env k"
    and "\<And>t. is_stop (tokenizer env) t \<Longrightarrow> t \<in> set ids" and "\<And>h. offers ids (f h)"
    and "decode_loop env n tok st = (gone, st')"
    and "fwd (child st) = f" and "length (hist (child st)) + n \<le> ctx" and "suppress (smp st) = ids"
    and "is_greedy (smp st)" and "no_repeat_ngram (params (smp st)) < 2" and "stop_bytes (dec_buf st) = []"
    and "tok \<notin> set ids"
  shows "tokens_decoded st' = tokens_decoded st + n \<and> \<not> gone"
  using assms(5-)
proof (induction n arbitrary: tok st)
  case 0
  then show ?case by simp
next
  case (Suc n)
  have ns: "\<not> is_stop (tokenizer env) tok" using assms(3) Suc.prems(8) by blast
  obtain b db where p: "push (decode_token (tokenizer env) tok) (dec_buf st) = (Emit b, db)" "stop_bytes db = []"
    using push_no_stops [OF Suc.prems(7)] by metis
  define st2 where "st2 = (if b \<noteq> []
    then st\<lparr>dec_buf := db, attempts := attempts st + 1, sent := sent st @ [Delta (from_utf8_lossy b)]\<rparr>
    else st\<lparr>dec_buf := db\<rparr>)"
  have st2: "smp st2 = smp st" "dec_buf st2 = db" "tokens_decoded st2 = tokens_decoded st" "child st2 = child st"
    by (simp_all add: st2_def)
  have snd: "(if b \<noteq> [] then send_event env (Delta (from_utf8_lossy b)) (st\<lparr>dec_buf := db\<rparr>)
      else (True, st\<lparr>dec_buf := db\<rparr>)) = (True, st2)"
    using assms(2) by (simp add: send_event_frame st2_def)
  obtain c where d: "decode_step (api env) (child st2) tok (row st2) = (Inr (), c, f (hist (child st) @ [tok]))"
    "hist c = hist (child st) @ [tok]" "fwd c = f"
    using decode_step_contract [OF assms(1), of "child st2" tok "row st2"] Suc.prems(2,3) st2(4) by auto
  define st4 where "st4 = st2\<lparr>child := c, row := f (hist (child st) @ [tok]), tokens_decoded := tokens_decoded st2 + 1\<rparr>"
  obtain tok' st3 where s3: "sample_next env st4 = (tok', st3)" by fastforce
  have sm: "tok' \<notin> set (suppress (smp st4)) \<and> is_greedy (smp st3) \<and> params (smp st3) = params (smp st4) \<and>
      suppress (smp st3) = suppress (smp st4)"
    by (rule greedy_sample_next [OF _ _ _ s3]) (use Suc.prems assms(4) st2 in \<open>simp_all add: st4_def\<close>)
  have loop: "decode_loop env n tok' st3 = (gone, st')"
    using Suc.prems(1) ns p snd d s3 by (simp add: Let_def st4_def)
  have "tokens_decoded st' = tokens_decoded st3 + n \<and> \<not> gone"
    by (rule Suc.IH [OF loop])
      (use Suc.prems sm st2 p d sample_next_frame [OF s3] in \<open>simp_all add: st4_def\<close>)
  then show ?case using sample_next_frame [OF s3] st2 by (simp add: st4_def)
qed

lemma qwen_stop_ids:
  assumes "tok_build (Inr raw) a (ws, []) bpe c_load = Inr tk" and "parse_sptb raw = Inr d" and "qwen a"
    and "is_stop tk t"
  shows "t \<in> set (suppress_token_ids tk)"
proof -
  note f = tok_build_fields [OF assms(1,2)] and q = qwen_eos_bundle [OF assms(1-3)]
  have "\<not> gemma a" using assms(3) by (auto simp: gemma_def qwen_def arch_defs)
  then have "set (eos_ids tk) = set (find_eos_ids a (vocab d))" using f(3) by (simp add: build_eos_ids_def)
  then show ?thesis using assms(4) q by (auto simp: is_stop_def)
qed

text \<open>
  C37. A greedy turn on a Qwen model with the default suppression does not end by itself: as long as the
  session answers and every row offers some token outside the suppressed set, the turn streams exactly
  \<open>max_tokens\<close> tokens, whatever the model would rather say, because every id it could stop at is masked and
  the model has no stop strings.
\<close>

theorem qwen_chat_runs_to_budget:
  assumes "tok_build (Inr raw) a (ws, []) bpe c_load = Inr (tokenizer env)" and "parse_sptb raw = Inr d" and "qwen a"
    and "l1_contract (api env) hist fwd ctx" and "\<forall>k. send_ok env k"
    and "\<And>h. offers (suppress_token_ids (tokenizer env)) (fwd c h)"
    and "sm = with_suppress clock ps (suppress_token_ids (tokenizer env))" and "is_greedy sm" and "no_repeat_ngram ps < 2"
    and "tokens \<noteq> []" and "length (hist c) + length tokens + max_tokens \<le> ctx"
    and "chat_turn env tokens max_tokens (chat_start c sm vocab_size (default_stops (tokenizer env)) flag) = (status, st')"
  shows "tokens_decoded st' = max_tokens"
proof -
  let ?ids = "suppress_token_ids (tokenizer env)"
  let ?st = "chat_start c sm vocab_size (default_stops (tokenizer env)) flag"
  have stops: "default_stops (tokenizer env) = []" using qwen_eos_bundle [OF assms(1-3)] by simp
  obtain c' where pre: "prefill_chunk (api env) c tokens (row ?st) = (Inr (), c', fwd c (hist c @ tokens))"
    "hist c' = hist c @ tokens" "fwd c' = fwd c"
    using prefill_chunk_contract [OF assms(4,10)] assms(11) by (metis add_leD1)
  define st0 where "st0 = ?st\<lparr>child := c', row := fwd c (hist c @ tokens)\<rparr>"
  obtain tok st1 where s1: "sample_next env st0 = (tok, st1)" by fastforce
  have smp0: "smp st0 = sm" "suppress sm = ?ids" "params sm = ps" "child st0 = c'"
    by (simp_all add: st0_def chat_start_def assms(7) with_suppress_def)
  have s: "tok \<notin> set (suppress (smp st0)) \<and> is_greedy (smp st1) \<and> params (smp st1) = params (smp st0) \<and>
      suppress (smp st1) = suppress (smp st0)"
    by (rule greedy_sample_next [OF _ _ _ s1]) (use assms(6,8,9) smp0 in \<open>simp_all add: st0_def\<close>)
  obtain gone st2 where d: "decode_loop env max_tokens tok st1 = (gone, st2)" by fastforce
  note fr = sample_next_frame [OF s1]
  have "tokens_decoded st2 = tokens_decoded st1 + max_tokens \<and> \<not> gone"
  proof (rule qwen_loop [OF assms(4,5) _ assms(6) d])
    show "is_stop (tokenizer env) t \<Longrightarrow> t \<in> set ?ids" for t by (rule qwen_stop_ids [OF assms(1-3)])
    show "stop_bytes (dec_buf st1) = []" using fr(2) stops by (simp add: st0_def chat_start_def buffer_new_def)
    show "length (hist (child st1)) + max_tokens \<le> ctx" "fwd (child st1) = fwd c"
      using fr(6) smp0(4) pre(2,3) assms(11) by simp_all
  qed (use s smp0 assms(9) in simp_all)
  moreover have "tokens_decoded st1 = 0" using fr(3) by (simp add: st0_def chat_start_def)
  moreover have "chat_turn env tokens max_tokens ?st = chat_close env st2"
    using assms(10) pre(1) s1 d calculation(1) by (simp add: chat_turn_def Let_def st0_def chat_start_def)
  ultimately show ?thesis using chat_close_ok [OF assms(5)] assms(12) by (metis add_0)
qed

theorem qwen_chat_runs_to_budget_witness:
  defines "vo \<equiv> [lit ''a'', lit ''<|im_end|>'']"
  defines "raw \<equiv> sptb_image (tiny_vocab vo) []"
  shows "\<exists>tk. tok_build (Inr raw) ARCH_QWEN3 ([], []) (\<lambda>_ _ _. Inr (\<lambda>_. Inr [])) (Inl ()) = Inr tk \<and>
    tokens_decoded (snd (chat_turn (demo_env tk) [0] 4
      (chat_start (\<lambda>_. [0x3F800000, 0x40000000], []) (demo_sampler (suppress_token_ids tk)) 2 (default_stops tk) 0))) = 4"
proof -
  have p: "parse_sptb raw = Inr (tiny_vocab vo)"
    unfolding raw_def by (rule tiny_parses) (simp_all add: vo_def str_fits_def lit_def ustr_ok_def scalar_def utf8_def utf8_char_def)
  obtain tk where b: "tok_build (Inr raw) ARCH_QWEN3 ([], []) (\<lambda>_ _ _. Inr (\<lambda>_. Inr [])) (Inl ()) = Inr tk"
    by (simp add: tok_build_def p tiny_vocab_def TYPE_BPE_LLAMA3_def TYPE_GEMMA4_BPE_def)
  have q: "qwen ARCH_QWEN3" by (simp add: qwen_def)
  have ib: "id_to_bytes tk = map gpt2_decode vo \<or> id_to_bytes tk = map spm_bytes vo" "config_suppress tk = []"
    using tok_build_fields [OF b p] by (simp_all add: tiny_vocab_def)
  have a: "gpt2_decode (lit ''a'') = blit ''a''" "spm_bytes (lit ''a'') = blit ''a''"
    by (rule image_of_name; simp add: lit_def)+
  have "length vo = 2" "vo ! 0 = lit ''a''" by (simp_all add: vo_def)
  then have z: "id_to_bytes tk ! 0 = blit ''a''" "length (id_to_bytes tk) = 2" using ib(1) a by auto
  have "0 \<notin> set (suppress_token_ids tk)"
  proof
    assume "0 \<in> set (suppress_token_ids tk)"
    then obtain j where "j < 2" "is_suppressed_control (id_to_bytes tk ! j)" "0 = (of_nat j :: i32)"
      using ib(2) z(2) by (auto simp: suppress_set ids_where_set)
    moreover from this have "j = 0" using of_nat_id_inj [of 0 j] by simp
    ultimately show False using z(1) by (simp add: is_suppressed_control_def blit_def is_unused_reserve_def)
  qed
  then have off: "offers (suppress_token_ids tk) [0x3F800000, 0x40000000]"
    by (auto simp: offers_def logits_row_def f32_nan_def f32_key_def NEG_INFINITY_def bit_numeral_rec intro!: exI [of _ 0])
  let ?st = "chat_start (\<lambda>_. [0x3F800000, 0x40000000], []) (demo_sampler (suppress_token_ids tk)) 2 (default_stops (tokenizer (demo_env tk))) 0"
  have tk: "tokenizer (demo_env tk) = tk" by (simp add: demo_env_def)
  obtain status st' where e: "chat_turn (demo_env tk) [0] 4 ?st = (status, st')" by fastforce
  have "tokens_decoded st' = 4"
    by (rule qwen_chat_runs_to_budget [where env = "demo_env tk", OF _ p q _ _ _ _ demo_sampler_greedy _ _ _ e, where ctx = 5 and hist = snd and fwd = fst and clock = 0 and ps = demo_params])
      (use b off ref_api_contract in \<open>simp_all add: demo_env_def demo_sampler_def demo_params_def\<close>)
  then show ?thesis using b e tk by auto
qed

end
