(* ===== verification/Rust_Float.thy ===== *)
theory Rust_Float
  imports Rust_Str Float32
begin

text \<open>
  Decimal text and \<^verbatim>\<open>f32\<close>: the correctly rounded \<^verbatim>\<open>parse\<close> and the \<^verbatim>\<open>{:.2}\<close> format of the standard
  library, on bit patterns. A finite pattern is \<open>f32_mant * 2 ^ f32_scale / 2 ^ 149\<close>.
\<close>

definition f32_mant :: "f32 \<Rightarrow> nat" where
  "f32_mant x = (let e = unat (drop_bit 23 x AND 0xFF); m = unat (x AND 0x7FFFFF) in if e = 0 then m else m + 2 ^ 23)"

definition f32_scale :: "f32 \<Rightarrow> nat" where
  "f32_scale x = unat (drop_bit 23 x AND 0xFF) - 1"

definition f32_inf :: "f32 \<Rightarrow> bool" where
  "f32_inf x \<longleftrightarrow> x AND 0x7FFFFFFF = 0x7F800000"

text \<open>\<^verbatim>\<open>>=\<close>, false when an operand is NaN.\<close>

definition f32_ge :: "f32 \<Rightarrow> f32 \<Rightarrow> bool" where
  "f32_ge x y \<longleftrightarrow> \<not> f32_nan x \<and> \<not> f32_nan y \<and> f32_key y \<le> f32_key x"

text \<open>\<open>n / d\<close> rounded to the nearest integer, ties to even.\<close>

definition round_half_even :: "nat \<Rightarrow> nat \<Rightarrow> nat" where
  "round_half_even n d =
     (let q = n div d; r = n mod d in if d < 2 * r \<or> 2 * r = d \<and> odd q then q + 1 else q)"

definition fmt_fixed2 :: "f32 \<Rightarrow> ustr" where
  "fmt_fixed2 x =
     (if f32_nan x then lit ''NaN''
      else (if bit x 31 then lit ''-'' else []) @
           (if f32_inf x then lit ''inf''
            else let n = round_half_even (f32_mant x * 100 * 2 ^ f32_scale x) (2 ^ 149)
                 in decimal (n div 100) @ [46, 48 + n div 10 mod 10, 48 + n mod 10]))"

text \<open>The magnitude \<open>n / d\<close> as a pattern.\<close>

definition f32_of_frac :: "nat \<Rightarrow> nat \<Rightarrow> f32" where
  "f32_of_frac n d =
     (case find (\<lambda>e. n * 2 ^ 149 < 2 ^ 24 * d * 2 ^ e) [0..<254] of
        None \<Rightarrow> 0x7F800000
      | Some e \<Rightarrow> of_nat (e * 2 ^ 23 + round_half_even (n * 2 ^ 149) (d * 2 ^ e)))"

definition digit :: "nat \<Rightarrow> bool" where
  "digit c \<longleftrightarrow> 48 \<le> c \<and> c \<le> 57"

definition ascii_upper :: "ustr \<Rightarrow> ustr" where
  "ascii_upper s = map (\<lambda>c. if 97 \<le> c \<and> c \<le> 122 then c - 32 else c) s"

definition parse_exp :: "ustr \<Rightarrow> int option" where
  "parse_exp s =
     (case s of [] \<Rightarrow> Some 0
      | c # r \<Rightarrow>
          if c \<noteq> 101 \<and> c \<noteq> 69 then None
          else let (sg, ds) = (case r of x # y \<Rightarrow> if x = 45 then (-1, y) else if x = 43 then (1, y) else (1, r) | [] \<Rightarrow> (1, []))
               in if ds = [] \<or> \<not> list_all digit ds then None else Some (sg * int (dec_value ds)))"

definition parse_f32_magnitude :: "ustr \<Rightarrow> f32 option" where
  "parse_f32_magnitude s =
     (if ascii_upper s \<in> set [lit ''INF'', lit ''INFINITY''] then Some 0x7F800000
      else if ascii_upper s = lit ''NAN'' then Some 0x7FC00000
      else let ip = takeWhile digit s; r1 = dropWhile digit s;
               (fp, r2) = (case r1 of c # t \<Rightarrow> if c = 46 then (takeWhile digit t, dropWhile digit t) else ([], r1) | [] \<Rightarrow> ([], []))
           in if ip = [] \<and> fp = [] then None
              else (case parse_exp r2 of None \<Rightarrow> None
                    | Some ex \<Rightarrow>
                        let k = ex - int (length fp); n = dec_value (ip @ fp)
                        in Some (if 0 \<le> k then f32_of_frac (n * 10 ^ nat k) 1 else f32_of_frac n (10 ^ nat (- k)))))"

definition parse_f32 :: "ustr \<Rightarrow> f32 option" where
  "parse_f32 s =
     (case s of [] \<Rightarrow> None
      | c # r \<Rightarrow>
          if c = 45 then map_option (\<lambda>m. m OR 0x80000000) (parse_f32_magnitude r)
          else if c = 43 then parse_f32_magnitude r
          else parse_f32_magnitude s)"

end
