(* ===== verification/Kairos.thy ===== *)
theory Kairos
  imports Rust_Float
begin

text \<open>
  \<^verbatim>\<open>kairos.rs\<close>: the event tape and the heartbeat that turns each event into a receipt. The waits
  (\<^verbatim>\<open>yield_now\<close>, the back-off while inference runs, the tick interval) change no state and are left out;
  the elapsed time of a tick is a parameter.
\<close>

subsection \<open>The tape\<close>

datatype decision = Noop | Action

definition decision_parse :: "ustr \<Rightarrow> decision option" where
  "decision_parse s =
     (let u = ascii_upper (trim s) in
      if u = lit ''NOOP'' then Some Noop else if u = lit ''ACTION'' then Some Action else None)"

record tape_event =
  tick_idx :: u64
  kind :: ustr
  payload :: ustr
  salience :: f32
  expect :: decision

datatype tape_error = BadFields nat nat | BadTick nat | BadSalience nat | BadExpect nat ustr

text \<open>White space separates, a double quote toggles quoting and is dropped, empty tokens are dropped.\<close>

fun tokenize_chars :: "ustr \<Rightarrow> ustr \<Rightarrow> bool \<Rightarrow> ustr list" where
  "tokenize_chars [] cur in_quote = (if cur = [] then [] else [cur])"
| "tokenize_chars (ch # s) cur in_quote =
     (if ch = 34 then tokenize_chars s cur (\<not> in_quote)
      else if is_ws ch \<and> \<not> in_quote
      then (if cur = [] then tokenize_chars s [] in_quote else cur # tokenize_chars s [] in_quote)
      else tokenize_chars s (cur @ [ch]) in_quote)"

definition tokenize_line :: "ustr \<Rightarrow> ustr list" where
  "tokenize_line line = tokenize_chars line [] False"

text \<open>One line: skipped (\<open>Inr None\<close>), an event, or an error.\<close>

definition parse_line :: "nat \<Rightarrow> ustr \<Rightarrow> tape_error + tape_event option" where
  "parse_line lineno raw =
     (let line = trim raw in
      if line = [] \<or> hd line = 35 then Inr None
      else (case tokenize_line line of
              [t0, t1, t2, t3, t4] \<Rightarrow>
                (case parse_usize t0 of None \<Rightarrow> Inl (BadTick (lineno + 1))
                 | Some tick \<Rightarrow>
                (case parse_f32 t3 of None \<Rightarrow> Inl (BadSalience (lineno + 1))
                 | Some sal \<Rightarrow>
                (case decision_parse t4 of None \<Rightarrow> Inl (BadExpect (lineno + 1) t4)
                 | Some ex \<Rightarrow>
                     Inr (Some \<lparr>tick_idx = of_nat tick, kind = t1, payload = (if t2 = [45] then [] else t2),
                                salience = sal, expect = ex\<rparr>))))
            | toks \<Rightarrow> Inl (BadFields (lineno + 1) (length toks))))"

fun parse_lines :: "nat \<Rightarrow> ustr list \<Rightarrow> tape_error + tape_event list" where
  "parse_lines lineno [] = Inr []"
| "parse_lines lineno (l # ls) =
     (case parse_line lineno l of
        Inl e \<Rightarrow> Inl e
      | Inr r \<Rightarrow>
          (case parse_lines (lineno + 1) ls of
             Inl e \<Rightarrow> Inl e
           | Inr evs \<Rightarrow> Inr (case r of None \<Rightarrow> evs | Some ev \<Rightarrow> ev # evs)))"

definition tape_parse :: "ustr \<Rightarrow> tape_error + tape_event list" where
  "tape_parse s = parse_lines 0 (str_lines s)"

subsection \<open>Receipts and counters\<close>

record tick_record =
  rec_tick :: u64
  frame_hash :: u64
  rec_decision :: decision
  rec_expect :: decision
  latency_us :: u64
  state_size :: u64

record gate_counters =
  ticks :: u64
  false_actions :: u64
  missed_events :: u64

definition counters_default :: gate_counters where
  "counters_default = \<lparr>ticks = 0, false_actions = 0, missed_events = 0\<rparr>"

definition gate_observe :: "decision \<Rightarrow> decision \<Rightarrow> gate_counters \<Rightarrow> gate_counters" where
  "gate_observe d ex c0 =
     (let c = c0\<lparr>ticks := ticks c0 + 1\<rparr> in
      case (d, ex) of
        (Action, Noop) \<Rightarrow> c\<lparr>false_actions := false_actions c + 1\<rparr>
      | (Noop, Action) \<Rightarrow> c\<lparr>missed_events := missed_events c + 1\<rparr>
      | _ \<Rightarrow> c)"

definition frame_fnv1a64 :: "bytes \<Rightarrow> u64" where
  "frame_fnv1a64 bs = fold (\<lambda>b h. (h XOR ucast b) * 0x100000001b3) bs 0xcbf29ce484222325"

definition frame_line :: "tape_event \<Rightarrow> ustr" where
  "frame_line ev =
     lit ''t'' @ decimal (unat (tick_idx ev)) @ [32] @ kind ev @ [32] @
     (if payload ev = [] then [45] else payload ev) @ lit '' s'' @ fmt_fixed2 (salience ev)"

definition STUB_SALIENCE_THRESHOLD :: f32 where
  "STUB_SALIENCE_THRESHOLD = 0x3F000000"

definition decide_stub :: "tape_event \<Rightarrow> decision" where
  "decide_stub ev = (if f32_ge (salience ev) STUB_SALIENCE_THRESHOLD then Action else Noop)"

definition saturating_add :: "u64 \<Rightarrow> u64 \<Rightarrow> u64" where
  "saturating_add x y = of_nat (min (unat x + unat y) (2 ^ 64 - 1))"

subsection \<open>The heartbeat\<close>

text \<open>\<open>clock\<close> gives the elapsed microseconds of the tick that writes the \<open>i\<close>-th receipt.\<close>

fun heartbeat ::
  "(nat \<Rightarrow> u64) \<Rightarrow> tape_event list \<Rightarrow> u64 \<Rightarrow> gate_counters \<Rightarrow> tick_record list \<Rightarrow> gate_counters \<times> tick_record list" where
  "heartbeat clock [] sz counters recs = (counters, recs)"
| "heartbeat clock (ev # evs) sz counters recs =
     (let frame = utf8 (frame_line ev);
          d = decide_stub ev;
          sz' = (if d = Action then saturating_add sz (of_nat (length frame)) else sz);
          r = \<lparr>rec_tick = tick_idx ev, frame_hash = frame_fnv1a64 frame, rec_decision = d,
               rec_expect = expect ev, latency_us = clock (length recs), state_size = sz'\<rparr>
      in heartbeat clock evs sz' (gate_observe d (expect ev) counters) (recs @ [r]))"

definition run_kairos_heartbeat ::
  "(nat \<Rightarrow> u64) \<Rightarrow> tape_event list \<Rightarrow> tick_record list \<Rightarrow> gate_counters \<times> tick_record list" where
  "run_kairos_heartbeat clock tape recs = heartbeat clock tape 0 counters_default recs"

subsection \<open>What the receipts and the counters say\<close>

definition count_where :: "('a \<Rightarrow> bool) \<Rightarrow> 'a list \<Rightarrow> nat" where
  "count_where P xs = length (filter P xs)"

lemma count_where_simps [simp]:
  "count_where P [] = 0" "count_where P (x # xs) = (if P x then 1 else 0) + count_where P xs"
  by (simp_all add: count_where_def)

definition action_bytes :: "tape_event list \<Rightarrow> nat" where
  "action_bytes evs = sum_list (map (\<lambda>ev. length (utf8 (frame_line ev))) (filter (\<lambda>ev. decide_stub ev = Action) evs))"

text \<open>The receipts of a tape, each from its own event and the events before it.\<close>

definition receipt_of :: "(nat \<Rightarrow> u64) \<Rightarrow> tape_event list \<Rightarrow> nat \<Rightarrow> nat \<Rightarrow> tick_record" where
  "receipt_of clock tape base i =
     (let ev = tape ! i in
      \<lparr>rec_tick = tick_idx ev, frame_hash = frame_fnv1a64 (utf8 (frame_line ev)), rec_decision = decide_stub ev,
       rec_expect = expect ev, latency_us = clock (base + i),
       state_size = of_nat (min (action_bytes (take (Suc i) tape)) (2 ^ 64 - 1))\<rparr>)"

lemma saturating_add_of_nat:
  assumes "x \<le> 2 ^ 64 - 1" and "y < 2 ^ 64"
  shows "saturating_add (of_nat x) (of_nat y) = of_nat (min (x + y) (2 ^ 64 - 1))"
proof -
  have "unat (of_nat k :: u64) = k" if "k < 2 ^ 64" for k using that by (simp add: unat_of_nat)
  moreover have "x < 2 ^ 64" using assms(1) by simp
  ultimately show ?thesis using assms(2) by (simp only: saturating_add_def)
qed

lemma action_bytes_snoc:
  "action_bytes (evs @ [ev]) = action_bytes evs + (if decide_stub ev = Action then length (utf8 (frame_line ev)) else 0)"
  by (simp add: action_bytes_def)

lemma gate_observe_counts:
  "gate_observe d ex \<lparr>ticks = of_nat a, false_actions = of_nat b, missed_events = of_nat c\<rparr> =
   \<lparr>ticks = of_nat (a + 1), false_actions = of_nat (b + (if d = Action \<and> ex = Noop then 1 else 0)),
    missed_events = of_nat (c + (if d = Noop \<and> ex = Action then 1 else 0))\<rparr>"
  by (cases d; cases ex) (simp_all add: gate_observe_def)

definition counts_of :: "tape_event list \<Rightarrow> gate_counters" where
  "counts_of evs = \<lparr>ticks = of_nat (length evs),
     false_actions = of_nat (count_where (\<lambda>ev. decide_stub ev = Action \<and> expect ev = Noop) evs),
     missed_events = of_nat (count_where (\<lambda>ev. decide_stub ev = Noop \<and> expect ev = Action) evs)\<rparr>"

lemma min_min_add: "min (min a m + b) m = min (a + b) m" for a b m :: nat
  by (simp add: min_def)

lemma heartbeat_from:
  assumes "\<forall>ev \<in> set (seen @ evs). length (utf8 (frame_line ev)) < 2 ^ 64"
  shows "heartbeat clock evs (of_nat (min (action_bytes seen) (2 ^ 64 - 1))) (counts_of seen)
      (recs0 @ map (receipt_of clock (seen @ evs) (length recs0)) [0..<length seen]) =
    (counts_of (seen @ evs), recs0 @ map (receipt_of clock (seen @ evs) (length recs0)) [0..<length (seen @ evs)])"
  using assms
proof (induction evs arbitrary: seen)
  case Nil
  then show ?case by simp
next
  case (Cons ev evs)
  let ?M = "2 ^ 64 - 1 :: nat" and ?tape = "(seen @ [ev]) @ evs"
  have len: "length (utf8 (frame_line ev)) < 2 ^ 64" using Cons.prems by simp
  have sz': "(if decide_stub ev = Action then saturating_add (of_nat (min (action_bytes seen) ?M))
        (of_nat (length (utf8 (frame_line ev)))) else of_nat (min (action_bytes seen) ?M)) =
      of_nat (min (action_bytes (seen @ [ev])) ?M)"
    using saturating_add_of_nat [OF _ len, of "min (action_bytes seen) ?M"]
    by (simp only: action_bytes_snoc min_min_add min.cobounded2 add_0_right if_True if_False split: if_splits) auto
  have c: "gate_observe (decide_stub ev) (expect ev) (counts_of seen) = counts_of (seen @ [ev])"
    by (simp add: counts_of_def gate_observe_counts count_where_def)
  have r: "receipt_of clock ?tape (length recs0) (length seen) =
      \<lparr>rec_tick = tick_idx ev, frame_hash = frame_fnv1a64 (utf8 (frame_line ev)), rec_decision = decide_stub ev,
       rec_expect = expect ev, latency_us = clock (length recs0 + length seen),
       state_size = of_nat (min (action_bytes (seen @ [ev])) ?M)\<rparr>"
    by (simp add: receipt_of_def nth_append)
  have "heartbeat clock (ev # evs) (of_nat (min (action_bytes seen) ?M)) (counts_of seen)
      (recs0 @ map (receipt_of clock ?tape (length recs0)) [0..<length seen]) =
    heartbeat clock evs (of_nat (min (action_bytes (seen @ [ev])) ?M)) (counts_of (seen @ [ev]))
      (recs0 @ map (receipt_of clock ?tape (length recs0)) [0..<length (seen @ [ev])])"
    by (simp only: heartbeat.simps Let_def sz' c length_append length_map length_upt list.size append_assoc
        map_append upt_Suc_append [OF le0] add_Suc_right add_0_right minus_nat.diff_0 list.map r [unfolded append_assoc])
  also have "\<dots> = (counts_of ?tape, recs0 @ map (receipt_of clock ?tape (length recs0)) [0..<length ?tape])"
    by (rule Cons.IH) (use Cons.prems in simp)
  finally show ?case by simp
qed

text \<open>
  The heartbeat writes one receipt per event, in order: its decision, its frame hash and its state size
  depend only on the event and the events before it (not on the clock), the counters count exactly the
  disagreements with the oracle, and the state grows by the frames of the actions only, saturating at
  \<open>2 ^ 64 - 1\<close>.
\<close>

theorem heartbeat_receipts:
  assumes "\<forall>ev \<in> set tape. length (utf8 (frame_line ev)) < 2 ^ 64"
  shows "run_kairos_heartbeat clock tape recs =
    (counts_of tape, recs @ map (receipt_of clock tape (length recs)) [0..<length tape])"
proof -
  have "counters_default = counts_of []" by (simp add: counters_default_def counts_of_def)
  then show ?thesis
    using heartbeat_from [of "[]" tape clock recs] assms by (simp add: run_kairos_heartbeat_def action_bytes_def)
qed

theorem heartbeat_receipts_witness:
  defines "tape \<equiv> [\<lparr>tick_idx = 0, kind = lit ''IDLE'', payload = [], salience = 0, expect = Noop\<rparr>,
    \<lparr>tick_idx = 1, kind = lit ''E'', payload = lit ''x'', salience = 0x3F800000, expect = Noop\<rparr>]"
  shows "fst (run_kairos_heartbeat (\<lambda>_. 0) tape []) = \<lparr>ticks = 2, false_actions = 1, missed_events = 0\<rparr>"
proof -
  have d: "decide_stub (tape ! 0) = Noop" "decide_stub (tape ! 1) = Action"
    by (simp_all add: tape_def decide_stub_def f32_ge_def f32_nan_def f32_key_def STUB_SALIENCE_THRESHOLD_def bit_numeral_rec)
  have "decimal 0 = [48]" "decimal 1 = [49]" by (subst decimal.simps, simp)+
  moreover have "f32_mant 0 = 0" "f32_mant 0x3F800000 = 2 ^ 23" "f32_scale 0x3F800000 = 126"
    by (simp_all add: f32_mant_def f32_scale_def Let_def)
  moreover have "round_half_even 0 (2 ^ 149) = 0" "round_half_even (2 ^ 23 * 100 * 2 ^ 126) (2 ^ 149) = 100"
    by (simp_all add: round_half_even_def)
  ultimately have "fmt_fixed2 0 = [48, 46, 48, 48]" "fmt_fixed2 0x3F800000 = [49, 46, 48, 48]"
    by (simp_all add: fmt_fixed2_def f32_nan_def f32_inf_def Let_def bit_numeral_rec)
  then have small: "length (utf8 (frame_line ev)) < 2 ^ 64" if "ev \<in> set tape" for ev
    using that \<open>decimal 0 = _\<close> \<open>decimal 1 = _\<close>
    by (auto simp: tape_def frame_line_def lit_def utf8_def utf8_char_def)
  show ?thesis
    using heartbeat_receipts [of tape "\<lambda>_. 0" "[]"] small d by (simp add: counts_of_def tape_def)
qed

subsection \<open>Writing a tape\<close>

definition decision_text :: "decision \<Rightarrow> ustr" where
  "decision_text d = (case d of Noop \<Rightarrow> lit ''NOOP'' | Action \<Rightarrow> lit ''ACTION'')"

text \<open>An event as a line, with \<open>sal\<close> the text of its salience.\<close>

definition render :: "ustr \<Rightarrow> tape_event \<Rightarrow> ustr" where
  "render sal ev =
     decimal (unat (tick_idx ev)) @ [32] @ kind ev @ [32] @
     (if payload ev = [] then [45] else [34] @ payload ev @ [34]) @ [32] @ sal @ [32] @ decision_text (expect ev)"

definition word_token :: "ustr \<Rightarrow> bool" where
  "word_token w \<longleftrightarrow> w \<noteq> [] \<and> (\<forall>c \<in> set w. \<not> is_ws c \<and> c \<noteq> 34)"

definition renderable :: "ustr \<Rightarrow> tape_event \<Rightarrow> bool" where
  "renderable sal ev \<longleftrightarrow> word_token (kind ev) \<and> word_token sal \<and> parse_f32 sal = Some (salience ev) \<and>
     payload ev \<noteq> [45] \<and> 34 \<notin> set (payload ev) \<and> 10 \<notin> set (payload ev)"

lemma tokenize_word: "(\<forall>c \<in> set w. \<not> is_ws c \<and> c \<noteq> 34) \<Longrightarrow> tokenize_chars (w @ s) cur False = tokenize_chars s (cur @ w) False"
  by (induction w arbitrary: cur) auto

lemma tokenize_quoted: "34 \<notin> set w \<Longrightarrow> tokenize_chars (w @ s) cur True = tokenize_chars s (cur @ w) True"
  by (induction w arbitrary: cur) auto

lemma tokenize_space: "cur \<noteq> [] \<Longrightarrow> tokenize_chars (32 # s) cur False = cur # tokenize_chars s [] False"
  by (simp add: is_ws_def)

lemma decimal_word: "word_token (decimal n)"
  using dec_digits [of n] by (auto simp: word_token_def list_all_iff is_ws_def)

lemma decision_word: "word_token (decision_text d)"
  by (cases d) (auto simp: word_token_def decision_text_def lit_def is_ws_def)

lemma decision_parse_text: "decision_parse (decision_text d) = Some d"
proof -
  have "trim (decision_text d) = decision_text d"
    by (rule trim_fits) (cases d; simp add: decision_text_def lit_def is_ws_def)+
  then show ?thesis by (cases d) (simp_all add: decision_parse_def decision_text_def lit_def ascii_upper_def)
qed

lemma tokenize_render:
  assumes "renderable sal ev"
  shows "tokenize_line (render sal ev) =
    [decimal (unat (tick_idx ev)), kind ev, (if payload ev = [] then [45] else payload ev), sal, decision_text (expect ev)]"
proof -
  have w: "tokenize_chars (w @ 32 # s) [] False = w # tokenize_chars s [] False" if "word_token w" for w s
    using that tokenize_word [of w "32 # s" "[]"] by (simp add: word_token_def tokenize_space del: tokenize_chars.simps)
  have e: "tokenize_chars w [] False = [w]" if "word_token w" for w
    using that tokenize_word [of w "[]" "[]"] by (simp add: word_token_def)
  have q: "tokenize_chars (34 # w @ 34 # 32 # s) [] False = w # tokenize_chars s [] False" if "w \<noteq> []" "34 \<notin> set w" for w s
    using that tokenize_quoted [of w "34 # 32 # s" "[]"] by (simp add: is_ws_def)
  have m: "word_token [45]" by (simp add: word_token_def is_ws_def)
  show ?thesis
    using assms w [OF decimal_word] w [of "kind ev"] w [OF m] w [of sal] e [OF decision_word] q [of "payload ev"]
    by (simp add: tokenize_line_def render_def renderable_def del: tokenize_chars.simps)
qed

lemma parse_rendered_line:
  assumes "renderable sal ev"
  shows "parse_line n (render sal ev) = Inr (Some ev)"
proof -
  have h: "render sal ev \<noteq> []" "hd (render sal ev) \<noteq> 35" "\<not> is_ws (hd (render sal ev))"
    using dec_digits [of "unat (tick_idx ev)"]
    by (cases "decimal (unat (tick_idx ev))"; auto simp: render_def list_all_iff is_ws_def)+
  have "\<not> is_ws (last (render sal ev))"
    by (cases "expect ev") (simp_all add: render_def decision_text_def lit_def is_ws_def)
  then have tr: "trim (render sal ev) = render sal ev" using h by (intro trim_fits)
  have "unat (tick_idx ev) < 2 ^ 64" using unsigned_less [of "tick_idx ev"] by simp
  then have "parse_usize (decimal (unat (tick_idx ev))) = Some (unat (tick_idx ev))" by (rule parse_dec)
  then show ?thesis
    using assms h tokenize_render [OF assms]
    by (simp add: parse_line_def tr renderable_def decision_parse_text)
qed

text \<open>
  A tape that was written out is read back: events whose kind and salience text are single unquoted words,
  with a payload in quotes (or a dash for none), one per line, parse to the same events in the same order.
\<close>

theorem tape_roundtrip:
  assumes "list_all (\<lambda>(sal, ev). renderable sal ev) evs"
  shows "tape_parse (concat (map (\<lambda>(sal, ev). render sal ev @ [10]) evs)) = Inr (map snd evs)"
proof -
  have "10 \<notin> set (render sal ev) \<and> last (render sal ev) \<noteq> 13" if "renderable sal ev" for sal ev
  proof -
    have "is_ws 10" by (simp add: is_ws_def)
    then have "10 \<notin> set w" if "word_token w" for w using that unfolding word_token_def by blast
    then show ?thesis
      using that decimal_word [of "unat (tick_idx ev)"] decision_word [of "expect ev"]
      by (cases "expect ev") (auto simp: render_def renderable_def decision_text_def lit_def)
  qed
  then have "str_lines (concat (map (\<lambda>l. l @ [10]) (map (\<lambda>(sal, ev). render sal ev) evs))) = map (\<lambda>(sal, ev). render sal ev) evs"
    using assms by (intro str_lines_terminated) (auto simp: list_all_iff)
  then have lines: "str_lines (concat (map (\<lambda>(sal, ev). render sal ev @ [10]) evs)) = map (\<lambda>(sal, ev). render sal ev) evs"
    by (simp add: comp_def case_prod_unfold)
  have "parse_lines n (map (\<lambda>(sal, ev). render sal ev) evs) = Inr (map snd evs)" for n
    using assms by (induction evs arbitrary: n) (auto simp: parse_rendered_line)
  then show ?thesis by (simp add: tape_parse_def lines)
qed

theorem tape_roundtrip_witness:
  "tape_parse (lit ''2 EVENT.timer \"build finished\" 0 ACTION'' @ [10]) =
     Inr [\<lparr>tick_idx = 2, kind = lit ''EVENT.timer'', payload = lit ''build finished'', salience = 0, expect = Action\<rparr>]"
proof -
  define ev where "ev = \<lparr>tick_idx = 2, kind = lit ''EVENT.timer'', payload = lit ''build finished'', salience = 0, expect = Action\<rparr>"
  have "parse_f32 [48] = Some 0"
    by (simp add: parse_f32_def parse_f32_magnitude_def ascii_upper_def lit_def digit_def parse_exp_def dec_value_def
        f32_of_frac_def round_half_even_def upt_conv_Cons [of 0])
  then have "renderable (lit ''0'') ev"
    by (simp add: renderable_def ev_def lit_def word_token_def is_ws_def)
  moreover have "decimal 2 = [50]" by (subst decimal.simps) simp
  ultimately show ?thesis
    using tape_roundtrip [of "[(lit ''0'', ev)]"] by (simp add: render_def ev_def decision_text_def lit_def)
qed

end
