(* ===== verification/Kairos_Runner.thy ===== *)
theory Kairos_Runner
  imports Kairos Tokenizer Session
begin

text \<open>
  \<^verbatim>\<open>kairos_runner.rs\<close>: the heartbeat whose decisions come from the model. One session lives through the tape;
  each tick appends its frame, decodes a decision of at most 24 tokens and, with pruning on, rewinds the session
  when the decision is no action. Model, tokenizer files and environment variables are arguments; a panic is a
  result value.
\<close>

definition MAX_DECISION_TOKENS :: nat where "MAX_DECISION_TOKENS = 24"
definition GEMMA3_ARCH_ID :: u32 where "GEMMA3_ARCH_ID = 3"

definition text_lines :: "string list \<Rightarrow> ustr" where
  "text_lines ls = concat (map (\<lambda>l. lit l @ [10]) ls)"

definition SYSTEM_CONTRACT :: ustr where
  "SYSTEM_CONTRACT = text_lines
     [''You are a background kernel daemon. Each tick you receive one environment event.'',
      ''Most events require no action. Reply with EXACTLY one of:'',
      ''NO_OP'',
      ''<ACTION>short imperative</ACTION>'',
      ''Reply NO_OP unless the event genuinely requires intervention. Do not explain.'']"

definition SYSTEM_CONTRACT_SALIENCE :: ustr where
  "SYSTEM_CONTRACT_SALIENCE = text_lines
     [''You are a background kernel daemon. Each tick you receive one environment event'',
      ''that carries a salience score between 0.0 and 1.0. Reply with EXACTLY one of:'',
      ''NO_OP'',
      ''<ACTION>short imperative</ACTION>'',
      ''RULE: if salience >= 0.5 the event requires intervention, so reply with an'',
      ''<ACTION> line. If salience < 0.5, reply NO_OP. Follow the rule exactly. Do not explain.'']"

datatype model_decision = MNoop | MAction | MMalformed

record alpha_tick =
  at_tick :: u64
  at_expect :: decision
  at_decided :: model_decision
  at_raw :: ustr
  at_latency :: u64
  at_pos :: nat

definition parse_decision :: "ustr \<Rightarrow> model_decision" where
  "parse_decision s =
     (let up = ascii_upper (trim s) in
      if contains up (lit ''<ACTION>'') then MAction
      else if contains up (lit ''NO_OP'') \<or> contains up (lit ''NOOP'') then MNoop
      else MMalformed)"

record alpha_counters =
  a_ticks :: u64
  noop_correct :: u64
  action_correct :: u64
  a_false_actions :: u64
  a_missed_events :: u64
  malformed :: u64

definition alpha_default :: alpha_counters where
  "alpha_default = \<lparr>a_ticks = 0, noop_correct = 0, action_correct = 0, a_false_actions = 0, a_missed_events = 0, malformed = 0\<rparr>"

definition alpha_observe :: "decision \<Rightarrow> model_decision \<Rightarrow> alpha_counters \<Rightarrow> alpha_counters" where
  "alpha_observe ex d c0 =
     (let c = c0\<lparr>a_ticks := a_ticks c0 + 1\<rparr> in
      case (ex, d) of
        (Noop, MNoop) \<Rightarrow> c\<lparr>noop_correct := noop_correct c + 1\<rparr>
      | (Action, MAction) \<Rightarrow> c\<lparr>action_correct := action_correct c + 1\<rparr>
      | (Noop, MAction) \<Rightarrow> c\<lparr>a_false_actions := a_false_actions c + 1\<rparr>
      | (Action, MNoop) \<Rightarrow> c\<lparr>a_missed_events := a_missed_events c + 1\<rparr>
      | (_, MMalformed) \<Rightarrow> c\<lparr>malformed := malformed c + 1\<rparr>)"

subsection \<open>Frames\<close>

definition event_body :: "tape_event \<Rightarrow> ustr" where
  "event_body ev =
     lit ''EVENT kind='' @ kind ev @ lit '' salience='' @ fmt_fixed2 (salience ev) @ lit '' payload='' @ [34] @
     (if payload ev = [] then [45] else payload ev) @ [34]"

definition frame_prompt_raw :: "tape_event \<Rightarrow> ustr" where
  "frame_prompt_raw ev = [10] @ event_body ev @ [10] @ lit ''DECISION: ''"

definition frame_prompt_gemma :: "tape_event \<Rightarrow> ustr" where
  "frame_prompt_gemma ev =
     lit ''<start_of_turn>user'' @ [10] @ event_body ev @ lit ''<end_of_turn>'' @ [10] @
     lit ''<start_of_turn>model'' @ [10]"

definition frame_prompt_chatml :: "bool \<Rightarrow> tape_event \<Rightarrow> ustr" where
  "frame_prompt_chatml nothink ev =
     lit ''<|im_start|>user'' @ [10] @ event_body ev @ lit ''<|im_end|>'' @ [10] @
     lit ''<|im_start|>assistant'' @ [10] @
     (if nothink then lit ''<think>'' @ [10, 10] @ lit ''</think>'' @ [10, 10] else [])"

record alpha_cfg =
  chatml :: bool
  prune :: bool
  nothink :: bool
  policy_salience :: bool

definition system_text :: "alpha_cfg \<Rightarrow> bool \<Rightarrow> ustr" where
  "system_text cfg use_gemma =
     (let contract = (if policy_salience cfg then SYSTEM_CONTRACT_SALIENCE else SYSTEM_CONTRACT) in
      if chatml cfg \<and> use_gemma then
        lit ''<start_of_turn>user'' @ [10] @ trim contract @ lit ''<end_of_turn>'' @ [10] @
        lit ''<start_of_turn>model'' @ [10] @ lit ''Understood.<end_of_turn>'' @ [10]
      else if chatml cfg then lit ''<|im_start|>system'' @ [10] @ trim contract @ lit ''<|im_end|>'' @ [10]
      else contract)"

definition frame_of :: "alpha_cfg \<Rightarrow> bool \<Rightarrow> tape_event \<Rightarrow> ustr" where
  "frame_of cfg use_gemma ev =
     (if chatml cfg \<and> use_gemma then frame_prompt_gemma ev
      else if chatml cfg then frame_prompt_chatml (nothink cfg) ev
      else frame_prompt_raw ev)"

subsection \<open>The decision of a tick\<close>

datatype 'e alpha_error = TokError "'e tok_error" | SessError session_error | SlicePanic

definition decision_complete :: "bytes \<Rightarrow> bool" where
  "decision_complete b =
     (let up = ascii_upper (from_utf8_lossy b)
      in contains up (lit ''</ACTION>'') \<or> contains up (lit ''NO_OP'') \<or> contains up (lit ''NOOP''))"

fun decision_loop ::
  "'s l1_api \<Rightarrow> 'e sptb_tokenizer \<Rightarrow> nat \<Rightarrow> 's \<Rightarrow> f32 list \<Rightarrow> bytes \<Rightarrow> i32 \<Rightarrow>
   (session_error + bytes) \<times> 's \<times> f32 list" where
  "decision_loop api tok 0 s logits b next_tok = (Inr b, s, logits)"
| "decision_loop api tok (Suc n) s logits b next_tok =
     (if eos_ids tok \<noteq> [] \<and> next_tok \<in> set (eos_ids tok) then (Inr b, s, logits)
      else let b' = b @ decode_token tok next_tok in
           if decision_complete b' then (Inr b', s, logits)
           else (case decode_step api s next_tok logits of
                   (Inl e, s', logits') \<Rightarrow> (Inl e, s', logits')
                 | (Inr _, s', logits') \<Rightarrow> decision_loop api tok n s' logits' b' (dialogue_argmax logits')))"

definition decode_decision ::
  "'s l1_api \<Rightarrow> 'e sptb_tokenizer \<Rightarrow> 's \<Rightarrow> f32 list \<Rightarrow> i32 list \<Rightarrow> (session_error + ustr) \<times> 's \<times> f32 list" where
  "decode_decision api tok s logits frame_tokens =
     (if frame_tokens = [] then (Inr [], s, logits)
      else case prefill_chunk api s frame_tokens logits of
        (Inl e, s', logits') \<Rightarrow> (Inl e, s', logits')
      | (Inr _, s', logits') \<Rightarrow>
          (case decision_loop api tok MAX_DECISION_TOKENS s' logits' [] (dialogue_argmax logits') of
             (Inl e, s'', l) \<Rightarrow> (Inl e, s'', l)
           | (Inr b, s'', l) \<Rightarrow> (Inr (trim (from_utf8_lossy b)), s'', l)))"

text \<open>The trace line prints the first 48 bytes of a longer answer; the slice panics inside a character.\<close>

definition char_boundary :: "ustr \<Rightarrow> nat \<Rightarrow> bool" where
  "char_boundary s n = list_ex (\<lambda>k. length (utf8 (take k s)) = n) [0..<length s + 1]"

definition display_ok :: "ustr \<Rightarrow> bool" where
  "display_ok raw \<longleftrightarrow> (48 < length (utf8 raw) \<longrightarrow> char_boundary raw 48)"

definition position_or :: "'s l1_api \<Rightarrow> 's \<Rightarrow> nat \<Rightarrow> nat" where
  "position_or api s d = (case position api s of Inr p \<Rightarrow> p | Inl _ \<Rightarrow> d)"

definition alpha_tick_step ::
  "'s l1_api \<Rightarrow> 'e sptb_tokenizer \<Rightarrow> alpha_cfg \<Rightarrow> bool \<Rightarrow> u64 \<Rightarrow> tape_event \<Rightarrow> 's \<Rightarrow> f32 list \<Rightarrow>
   ('e alpha_error + alpha_tick) \<times> 's \<times> f32 list" where
  "alpha_tick_step api tok cfg use_gemma elapsed ev s logits =
     (let pre_pos = position_or api s 0 in
      case encode tok (frame_of cfg use_gemma ev) of
        Inl e \<Rightarrow> (Inl (TokError e), s, logits)
      | Inr frame_tokens \<Rightarrow>
          (case decode_decision api tok s logits frame_tokens of
             (Inl e, s1, l1) \<Rightarrow> (Inl (SessError e), s1, l1)
           | (Inr raw, s1, l1) \<Rightarrow>
               let decided = parse_decision raw;
                   cur = position_or api s1 pre_pos;
                   (r, s2) = (if prune cfg \<and> decided = MNoop \<and> pre_pos < cur then rewind api s1 (cur - pre_pos)
                              else (Inr (), s1))
               in (case r of
                     Inl e \<Rightarrow> (Inl (SessError e), s2, l1)
                   | Inr _ \<Rightarrow>
                       if display_ok raw
                       then (Inr \<lparr>at_tick = tick_idx ev, at_expect = expect ev, at_decided = decided, at_raw = raw,
                               at_latency = elapsed, at_pos = position_or api s2 0\<rparr>, s2, l1)
                       else (Inl SlicePanic, s2, l1))))"

fun alpha_loop ::
  "'s l1_api \<Rightarrow> 'e sptb_tokenizer \<Rightarrow> alpha_cfg \<Rightarrow> bool \<Rightarrow> (nat \<Rightarrow> u64) \<Rightarrow> tape_event list \<Rightarrow> 's \<Rightarrow> f32 list \<Rightarrow>
   alpha_counters \<Rightarrow> alpha_tick list \<Rightarrow> ('e alpha_error + alpha_tick list \<times> alpha_counters) \<times> 's" where
  "alpha_loop api tok cfg g clock [] s logits counters recs = (Inr (recs, counters), s)"
| "alpha_loop api tok cfg g clock (ev # evs) s logits counters recs =
     (case alpha_tick_step api tok cfg g (clock (length recs)) ev s logits of
        (Inl e, s', _) \<Rightarrow> (Inl e, s')
      | (Inr r, s', logits') \<Rightarrow>
          alpha_loop api tok cfg g clock evs s' logits' (alpha_observe (expect ev) (at_decided r) counters) (recs @ [r]))"

text \<open>\<open>s\<close> is the fresh session of the loaded model.\<close>

definition run_kairos_alpha ::
  "'s l1_api \<Rightarrow> 'e sptb_tokenizer \<Rightarrow> alpha_cfg \<Rightarrow> (nat \<Rightarrow> u64) \<Rightarrow> nat \<Rightarrow> tape_event list \<Rightarrow> 's \<Rightarrow>
   ('e alpha_error + alpha_tick list \<times> alpha_counters) \<times> 's" where
  "run_kairos_alpha api tok cfg clock vocab_size tape s =
     (let use_gemma = arch_id tok = GEMMA3_ARCH_ID; logits = replicate vocab_size 0 in
      case encode tok (system_text cfg use_gemma) of
        Inl e \<Rightarrow> (Inl (TokError e), s)
      | Inr sys_tokens \<Rightarrow>
          (case (if sys_tokens = [] then (Inr (), s, logits) else prefill_chunk api s sys_tokens logits) of
             (Inl e, s', _) \<Rightarrow> (Inl (SessError e), s')
           | (Inr _, s', l) \<Rightarrow> alpha_loop api tok cfg use_gemma clock tape s' l alpha_default []))"

subsection \<open>The run as a function of the model\<close>

text \<open>\<open>f\<close> gives the logits after a history, \<open>enc\<close> the ids of a text.\<close>

fun ref_decision :: "'e sptb_tokenizer \<Rightarrow> (i32 list \<Rightarrow> f32 list) \<Rightarrow> nat \<Rightarrow> i32 list \<Rightarrow> bytes \<Rightarrow> bytes \<times> i32 list" where
  "ref_decision tok f 0 h b = (b, h)"
| "ref_decision tok f (Suc n) h b =
     (let next_tok = dialogue_argmax (f h); b' = b @ decode_token tok next_tok in
      if next_tok \<in> set (eos_ids tok) then (b, h)
      else if decision_complete b' then (b', h)
      else ref_decision tok f n (h @ [next_tok]) b')"

definition ref_tick ::
  "'e sptb_tokenizer \<Rightarrow> (ustr \<Rightarrow> i32 list) \<Rightarrow> alpha_cfg \<Rightarrow> bool \<Rightarrow> (i32 list \<Rightarrow> f32 list) \<Rightarrow> i32 list \<Rightarrow> tape_event \<Rightarrow>
   ustr \<times> i32 list" where
  "ref_tick tok enc cfg g f h ev =
     (let toks = enc (frame_of cfg g ev) in
      if toks = [] then ([], h)
      else let (b, h2) = ref_decision tok f MAX_DECISION_TOKENS (h @ toks) []; raw = trim (from_utf8_lossy b)
           in (raw, if prune cfg \<and> parse_decision raw = MNoop then h else h2))"

fun ref_run ::
  "'e sptb_tokenizer \<Rightarrow> (ustr \<Rightarrow> i32 list) \<Rightarrow> alpha_cfg \<Rightarrow> bool \<Rightarrow> (i32 list \<Rightarrow> f32 list) \<Rightarrow> (nat \<Rightarrow> u64) \<Rightarrow> nat \<Rightarrow>
   i32 list \<Rightarrow> tape_event list \<Rightarrow> alpha_tick list \<times> i32 list" where
  "ref_run tok enc cfg g f clock i h [] = ([], h)"
| "ref_run tok enc cfg g f clock i h (ev # evs) =
     (case ref_tick tok enc cfg g f h ev of
        (raw, h') \<Rightarrow>
          (case ref_run tok enc cfg g f clock (Suc i) h' evs of
             (recs, h'') \<Rightarrow>
               (\<lparr>at_tick = tick_idx ev, at_expect = expect ev, at_decided = parse_decision raw, at_raw = raw,
                 at_latency = clock i, at_pos = length h'\<rparr> # recs, h'')))"

definition alpha_count :: "alpha_tick list \<Rightarrow> alpha_counters" where
  "alpha_count recs = fold (\<lambda>r. alpha_observe (at_expect r) (at_decided r)) recs alpha_default"

lemma ref_decision_extends:
  "ref_decision tok f n h b = (b', h') \<Longrightarrow> \<exists>x. h' = h @ x \<and> length x \<le> n"
proof (induction n arbitrary: h b)
  case (Suc n)
  let ?t = "dialogue_argmax (f h)"
  show ?case
  proof (cases "?t \<in> set (eos_ids tok) \<or> decision_complete (b @ decode_token tok ?t)")
    case True
    then show ?thesis using Suc.prems by (auto simp: Let_def split: if_splits)
  next
    case False
    then have "ref_decision tok f n (h @ [?t]) (b @ decode_token tok ?t) = (b', h')"
      using Suc.prems by (simp add: Let_def)
    then show ?thesis using Suc.IH by fastforce
  qed
qed simp

lemma decision_loop_ref:
  assumes "l1_contract api hist fwd ctx"
  shows "length (hist s) + n \<le> ctx \<Longrightarrow> logits = fwd s (hist s) \<Longrightarrow> fwd s = f \<Longrightarrow>
    \<exists>s' l'. decision_loop api tok n s logits b (dialogue_argmax logits) =
        (Inr (fst (ref_decision tok f n (hist s) b)), s', l') \<and>
      hist s' = snd (ref_decision tok f n (hist s) b) \<and> fwd s' = f"
proof (induction n arbitrary: s logits b)
  case 0
  then show ?case by simp
next
  case (Suc n)
  let ?t = "dialogue_argmax (f (hist s))"
  have eos: "eos_ids tok \<noteq> [] \<and> ?t \<in> set (eos_ids tok) \<longleftrightarrow> ?t \<in> set (eos_ids tok)" by auto
  show ?case
  proof (cases "?t \<in> set (eos_ids tok) \<or> decision_complete (b @ decode_token tok ?t)")
    case True
    then show ?thesis using Suc.prems eos by (auto simp: Let_def)
  next
    case False
    obtain s' where d: "decode_step api s ?t logits = (Inr (), s', f (hist s @ [?t]))"
      "hist s' = hist s @ [?t]" "fwd s' = f"
      using decode_step_contract [OF assms, of s ?t logits] Suc.prems by auto
    have "\<exists>s'' l'. decision_loop api tok n s' (f (hist s @ [?t])) (b @ decode_token tok ?t)
          (dialogue_argmax (f (hist s @ [?t]))) =
        (Inr (fst (ref_decision tok f n (hist s') (b @ decode_token tok ?t))), s'', l') \<and>
      hist s'' = snd (ref_decision tok f n (hist s') (b @ decode_token tok ?t)) \<and> fwd s'' = f"
      by (rule Suc.IH) (use Suc.prems d in simp_all)
    then show ?thesis using False d eos Suc.prems by (simp add: Let_def)
  qed
qed

text \<open>What the position call documents: the number of tokens in the cache.\<close>

definition position_contract :: "'s l1_api \<Rightarrow> ('s \<Rightarrow> i32 list) \<Rightarrow> bool" where
  "position_contract api hist \<longleftrightarrow> (\<forall>s. l1_position api s = (SP_OK, length (hist s)))"

lemma position_or_contract: "position_contract api hist \<Longrightarrow> position_or api s d = length (hist s)"
  by (simp add: position_contract_def position_or_def position_def)

lemma decode_decision_ref:
  fixes tok :: "'e sptb_tokenizer"
  assumes "l1_contract api hist fwd ctx" and "length (hist s) + length toks + MAX_DECISION_TOKENS \<le> ctx" and "toks \<noteq> []"
  defines "r \<equiv> ref_decision tok (fwd s) MAX_DECISION_TOKENS (hist s @ toks) []"
  shows "\<exists>s' l'. decode_decision api tok s logits toks = (Inr (trim (from_utf8_lossy (fst r))), s', l') \<and>
      hist s' = snd r \<and> fwd s' = fwd s"
proof -
  obtain s1 where p: "prefill_chunk api s toks logits = (Inr (), s1, fwd s (hist s @ toks))"
    "hist s1 = hist s @ toks" "fwd s1 = fwd s"
    using prefill_chunk_contract [OF assms(1,3)] assms(2) by (metis add_leD1)
  have "\<exists>s' l'. decision_loop api tok MAX_DECISION_TOKENS s1 (fwd s (hist s @ toks)) []
        (dialogue_argmax (fwd s (hist s @ toks))) =
      (Inr (fst (ref_decision tok (fwd s) MAX_DECISION_TOKENS (hist s1) [])), s', l') \<and>
    hist s' = snd (ref_decision tok (fwd s) MAX_DECISION_TOKENS (hist s1) []) \<and> fwd s' = fwd s"
    by (rule decision_loop_ref [OF assms(1)]) (use assms(2) p in simp_all)
  then show ?thesis using p assms(3) by (auto simp: decode_decision_def r_def)
qed

lemma alpha_tick_step_ref:
  assumes "l1_contract api hist fwd ctx" and "position_contract api hist" and "\<And>x. encode tok x = Inr (enc x)"
    and "length (hist s) + length (enc (frame_of cfg g ev)) + MAX_DECISION_TOKENS \<le> ctx"
    and "ref_tick tok enc cfg g (fwd s) (hist s) ev = (raw, h')" and "display_ok raw"
  shows "\<exists>s' l'. alpha_tick_step api tok cfg g elapsed ev s logits =
      (Inr \<lparr>at_tick = tick_idx ev, at_expect = expect ev, at_decided = parse_decision raw, at_raw = raw,
            at_latency = elapsed, at_pos = length h'\<rparr>, s', l') \<and> hist s' = h' \<and> fwd s' = fwd s"
proof -
  let ?toks = "enc (frame_of cfg g ev)"
  note pos = position_or_contract [OF assms(2)]
  show ?thesis
  proof (cases "?toks = []")
    case True
    then show ?thesis
      using assms(3,5,6) by (auto simp: alpha_tick_step_def ref_tick_def decode_decision_def pos Let_def)
  next
    case False
    obtain b h2 where r: "ref_decision tok (fwd s) MAX_DECISION_TOKENS (hist s @ ?toks) [] = (b, h2)" by fastforce
    then obtain x where h2: "h2 = hist s @ ?toks @ x" using ref_decision_extends by fastforce
    obtain s1 l1 where d: "decode_decision api tok s logits ?toks = (Inr (trim (from_utf8_lossy b)), s1, l1)"
      "hist s1 = h2" "fwd s1 = fwd s"
      using decode_decision_ref [OF assms(1,4) False, of tok logits] r by auto
    have raw: "raw = trim (from_utf8_lossy b)"
      "h' = (if prune cfg \<and> parse_decision raw = MNoop then hist s else h2)"
      using assms(5) False r by (auto simp: ref_tick_def Let_def)
    obtain s2 where w: "rewind api s1 (length h2 - length (hist s)) = (Inr (), s2)" "hist s2 = hist s" "fwd s2 = fwd s"
      using rewind_contract [OF assms(1), of "length h2 - length (hist s)" s1] d(2,3) h2 by auto
    have "length (hist s) < length h2" using h2 False by simp
    then show ?thesis
      using assms(3,6) d w raw by (cases "prune cfg \<and> parse_decision raw = MNoop") (auto simp: alpha_tick_step_def pos Let_def)
  qed
qed

lemma ref_tick_pruned:
  assumes "prune cfg" and "parse_decision (fst (ref_tick tok enc cfg g f h ev)) = MNoop"
  shows "ref_tick tok enc cfg g f h ev = (fst (ref_tick tok enc cfg g f h ev), h)"
  using assms by (auto simp: ref_tick_def Let_def split: prod.splits)

lemma alpha_count_ticks:
  "a_ticks (alpha_count recs) = of_nat (length recs) \<and>
   a_ticks (alpha_count recs) = noop_correct (alpha_count recs) + action_correct (alpha_count recs) +
     a_false_actions (alpha_count recs) + a_missed_events (alpha_count recs) + malformed (alpha_count recs)"
proof (induction recs rule: rev_induct)
  case (snoc r recs)
  have "alpha_count (recs @ [r]) = alpha_observe (at_expect r) (at_decided r) (alpha_count recs)"
    by (simp add: alpha_count_def)
  then show ?case
    using snoc by (cases "at_expect r"; cases "at_decided r") (simp_all add: alpha_observe_def)
qed (simp add: alpha_count_def alpha_default_def)

text \<open>The display slice can fall inside a character.\<close>

lemma display_slice_panics: "\<not> display_ok (replicate 47 97 @ [0x514B])"
proof -
  have len: "length (utf8 (replicate n 97)) = n" for n by (induction n) (simp_all add: utf8_def utf8_char_def)
  have "length (utf8 [0x514B]) = 3" by (simp add: utf8_def utf8_char_def)
  then have "length (utf8 (replicate 47 97 @ [0x514B])) = 50" using len [of 47] by (simp only: utf8_append length_append)
  moreover have "length (utf8 (take k (replicate 47 97 @ [0x514B]))) \<noteq> 48" for k
  proof (cases "k \<le> 47")
    case True
    then show ?thesis using len [of k] by (simp add: min_def)
  next
    case False
    then show ?thesis using \<open>length (utf8 (replicate 47 97 @ [0x514B])) = 50\<close> by simp
  qed
  ultimately show ?thesis by (simp add: display_ok_def char_boundary_def list_ex_iff)
qed

text \<open>An upper bound on the tokens a tape can add to the session.\<close>

definition tape_tokens :: "(ustr \<Rightarrow> i32 list) \<Rightarrow> alpha_cfg \<Rightarrow> bool \<Rightarrow> tape_event list \<Rightarrow> nat" where
  "tape_tokens enc cfg g evs = sum_list (map (\<lambda>ev. length (enc (frame_of cfg g ev)) + MAX_DECISION_TOKENS) evs)"

lemma ref_tick_length:
  assumes "ref_tick tok enc cfg g f h ev = (raw, h')"
  shows "length h' \<le> length h + length (enc (frame_of cfg g ev)) + MAX_DECISION_TOKENS"
  using assms ref_decision_extends [of tok f MAX_DECISION_TOKENS "h @ enc (frame_of cfg g ev)" "[]"]
  by (fastforce simp: ref_tick_def Let_def split: if_splits prod.splits)

lemma alpha_loop_ref:
  assumes "l1_contract api hist fwd ctx" and "position_contract api hist" and "\<And>x. encode tok x = Inr (enc x)"
  shows "length (hist s) + tape_tokens enc cfg g evs \<le> ctx \<Longrightarrow>
    ref_run tok enc cfg g (fwd s) clock (length recs0) (hist s) evs = (recs, h') \<Longrightarrow>
    list_all (\<lambda>r. display_ok (at_raw r)) recs \<Longrightarrow>
    \<exists>s'. alpha_loop api tok cfg g clock evs s logits counters recs0 =
        (Inr (recs0 @ recs, fold (\<lambda>r. alpha_observe (at_expect r) (at_decided r)) recs counters), s') \<and>
      hist s' = h' \<and> fwd s' = fwd s"
proof (induction evs arbitrary: s logits counters recs0 recs)
  case Nil
  then show ?case by simp
next
  case (Cons ev evs)
  obtain raw h1 where rt: "ref_tick tok enc cfg g (fwd s) (hist s) ev = (raw, h1)" by fastforce
  obtain recs1 where rr: "ref_run tok enc cfg g (fwd s) clock (Suc (length recs0)) h1 evs = (recs1, h')"
    and recs: "recs = \<lparr>at_tick = tick_idx ev, at_expect = expect ev, at_decided = parse_decision raw, at_raw = raw,
      at_latency = clock (length recs0), at_pos = length h1\<rparr> # recs1"
    using Cons.prems(2) rt by (auto split: prod.splits)
  have room: "length (hist s) + length (enc (frame_of cfg g ev)) + MAX_DECISION_TOKENS + tape_tokens enc cfg g evs \<le> ctx"
    using Cons.prems(1) by (simp add: tape_tokens_def)
  obtain s1 l1 where st: "alpha_tick_step api tok cfg g (clock (length recs0)) ev s logits = (Inr (hd recs), s1, l1)"
    "hist s1 = h1" "fwd s1 = fwd s"
    using alpha_tick_step_ref [OF assms _ rt, of "clock (length recs0)" logits] room Cons.prems(3) recs by auto
  have "\<exists>s'. alpha_loop api tok cfg g clock evs s1 l1 (alpha_observe (expect ev) (at_decided (hd recs)) counters) (recs0 @ [hd recs]) =
      (Inr ((recs0 @ [hd recs]) @ recs1, fold (\<lambda>r. alpha_observe (at_expect r) (at_decided r)) recs1
         (alpha_observe (expect ev) (at_decided (hd recs)) counters)), s') \<and> hist s' = h' \<and> fwd s' = fwd s1"
    by (rule Cons.IH) (use room ref_tick_length [OF rt] rr st Cons.prems(3) recs in simp_all)
  then show ?case using st recs by simp
qed

text \<open>
  C31. With a session that keeps its contract and room for the tape, the run is a function of the model: the
  receipts, the counters and the tokens left in the session are those of the reference run that decodes
  each tick greedily from the history, for as long as no answer is cut inside a character for display.
  Every tick is counted, once and in exactly one of the five classes.
\<close>

theorem run_kairos_alpha_exact:
  assumes "l1_contract api hist fwd ctx" and "position_contract api hist" and "\<And>x. encode tok x = Inr (enc x)"
    and "sys = enc (system_text cfg (arch_id tok = GEMMA3_ARCH_ID))" and "sys \<noteq> []"
    and "length (hist s) + length sys + tape_tokens enc cfg (arch_id tok = GEMMA3_ARCH_ID) tape \<le> ctx"
    and "ref_run tok enc cfg (arch_id tok = GEMMA3_ARCH_ID) (fwd s) clock 0 (hist s @ sys) tape = (recs, h')"
    and "list_all (\<lambda>r. display_ok (at_raw r)) recs"
  shows "\<exists>s'. run_kairos_alpha api tok cfg clock vocab_size tape s = (Inr (recs, alpha_count recs), s') \<and> hist s' = h' \<and>
    a_ticks (alpha_count recs) = of_nat (length recs) \<and>
    a_ticks (alpha_count recs) = noop_correct (alpha_count recs) + action_correct (alpha_count recs) +
      a_false_actions (alpha_count recs) + a_missed_events (alpha_count recs) + malformed (alpha_count recs)"
proof -
  obtain s1 where p: "prefill_chunk api s sys (replicate vocab_size 0) = (Inr (), s1, fwd s (hist s @ sys))"
    "hist s1 = hist s @ sys" "fwd s1 = fwd s"
    using prefill_chunk_contract [OF assms(1,5)] assms(6) by (metis add_leD1)
  have "\<exists>s'. alpha_loop api tok cfg (arch_id tok = GEMMA3_ARCH_ID) clock tape s1 (fwd s (hist s @ sys)) alpha_default [] =
      (Inr ([] @ recs, fold (\<lambda>r. alpha_observe (at_expect r) (at_decided r)) recs alpha_default), s') \<and>
      hist s' = h' \<and> fwd s' = fwd s1"
    by (rule alpha_loop_ref [OF assms(1-3)]) (use assms(6-8) p in simp_all)
  then show ?thesis
    using p assms(3,4,5) alpha_count_ticks [of recs] by (auto simp: run_kairos_alpha_def Let_def alpha_count_def)
qed

text \<open>
  C33. With pruning on, a tick that is decided as no action leaves no trace: on a tape of events that the model,
  asked right after the contract, wants no action for, every tick is decided in that same state, the session
  ends with exactly the contract in its cache, and every receipt reports that position. The context has to
  hold the contract and one tick, however long the tape is.
\<close>

theorem idle_prune_flat:
  assumes "l1_contract api hist fwd ctx" and "position_contract api hist" and "\<And>x. encode tok x = Inr (enc x)"
    and "prune cfg" and "sys = enc (system_text cfg (arch_id tok = GEMMA3_ARCH_ID))" and "sys \<noteq> []"
    and "h = hist s @ sys" and "ask = (\<lambda>ev. fst (ref_tick tok enc cfg (arch_id tok = GEMMA3_ARCH_ID) (fwd s) h ev))"
    and "length h \<le> ctx"
    and "\<And>ev. ev \<in> set tape \<Longrightarrow> parse_decision (ask ev) = MNoop \<and> display_ok (ask ev) \<and>
      length h + length (enc (frame_of cfg (arch_id tok = GEMMA3_ARCH_ID) ev)) + MAX_DECISION_TOKENS \<le> ctx"
  shows "\<exists>recs s'. run_kairos_alpha api tok cfg clock vocab_size tape s = (Inr (recs, alpha_count recs), s') \<and>
    hist s' = h \<and> map at_raw recs = map ask tape \<and> list_all (\<lambda>r. at_pos r = length h \<and> at_decided r = MNoop) recs"
proof -
  let ?g = "arch_id tok = GEMMA3_ARCH_ID"
  have loop: "\<exists>recs s'. alpha_loop api tok cfg ?g clock evs s1 l counters rsa =
        (Inr (rsa @ recs, fold (\<lambda>r. alpha_observe (at_expect r) (at_decided r)) recs counters), s') \<and>
      hist s' = h \<and> map at_raw recs = map ask evs \<and> list_all (\<lambda>r. at_pos r = length h \<and> at_decided r = MNoop) recs"
    if "set evs \<subseteq> set tape" "hist s1 = h" "fwd s1 = fwd s" for evs s1 l counters rsa
    using that
  proof (induction evs arbitrary: s1 l counters rsa)
    case Nil
    then show ?case by simp
  next
    case (Cons ev evs)
    have ev: "parse_decision (ask ev) = MNoop" "display_ok (ask ev)"
      "length (hist s1) + length (enc (frame_of cfg ?g ev)) + MAX_DECISION_TOKENS \<le> ctx"
      using assms(10) [of ev] Cons.prems by auto
    have sub: "set evs \<subseteq> set tape" using Cons.prems(1) by simp
    have rt: "ref_tick tok enc cfg ?g (fwd s1) (hist s1) ev = (ask ev, h)"
      using ref_tick_pruned [OF assms(4), of tok enc ?g "fwd s" h ev] ev(1) Cons.prems(2,3) by (simp add: assms(8))
    obtain s2 l2 where st: "alpha_tick_step api tok cfg ?g (clock (length rsa)) ev s1 l =
        (Inr \<lparr>at_tick = tick_idx ev, at_expect = expect ev, at_decided = MNoop, at_raw = ask ev,
           at_latency = clock (length rsa), at_pos = length h\<rparr>, s2, l2)" "hist s2 = h" "fwd s2 = fwd s"
      using alpha_tick_step_ref [OF assms(1-3) ev(3) rt ev(2), of "clock (length rsa)" l] ev(1) Cons.prems(3) by auto
    let ?r = "\<lparr>at_tick = tick_idx ev, at_expect = expect ev, at_decided = MNoop, at_raw = ask ev,
           at_latency = clock (length rsa), at_pos = length h\<rparr>"
    obtain recs s' where ih: "alpha_loop api tok cfg ?g clock evs s2 l2 (alpha_observe (expect ev) MNoop counters) (rsa @ [?r]) =
        (Inr ((rsa @ [?r]) @ recs, fold (\<lambda>r. alpha_observe (at_expect r) (at_decided r)) recs
           (alpha_observe (expect ev) MNoop counters)), s')" "hist s' = h" "map at_raw recs = map ask evs"
      "list_all (\<lambda>r. at_pos r = length h \<and> at_decided r = MNoop) recs"
      using Cons.IH [OF sub st(2,3), where l = l2 and counters = "alpha_observe (expect ev) MNoop counters" and rsa = "rsa @ [?r]"] by blast
    show ?case
      by (intro exI [of _ "?r # recs"] exI [of _ s']) (use st ih in simp)
  qed
  obtain s1 where p: "prefill_chunk api s sys (replicate vocab_size 0) = (Inr (), s1, fwd s h)" "hist s1 = h" "fwd s1 = fwd s"
    using prefill_chunk_contract [OF assms(1,6), of s "replicate vocab_size 0"] assms(7,9) by auto
  obtain recs s' where l: "alpha_loop api tok cfg ?g clock tape s1 (fwd s h) alpha_default [] =
        (Inr ([] @ recs, alpha_count recs), s') \<and> hist s' = h \<and> map at_raw recs = map ask tape \<and>
      list_all (\<lambda>r. at_pos r = length h \<and> at_decided r = MNoop) recs"
    using loop [of tape s1, OF subset_refl p(2,3), of "fwd s h" alpha_default "[]"] unfolding alpha_count_def by blast
  have "run_kairos_alpha api tok cfg clock vocab_size tape s = (Inr (recs, alpha_count recs), s')"
    using l p(1) assms(3,5,6) by (simp add: run_kairos_alpha_def Let_def)
  then show ?thesis using l by blast
qed


text \<open>A model that answers \<open>NO_OP\<close> to everything.\<close>

definition idle_tok :: "ustr sptb_tokenizer" where
  "idle_tok = \<lparr>inner = Some (\<lambda>_. Inr [0]), c_tokenizer = None, id_to_bytes = [blit ''NO_OP''], eos_ids = [], arch_id = 0,
     tok_type_id = 0, bos_id = None, config_suppress = []\<rparr>"

definition idle_cfg :: alpha_cfg where
  "idle_cfg = \<lparr>chatml = True, prune = True, nothink = False, policy_salience = False\<rparr>"

definition idle_event :: tape_event where
  "idle_event = \<lparr>tick_idx = 0, kind = lit ''idle'', payload = [], salience = 0, expect = Noop\<rparr>"

lemma idle_encode: "encode idle_tok x = Inr [0]"
  by (simp add: idle_tok_def encode_def)

lemma idle_tick: "ref_tick idle_tok (\<lambda>_. [0]) idle_cfg False (\<lambda>_. [0]) h ev = (lit ''NO_OP'', h)"
proof -
  have b: "decode_token idle_tok 0 = blit ''NO_OP''" by (simp add: idle_tok_def decode_token_def as_usize_def)
  have c: "decision_complete (blit ''NO_OP'')" by code_simp
  have a: "dialogue_argmax [0] = 0" by code_simp
  have m: "MAX_DECISION_TOKENS = Suc 23" by (simp add: MAX_DECISION_TOKENS_def)
  have idle_eos: "eos_ids idle_tok = []" by (simp add: idle_tok_def)
  have r: "ref_decision idle_tok (\<lambda>_. [0]) MAX_DECISION_TOKENS h' [] = (blit ''NO_OP'', h')" for h'
    unfolding m ref_decision.simps Let_def a b idle_eos using c by simp
  have t: "trim (from_utf8_lossy (blit ''NO_OP'')) = lit ''NO_OP''" "parse_decision (lit ''NO_OP'') = MNoop" by code_simp+
  show ?thesis by (simp add: ref_tick_def Let_def r t idle_cfg_def)
qed

lemma ref_position_contract: "position_contract ref_api snd"
  by (simp add: position_contract_def ref_api_def)

lemma idle_display: "display_ok (lit ''NO_OP'')"
  by code_simp

lemma idle_tok_gemma: "(arch_id idle_tok = GEMMA3_ARCH_ID) = False"
  by (simp add: idle_tok_def GEMMA3_ARCH_ID_def)

theorem run_kairos_alpha_exact_witness:
  "\<exists>recs s'. run_kairos_alpha ref_api idle_tok idle_cfg (\<lambda>_. 5) 1 [idle_event, idle_event] (\<lambda>_. [0], []) =
      (Inr (recs, alpha_count recs), s') \<and> snd s' = [0] \<and> map at_raw recs = [lit ''NO_OP'', lit ''NO_OP''] \<and>
      map at_pos recs = [1, 1] \<and> noop_correct (alpha_count recs) = 2"
proof -
  let ?r = "\<lparr>at_tick = 0, at_expect = Noop, at_decided = MNoop, at_raw = lit ''NO_OP'', at_latency = 5, at_pos = 1\<rparr>"
  have d: "parse_decision (lit ''NO_OP'') = MNoop" by code_simp
  have run: "ref_run idle_tok (\<lambda>_. [0]) idle_cfg (arch_id idle_tok = GEMMA3_ARCH_ID) (fst (\<lambda>_. [0 :: f32], [] :: i32 list)) (\<lambda>_. 5) 0
      (snd (\<lambda>_ :: i32 list. [0 :: f32], []) @ [0]) [idle_event, idle_event] = ([?r, ?r], [0])"
    by (simp add: idle_tok_gemma idle_tick d) (simp add: idle_event_def)
  have ok: "list_all (\<lambda>r. display_ok (at_raw r)) [?r, ?r]" using idle_display by simp
  have room: "length (snd (\<lambda>_ :: i32 list. [0 :: f32], [] :: i32 list)) + length [0 :: i32] +
      tape_tokens (\<lambda>_. [0]) idle_cfg (arch_id idle_tok = GEMMA3_ARCH_ID) [idle_event, idle_event] \<le> 51"
    by (simp add: tape_tokens_def MAX_DECISION_TOKENS_def)
  obtain s' where "run_kairos_alpha ref_api idle_tok idle_cfg (\<lambda>_. 5) 1 [idle_event, idle_event] (\<lambda>_. [0], []) =
      (Inr ([?r, ?r], alpha_count [?r, ?r]), s') \<and> snd s' = [0]"
    using run_kairos_alpha_exact [OF ref_api_contract ref_position_contract idle_encode refl _ room run ok, of 1] by blast
  moreover have "noop_correct (alpha_count [?r, ?r]) = 2"
    by (simp add: alpha_count_def alpha_observe_def alpha_default_def)
  ultimately show ?thesis by (intro exI [of _ "[?r, ?r]"] exI [of _ s']) simp
qed

theorem idle_prune_flat_witness:
  "\<exists>recs s'. run_kairos_alpha ref_api idle_tok idle_cfg (\<lambda>_. 5) 1 (replicate 1000 idle_event) (\<lambda>_. [0], []) =
      (Inr (recs, alpha_count recs), s') \<and> snd s' = [0] \<and> length recs = 1000"
proof -
  have d: "parse_decision (lit ''NO_OP'') = MNoop" by code_simp
  have ev: "parse_decision (lit ''NO_OP'') = MNoop \<and> display_ok (lit ''NO_OP'') \<and> length [0 :: i32] + length [0 :: i32] + MAX_DECISION_TOKENS \<le> 26"
    using d idle_display by (simp add: MAX_DECISION_TOKENS_def)
  have pr: "prune idle_cfg" by (simp add: idle_cfg_def)
  have ask: "(\<lambda>ev. lit ''NO_OP'') = (\<lambda>ev. fst (ref_tick idle_tok (\<lambda>_. [0]) idle_cfg (arch_id idle_tok = GEMMA3_ARCH_ID)
      (fst (\<lambda>_ :: i32 list. [0 :: f32], [] :: i32 list)) [0] ev))"
    by (simp add: idle_tok_gemma idle_tick)
  have "\<exists>recs s'. run_kairos_alpha ref_api idle_tok idle_cfg (\<lambda>_. 5) 1 (replicate n idle_event) (\<lambda>_. [0], []) =
        (Inr (recs, alpha_count recs), s') \<and> snd s' = [0] \<and>
      map at_raw recs = map (\<lambda>ev. lit ''NO_OP'') (replicate n idle_event) \<and>
      list_all (\<lambda>r. at_pos r = length [0 :: i32] \<and> at_decided r = MNoop) recs" for n
  proof -
    let ?s = "(\<lambda>_ :: i32 list. [0 :: f32], [] :: i32 list)"
    have h: "[0] = snd ?s @ [0]" and ne: "[0 :: i32] \<noteq> []" and le: "length [0 :: i32] \<le> 26" by simp_all
    show ?thesis
      using idle_prune_flat [where enc = "\<lambda>_. [0]" and s = ?s and tape = "replicate n idle_event",
          OF ref_api_contract ref_position_contract idle_encode pr refl ne h ask le ev] by blast
  qed
  from this [of 1000] obtain recs s' where "run_kairos_alpha ref_api idle_tok idle_cfg (\<lambda>_. 5) 1 (replicate 1000 idle_event)
      (\<lambda>_. [0], []) = (Inr (recs, alpha_count recs), s')" "snd s' = [0]"
    and m: "map at_raw recs = map (\<lambda>ev. lit ''NO_OP'') (replicate 1000 idle_event)" by blast
  then show ?thesis using arg_cong [OF m, of length] unfolding length_map length_replicate by blast
qed

end
