(* ===== verification/Islands.thy ===== *)
theory Islands
  imports Rust_Float
begin

text \<open>
  \<^verbatim>\<open>sp_islands_q_ref.rs\<close>: the integer reference of the nonlinear kernels. Rust's \<^verbatim>\<open>i64\<close> and \<^verbatim>\<open>i128\<close> are
  integers with the wrap of the release build written out (\<open>i64\<close>, \<open>i128\<close>); \<^verbatim>\<open>>>\<close> is \<open>drop_bit\<close>, \<^verbatim>\<open><<\<close> is
  \<open>push_bit\<close>, and the shift amount counts mod 64. The last step of a kernel divides in \<^verbatim>\<open>f64\<close> and rounds
  to \<^verbatim>\<open>f32\<close>: that conversion is a parameter (\<open>quot\<close>), everything before it is exact.
\<close>

subsection \<open>Machine integers\<close>

definition i64 :: "int \<Rightarrow> int" where "i64 x = signed_take_bit 63 x"
definition i128 :: "int \<Rightarrow> int" where "i128 x = signed_take_bit 127 x"
definition u128 :: "nat \<Rightarrow> nat" where "u128 n = n mod 2 ^ 128"
definition shr64 :: "int \<Rightarrow> int \<Rightarrow> int" where "shr64 x n = drop_bit (nat (n mod 64)) x"

lemma i64_id: "- (2 ^ 63) \<le> x \<Longrightarrow> x < 2 ^ 63 \<Longrightarrow> i64 x = x"
  unfolding i64_def by (simp add: signed_take_bit_int_eq_self_iff)

lemma i128_id: "- (2 ^ 127) \<le> x \<Longrightarrow> x < 2 ^ 127 \<Longrightarrow> i128 x = x"
  unfolding i128_def by (simp add: signed_take_bit_int_eq_self_iff)

lemma i64_range: "- (2 ^ 63) \<le> i64 x \<and> i64 x < 2 ^ 63"
  unfolding i64_def using signed_take_bit_int_greater_eq_minus_exp [of 63 x] signed_take_bit_int_less_exp [of 63 x] by simp

lemma u128_id: "n < 2 ^ 128 \<Longrightarrow> u128 n = n"
  by (simp add: u128_def)

subsection \<open>The exponential\<close>

definition FB :: nat where "FB = 30"
definition ONE :: int where "ONE = 1073741824"
definition LOG2E :: int where "LOG2E = 1549082005"
definition EXPC :: "int list" where
  "EXPC = [1073741824, 744261118, 257941248, 59597083, 10327387, 1431680, 165394]"
definition GK :: int where "GK = 856722024"
definition GA :: int where "GA = 48012366"

text \<open>Horner's rule from the coefficient below \<open>k\<close> down to the constant one.\<close>

fun exp2_loop :: "int \<Rightarrow> nat \<Rightarrow> int \<Rightarrow> int" where
  "exp2_loop r 0 acc = acc"
| "exp2_loop r (Suc k) acc = exp2_loop r k (i64 (drop_bit FB (i64 (acc * r)) + EXPC ! k))"

definition exp2_frac :: "int \<Rightarrow> int" where
  "exp2_frac r = exp2_loop r 6 (EXPC ! 6)"

definition exp_fixed :: "int \<Rightarrow> int" where
  "exp_fixed d =
     (if 0 \<le> d then ONE
      else let g = i64 (- drop_bit FB (i128 (d * LOG2E))); n = drop_bit FB g in
           if 32 \<le> n then 0
           else let r = i64 (g - i64 (push_bit FB n)) in
                if r \<noteq> 0 then shr64 (exp2_frac (ONE - r)) (n + 1) else shr64 ONE n)"

subsection \<open>The integer square root\<close>

function isqrt_start :: "nat \<Rightarrow> nat \<Rightarrow> nat" where
  "isqrt_start b v = (if v < b then isqrt_start (b div 4) v else b)"
  by pat_completeness auto
termination by (relation "measure fst") auto

function isqrt_loop :: "nat \<Rightarrow> nat \<Rightarrow> nat \<Rightarrow> nat" where
  "isqrt_loop x v b =
     (if b = 0 then x
      else if u128 (x + b) \<le> v then isqrt_loop (u128 (x div 2 + b)) (v - u128 (x + b)) (b div 4)
      else isqrt_loop (x div 2) v (b div 4))"
  by pat_completeness auto
termination by (relation "measure (\<lambda>(x, v, b). b)") auto

declare isqrt_start.simps [simp del] isqrt_loop.simps [simp del]

definition isqrt_u128 :: "nat \<Rightarrow> nat" where
  "isqrt_u128 v = (if v = 0 then 0 else isqrt_loop 0 v (isqrt_start (2 ^ 126) v))"

subsection \<open>Encoding and the kernels\<close>

text \<open>
  \<^verbatim>\<open>(v * 2^shift).round() as i64\<close>: scaling an \<^verbatim>\<open>f32\<close> by a power of two is exact (or overflows to infinity,
  which the cast saturates like any large value), \<^verbatim>\<open>round\<close> rounds halves away from zero, NaN becomes 0.
\<close>

definition enc_bits :: "nat \<Rightarrow> f32 \<Rightarrow> nat \<Rightarrow> int" where
  "enc_bits w v s =
     (if f32_nan v then 0
      else let q = int ((f32_mant v * 2 ^ (f32_scale v + s) * 2 + 2 ^ 149) div 2 ^ 150)
           in if bit v 31 then max (- (2 ^ w)) (- q) else min (2 ^ w - 1) q)"

definition enc :: "f32 \<Rightarrow> nat \<Rightarrow> int" where
  "enc v s = enc_bits 63 v s"

definition softmax_weight :: "int \<Rightarrow> int \<Rightarrow> int" where
  "softmax_weight m z = exp_fixed (drop_bit 14 (i64 (i64 (z - m) * ONE)))"

text \<open>\<open>None\<close> is the panic on an empty row.\<close>

definition softmax_weights :: "f32 list \<Rightarrow> int list option" where
  "softmax_weights z =
     (if z = [] then None
      else let zi = map (\<lambda>v. enc v 14) z in Some (map (softmax_weight (Max (set zi))) zi))"

definition softmax_q_ref :: "(int \<Rightarrow> int \<Rightarrow> f32) \<Rightarrow> f32 list \<Rightarrow> f32 list option" where
  "softmax_q_ref quot z = map_option (\<lambda>e. map (\<lambda>ei. quot ei (i128 (sum_list e))) e) (softmax_weights z)"

definition rms_inv :: "int list \<Rightarrow> int option" where
  "rms_inv xi =
     (let sumsq = i128 (sum_list (map (\<lambda>a. a * a) xi)) in
      if sumsq \<le> 0 then None
      else Some (i128 (int (isqrt_u128 (u128 (length xi * 2 ^ 72) div nat sumsq)))))"

text \<open>The weights, when given, must be at least as many as the inputs; \<open>None\<close> is the index panic.\<close>

definition rmsnorm_q_ref :: "(int \<Rightarrow> int \<Rightarrow> f32) \<Rightarrow> f32 list \<Rightarrow> f32 list option \<Rightarrow> f32 list option" where
  "rmsnorm_q_ref quot x w =
     (let xi = map (\<lambda>v. enc v 16) x in
      case rms_inv xi of
        None \<Rightarrow> Some (replicate (length x) 0)
      | Some iv \<Rightarrow>
          (case w of
             None \<Rightarrow> Some (map (\<lambda>a. quot (i128 (i128 (a * iv) * 2 ^ 16)) (2 ^ 52)) xi)
           | Some ww \<Rightarrow>
               if length ww < length x then None
               else Some (map (\<lambda>(a, v). quot (i128 (i128 (a * iv) * enc v 16)) (2 ^ 52)) (zip xi ww))))"

definition tanh_fixed :: "int \<Rightarrow> int" where
  "tanh_fixed t =
     (let s = (if 0 \<le> t then 1 else -1); a = i64 \<bar>t\<bar>; e2 = exp_fixed (i64 (- i64 (2 * a)));
          num = i64 (push_bit FB (i64 (2 * e2)))
      in i64 (s * i64 (ONE - num div (ONE + e2))))"

definition gelu_fixed :: "int \<Rightarrow> int" where
  "gelu_fixed xq =
     (let big_x = drop_bit 16 (i64 (xq * ONE));
          x2 = drop_bit FB (big_x * big_x);
          x3 = drop_bit FB (i128 (x2 * big_x));
          inner = i64 (drop_bit FB (i128 (GK * (big_x + drop_bit FB (i128 (GA * x3))))));
          t = tanh_fixed inner
      in drop_bit FB (i128 (drop_bit 1 big_x * (ONE + t))))"

definition gelu_q_ref :: "(int \<Rightarrow> int \<Rightarrow> f32) \<Rightarrow> f32 list \<Rightarrow> f32 list" where
  "gelu_q_ref quot x = map (\<lambda>v. quot (gelu_fixed (enc v 16)) ONE) x"

subsection \<open>Rotation\<close>

definition CORDIC_N :: nat where "CORDIC_N = 30"
definition ATAN_FB30 :: "int list" where
  "ATAN_FB30 = [843314857, 497837829, 263043837, 133525159, 67021687, 33543516, 16775851, 8388437,
     4194283, 2097149, 1048576, 524288, 262144, 131072, 65536, 32768, 16384, 8192, 4096,
     2048, 1024, 512, 256, 128, 64, 32, 16, 8, 4, 2]"
definition CORDIC_K :: int where "CORDIC_K = 652032874"
definition PI_FB :: int where "PI_FB = 3373259426"
definition HALFPI_FB :: int where "HALFPI_FB = 1686629713"
definition TWOPI_FB :: int where "TWOPI_FB = 6746518852"

text \<open>Rust's \<^verbatim>\<open>%\<close> takes the sign of the dividend.\<close>

definition rem_trunc :: "int \<Rightarrow> int \<Rightarrow> int" where
  "rem_trunc a b = (if 0 \<le> a then a mod b else - ((- a) mod b))"

fun cordic_loop :: "nat \<Rightarrow> int list \<Rightarrow> int \<Rightarrow> int \<Rightarrow> int \<Rightarrow> int \<times> int \<times> int" where
  "cordic_loop k [] x y z = (x, y, z)"
| "cordic_loop k (a # as) x y z =
     (let xs = drop_bit k x; ys = drop_bit k y in
      if 0 \<le> z then cordic_loop (Suc k) as (i64 (x - ys)) (i64 (y + xs)) (i64 (z - a))
      else cordic_loop (Suc k) as (i64 (x + ys)) (i64 (y - xs)) (i64 (z + a)))"

definition reduce_2pi :: "int \<Rightarrow> int" where
  "reduce_2pi theta =
     (let z = rem_trunc theta TWOPI_FB in
      if PI_FB < z then z - TWOPI_FB else if z < - PI_FB then z + TWOPI_FB else z)"

definition fold_quadrant :: "int \<Rightarrow> int \<times> bool" where
  "fold_quadrant z =
     (if HALFPI_FB < z then (z - PI_FB, True)
      else if z < - HALFPI_FB then (z + PI_FB, True) else (z, False))"

definition cordic_cossin :: "int \<Rightarrow> int \<times> int" where
  "cordic_cossin theta =
     (let (z, neg) = fold_quadrant (reduce_2pi theta); (x, y, _) = cordic_loop 0 ATAN_FB30 CORDIC_K 0 z
      in if neg then (- x, - y) else (x, y))"

text \<open>One pair of a rotation. A table shorter than half the row is the index panic.\<close>

definition rope_pair :: "int \<Rightarrow> int \<Rightarrow> f32 \<Rightarrow> f32 \<Rightarrow> int \<times> int" where
  "rope_pair pos freq va vb =
     (let theta = rem_trunc (pos * freq) TWOPI_FB; (c, s) = cordic_cossin theta;
          a = enc_bits 127 va 16; b = enc_bits 127 vb 16
      in (drop_bit FB (i128 (i128 (a * c) - i128 (b * s))), drop_bit FB (i128 (i128 (a * s) + i128 (b * c)))))"

definition rope_q_ref :: "(int \<Rightarrow> int \<Rightarrow> f32) \<Rightarrow> f32 list \<Rightarrow> int \<Rightarrow> int list \<Rightarrow> f32 list option" where
  "rope_q_ref quot v pos freq_fix =
     (let half = length v div 2 in
      if length freq_fix < half then None
      else let ps = map (\<lambda>i. rope_pair pos (freq_fix ! i) (v ! i) (v ! (i + half))) [0..<half]
           in Some (map (\<lambda>(oa, ob). quot oa (2 ^ 16)) ps @ map (\<lambda>(oa, ob). quot ob (2 ^ 16)) ps @
                replicate (length v - 2 * half) 0))"

subsection \<open>The integer square root is the floor of the root\<close>

lemma isqrt_start_pow: "v < 4 ^ k \<Longrightarrow> 0 < v \<Longrightarrow> \<exists>j. isqrt_start (4 ^ k) v = 4 ^ j \<and> v < 4 ^ Suc j"
proof (induction k)
  case 0
  then show ?case by simp
next
  case (Suc k)
  have step: "isqrt_start (4 ^ Suc k) v = isqrt_start (4 ^ k) v"
    using Suc.prems by (subst isqrt_start.simps) simp
  show ?case
  proof (cases "v < 4 ^ k")
    case True
    then show ?thesis using Suc step by simp
  next
    case False
    then have "isqrt_start (4 ^ k) v = 4 ^ k" by (subst isqrt_start.simps) simp
    then show ?thesis using step Suc.prems by (intro exI [of _ k]) simp
  qed
qed

lemma isqrt_start_bound:
  assumes "0 < v" and "v < 2 ^ 128"
  obtains j where "isqrt_start (2 ^ 126) v = 4 ^ j" and "v < 4 ^ Suc j" and "j \<le> 63"
proof (cases "v < 2 ^ 126")
  case True
  obtain j where j: "isqrt_start (4 ^ 63) v = 4 ^ j" "v < 4 ^ Suc j" using isqrt_start_pow [of v 63] True assms by auto
  have "isqrt_start b v \<le> b" for b 
  proof (induction b v rule: isqrt_start.induct)
    case (1 b v)
    then show ?case by (subst isqrt_start.simps) (cases "v < b"; fastforce)
  qed
  then have "(4 :: nat) ^ j \<le> 4 ^ 63" using j(1) by metis
  then have "j \<le> 63" by (rule power_le_imp_le_exp [rotated]) simp
  then show ?thesis using that j by simp
next
  case False
  then have "isqrt_start (2 ^ 126) v = 2 ^ 126" by (subst isqrt_start.simps) simp
  then show ?thesis using that [of 63] assms by simp
qed

text \<open>
  Before the digit of weight \<open>2 ^ k\<close> the root found so far is \<open>s\<close>; the loop keeps \<open>s * 2 ^ (k + 1)\<close> and the
  remainder \<open>V - s\<^sup>2\<close>.
\<close>

lemma isqrt_loop_correct:
  assumes "s ^ 2 \<le> V" and "V < (s + 2 ^ k) ^ 2" and "k \<le> 64" and "s + 2 ^ k \<le> 2 ^ 64"
  shows "let r = isqrt_loop (s * 2 ^ k) (V - s ^ 2) (4 ^ k div 4) in r ^ 2 \<le> V \<and> V < (r + 1) ^ 2"
  using assms
proof (induction k arbitrary: s)
  case 0
  then show ?case by (subst isqrt_loop.simps) simp
next
  case (Suc k)
  have p: "(4 :: nat) ^ k = 2 ^ k * 2 ^ k" by (simp add: power_mult_distrib [symmetric])
  have b: "4 ^ Suc k div 4 = (4 :: nat) ^ k" by simp
  have sq: "(s + 2 ^ k) ^ 2 = s ^ 2 + (s * 2 ^ Suc k + 4 ^ k)" by (simp add: power2_eq_square p algebra_simps)
  have "s * 2 ^ Suc k + 4 ^ k \<le> (s + 2 ^ k) * 2 ^ Suc k" by (simp add: p algebra_simps)
  also have "\<dots> < 2 ^ 64 * 2 ^ 64"
  proof (rule mult_less_le_imp_less)
    show "s + 2 ^ k < 2 ^ 64" using Suc.prems(4) by (simp add: order_less_le_trans [of _ "s + 2 ^ Suc k"])
    show "(2 :: nat) ^ Suc k \<le> 2 ^ 64" using Suc.prems(3) by (intro power_increasing) simp_all
  qed simp_all
  finally have fits: "u128 (s * 2 ^ Suc k + 4 ^ k) = s * 2 ^ Suc k + 4 ^ k" by (intro u128_id) simp
  have nz: "((4 :: nat) ^ k = 0) = False" by simp
  have half: "s * 2 ^ Suc k div 2 = s * 2 ^ k" by simp
  have up: "s * 2 ^ k + 4 ^ k = (s + 2 ^ k) * 2 ^ k" by (simp add: p algebra_simps)
  have "(s + 2 ^ k) * 2 ^ k \<le> s * 2 ^ Suc k + 4 ^ k" by (simp add: p algebra_simps)
  then have fits2: "u128 (s * 2 ^ k + 4 ^ k) = (s + 2 ^ k) * 2 ^ k"
    using fits up by (simp add: u128_def mod_eq_self_iff_div_eq_0 div_eq_0_iff)
  have top: "s + 2 ^ k + 2 ^ k = s + 2 ^ Suc k" by simp
  show ?case
  proof (cases "(s + 2 ^ k) ^ 2 \<le> V")
    case True
    have "let r = isqrt_loop ((s + 2 ^ k) * 2 ^ k) (V - (s + 2 ^ k) ^ 2) (4 ^ k div 4) in r ^ 2 \<le> V \<and> V < (r + 1) ^ 2"
      by (rule Suc.IH [OF True]) (simp_all only: top Suc.prems Suc_leD)
    moreover have "isqrt_loop (s * 2 ^ Suc k) (V - s ^ 2) (4 ^ k) =
        isqrt_loop ((s + 2 ^ k) * 2 ^ k) (V - (s + 2 ^ k) ^ 2) (4 ^ k div 4)"
    proof -
      have c: "s * 2 ^ Suc k + 4 ^ k \<le> V - s ^ 2" using True sq by linarith
      have d: "V - s ^ 2 - (s * 2 ^ Suc k + 4 ^ k) = V - (s + 2 ^ k) ^ 2" using sq by linarith
      show ?thesis by (subst isqrt_loop.simps) (simp only: fits half fits2 nz c d if_True if_False)
    qed
    ultimately show ?thesis by (simp only: b)
  next
    case False
    have "let r = isqrt_loop (s * 2 ^ k) (V - s ^ 2) (4 ^ k div 4) in r ^ 2 \<le> V \<and> V < (r + 1) ^ 2"
      by (rule Suc.IH) (use Suc.prems False in simp_all)
    moreover have "isqrt_loop (s * 2 ^ Suc k) (V - s ^ 2) (4 ^ k) = isqrt_loop (s * 2 ^ k) (V - s ^ 2) (4 ^ k div 4)"
    proof -
      have "\<not> s * 2 ^ Suc k + 4 ^ k \<le> V - s ^ 2" using False sq Suc.prems(1) by linarith
      then have c: "(s * 2 ^ Suc k + 4 ^ k \<le> V - s ^ 2) = False" by (rule eq_False [THEN iffD2])
      show ?thesis by (subst isqrt_loop.simps) (simp only: fits half nz c if_False)
    qed
    ultimately show ?thesis by (simp only: b)
  qed
qed

lemma isqrt_floor_lemma:
  assumes "v < 2 ^ 128"
  shows "(isqrt_u128 v) ^ 2 \<le> v \<and> v < (isqrt_u128 v + 1) ^ 2"
proof (cases "v = 0")
  case True
  then show ?thesis by (simp add: isqrt_u128_def)
next
  case False
  then obtain j where j: "isqrt_start (2 ^ 126) v = 4 ^ j" "v < 4 ^ Suc j" "j \<le> 63"
    using isqrt_start_bound assms by auto
  have "(4 :: nat) ^ Suc j = (2 ^ Suc j) ^ 2" by (simp add: power_mult [symmetric] power2_eq_square power_mult_distrib [symmetric])
  then have "let r = isqrt_loop (0 * 2 ^ Suc j) (v - 0 ^ 2) (4 ^ Suc j div 4) in r ^ 2 \<le> v \<and> v < (r + 1) ^ 2"
    using j(2,3) by (intro isqrt_loop_correct) (simp_all add: power_increasing [of "Suc j" 64 "2 :: nat", simplified])
  then show ?thesis using False j(1) by (simp add: isqrt_u128_def Let_def)
qed

text \<open>
  C30. The bitwise square root ends and returns the floor of the root for every 128-bit argument.
\<close>

theorem isqrt_floor:
  assumes "v < 2 ^ 128"
  shows "(isqrt_u128 v) ^ 2 \<le> v \<and> v < (isqrt_u128 v + 1) ^ 2"
  by (rule isqrt_floor_lemma [OF assms])

theorem isqrt_floor_witness: "isqrt_u128 1000000 = 1000"
proof -
  have "(isqrt_u128 1000000) ^ 2 \<le> 1000 ^ 2" "1000 ^ 2 < (isqrt_u128 1000000 + 1) ^ 2" using isqrt_floor [of 1000000] by simp_all
  then have "isqrt_u128 1000000 \<le> 1000" "1000 < isqrt_u128 1000000 + 1"
    by (blast intro: power2_le_imp_le power2_less_imp_less)+
  then show ?thesis by simp
qed

end
