(* ===== verification/Islands_Exp.thy ===== *)
theory Islands_Exp
  imports Islands Complex_Main
begin

text \<open>
  How far the integer exponential of the kernels is from \<open>exp\<close>: bounds on \<open>ln 2\<close>, the table of
  coefficients, Horner's rule with its floors, and the reduction of the argument.
\<close>

subsection \<open>The real side\<close>

lemma exp_taylor:
  fixes x :: real
  assumes "0 \<le> x" and "x \<le> 1"
  shows "(\<Sum>m<n. x ^ m / fact m) \<le> exp x \<and> exp x \<le> (\<Sum>m<n. x ^ m / fact m) + exp x * x ^ n / fact n"
proof -
  obtain t where t: "\<bar>t\<bar> \<le> \<bar>x\<bar>" "exp x = (\<Sum>m<n. x ^ m / fact m) + exp t / fact n * x ^ n"
    using Maclaurin_exp_le [of x n] by blast
  have "0 \<le> exp t / fact n * x ^ n" using assms by simp
  moreover have "exp t / fact n * x ^ n \<le> exp x / fact n * x ^ n"
    using t(1) assms by (intro mult_right_mono divide_right_mono) auto
  ultimately show ?thesis using t(2) by simp
qed

lemma ln2_bounds: "(69314718055 / 10 ^ 11 :: real) \<le> ln 2" "ln 2 \<le> (69314718057 / 10 ^ 11 :: real)"
proof -
  let ?l = "69314718055 / 10 ^ 11 :: real" and ?u = "69314718057 / 10 ^ 11 :: real"
  have "exp ?l \<le> exp 1" by simp
  then have e3: "exp ?l \<le> 3" using exp_le by (rule order_trans)
  have "exp ?l \<le> (\<Sum>m<14. ?l ^ m / fact m) + exp ?l * ?l ^ 14 / fact 14"
    using exp_taylor [of ?l 14] by simp
  also have "\<dots> \<le> (\<Sum>m<14. ?l ^ m / fact m) + 3 * ?l ^ 14 / fact 14"
    using e3 by (intro add_left_mono divide_right_mono mult_right_mono) simp_all
  also have "\<dots> \<le> 2" by (simp add: lessThan_nat_numeral fact_numeral power_divide)
  finally show "?l \<le> ln 2" by (metis exp_le_cancel_iff exp_ln zero_less_numeral)
  have "2 \<le> (\<Sum>m<14. ?u ^ m / fact m)" by (simp add: lessThan_nat_numeral fact_numeral power_divide)
  also have "\<dots> \<le> exp ?u" using exp_taylor [of ?u 14] by simp
  finally show "ln 2 \<le> ?u" by (metis exp_gt_zero exp_le_cancel_iff exp_ln zero_less_numeral)
qed


lemma coeff_error:
  assumes "k < 7"
  shows "\<bar>real_of_int (EXPC ! k) / 2 ^ 30 - ln 2 ^ k / fact k\<bar> \<le> 1 / 2 ^ 30"
proof -
  let ?l = "69314718055 / 10 ^ 11 :: real" and ?u = "69314718057 / 10 ^ 11 :: real"
  have lo: "?l ^ k / fact k \<le> ln 2 ^ k / fact k" and up: "ln 2 ^ k / fact k \<le> ?u ^ k / fact k"
    using ln2_bounds by (auto intro!: divide_right_mono power_mono)
  have "k = 0 \<or> k = 1 \<or> k = 2 \<or> k = 3 \<or> k = 4 \<or> k = 5 \<or> k = 6" using assms by auto
  then have "real_of_int (EXPC ! k) / 2 ^ 30 - 1 / 2 ^ 30 \<le> ?l ^ k / fact k \<and>
      ?u ^ k / fact k \<le> real_of_int (EXPC ! k) / 2 ^ 30 + 1 / 2 ^ 30"
    by (elim disjE) (simp_all add: EXPC_def fact_numeral power_divide)
  then show ?thesis using lo up unfolding abs_le_iff by linarith
qed

lemma poly_error:
  assumes "0 \<le> x" and "x \<le> 1"
  shows "\<bar>(\<Sum>j<7. real_of_int (EXPC ! j) / 2 ^ 30 * x ^ j) - exp (x * ln 2)\<bar> \<le> 7 / 2 ^ 30 + 31 / 10 ^ 6"
proof -
  let ?c = "\<lambda>j. real_of_int (EXPC ! j) / 2 ^ 30"
  have y: "0 \<le> x * ln 2" "x * ln 2 \<le> 1"
    using assms ln2_bounds mult_mono [of x 1 "ln 2" 1] by auto
  have "\<bar>(\<Sum>j<7. ?c j * x ^ j) - (\<Sum>j<7. (x * ln 2) ^ j / fact j)\<bar> =
      \<bar>\<Sum>j<7. (?c j - ln 2 ^ j / fact j) * x ^ j\<bar>"
    by (simp add: sum_subtractf [symmetric] power_mult_distrib algebra_simps)
  also have "\<dots> \<le> (\<Sum>j<7. \<bar>(?c j - ln 2 ^ j / fact j) * x ^ j\<bar>)" by (rule sum_abs)
  also have "\<dots> \<le> (\<Sum>j<(7 :: nat). 1 / 2 ^ 30)"
  proof (rule sum_mono)
    fix j :: nat assume "j \<in> {..<7}"
    then have "\<bar>?c j - ln 2 ^ j / fact j\<bar> * \<bar>x ^ j\<bar> \<le> 1 / 2 ^ 30 * 1"
      using coeff_error [of j] assms by (intro mult_mono) (auto simp: power_le_one)
    then show "\<bar>(?c j - ln 2 ^ j / fact j) * x ^ j\<bar> \<le> 1 / 2 ^ 30" by (simp add: abs_mult)
  qed
  finally have 1: "\<bar>(\<Sum>j<7. ?c j * x ^ j) - (\<Sum>j<7. (x * ln 2) ^ j / fact j)\<bar> \<le> 7 / 2 ^ 30" by simp
  have "x * ln 2 \<le> ln 2" using assms mult_right_mono [of x 1 "ln 2"] by simp
  then have "exp (x * ln 2) \<le> 2" by (metis exp_le_cancel_iff exp_ln zero_less_numeral)
  moreover have "(x * ln 2) ^ 7 \<le> (69314718057 / 10 ^ 11) ^ 7"
    using y assms ln2_bounds mult_mono [of x 1 "ln 2" "69314718057 / 10 ^ 11"] by (intro power_mono) auto
  ultimately have "exp (x * ln 2) * (x * ln 2) ^ 7 / fact 7 \<le> 2 * (69314718057 / 10 ^ 11) ^ 7 / fact 7"
    using y by (intro divide_right_mono mult_mono) auto
  also have "\<dots> \<le> 31 / 10 ^ 6" by (simp add: fact_numeral power_divide)
  finally have "\<bar>(\<Sum>j<7. (x * ln 2) ^ j / fact j) - exp (x * ln 2)\<bar> \<le> 31 / 10 ^ 6"
    using exp_taylor [OF y, of 7] by linarith
  then show ?thesis using 1 by linarith
qed

subsection \<open>Horner's rule\<close>

lemma div_real:
  "real_of_int a / real_of_int b - 1 < real_of_int (a div b)" "real_of_int (a div b) \<le> real_of_int a / real_of_int b"
proof -
  have "real_of_int (a div b) = of_int \<lfloor>real_of_int a / real_of_int b\<rfloor>"
    using floor_divide_of_int_eq [of a b, where ?'a = real] by simp
  then show "real_of_int a / real_of_int b - 1 < real_of_int (a div b)" "real_of_int (a div b) \<le> real_of_int a / real_of_int b"
    by linarith+
qed

lemma drop_bit_real:
  "real_of_int x / 2 ^ n - 1 < real_of_int (drop_bit n x)" "real_of_int (drop_bit n x) \<le> real_of_int x / 2 ^ n"
  using div_real [where a = x and b = "2 ^ n"] by (simp_all add: drop_bit_eq_div)

lemma drop_bit_le: "0 \<le> x \<Longrightarrow> drop_bit n x \<le> (x :: int)"
  using zdiv_mono2 [of x 1 "2 ^ n"] by (simp add: drop_bit_eq_div)

lemma exp2_step:
  assumes "0 \<le> r" and "r \<le> ONE" and "0 \<le> acc" and "acc \<le> 2 ^ 31" and "0 \<le> c" and "c \<le> 2 ^ 30"
  shows "i64 (drop_bit FB (i64 (acc * r)) + c) = drop_bit FB (acc * r) + c"
    and "0 \<le> drop_bit FB (acc * r)" and "drop_bit FB (acc * r) \<le> acc"
proof -
  have "acc * r \<le> acc * 2 ^ 30" using assms by (intro mult_left_mono) (auto simp: ONE_def)
  then have m: "0 \<le> acc * r" "acc * r \<le> 2 ^ 61" "drop_bit FB (acc * r) \<le> drop_bit FB (acc * 2 ^ 30)"
    using assms by (auto simp: drop_bit_eq_div zdiv_mono1)
  then show 2: "0 \<le> drop_bit FB (acc * r)" "drop_bit FB (acc * r) \<le> acc" by (simp_all add: drop_bit_eq_div FB_def)
  then show "i64 (drop_bit FB (i64 (acc * r)) + c) = drop_bit FB (acc * r) + c"
  proof -
    have "i64 (acc * r) = acc * r" using m(1,2) by (intro i64_id) simp_all
    moreover have "i64 (drop_bit FB (acc * r) + c) = drop_bit FB (acc * r) + c"
    proof (rule i64_id)
      show "- (2 ^ 63) \<le> drop_bit FB (acc * r) + c"
        by (rule order_trans [OF _ add_nonneg_nonneg [OF 2(1) assms(5)]]) simp
      show "drop_bit FB (acc * r) + c < 2 ^ 63"
        by (rule order_le_less_trans [OF add_mono [OF order_trans [OF 2(2) assms(4)] assms(6)]]) simp
    qed
    ultimately show ?thesis by simp
  qed
qed

lemma horner_error:
  fixes E :: real
  assumes "\<bar>E - (C + S)\<bar> \<le> K" and "C = A - e + T" and "0 \<le> e" and "e \<le> d"
  shows "\<bar>E - (A + (S + T))\<bar> \<le> K + d"
  using assms by linarith

lemma exp2_loop_real:
  assumes "0 \<le> r" and "r \<le> ONE" and "k \<le> 6"
  shows "0 \<le> acc \<Longrightarrow> acc + (\<Sum>j<k. EXPC ! j) \<le> 2 ^ 31 \<Longrightarrow>
    0 \<le> exp2_loop r k acc \<and> exp2_loop r k acc \<le> acc + (\<Sum>j<k. EXPC ! j) \<and>
    \<bar>real_of_int (exp2_loop r k acc) / 2 ^ 30 -
      (real_of_int acc / 2 ^ 30 * (r / 2 ^ 30) ^ k + (\<Sum>j<k. EXPC ! j / 2 ^ 30 * (r / 2 ^ 30) ^ j))\<bar> \<le> k / 2 ^ 30"
  using assms(3)
proof (induction k arbitrary: acc)
  case 0
  then show ?case by simp
next
  case (Suc k)
  let ?x = "r / 2 ^ 30 :: real" and ?a = "drop_bit FB (acc * r) + EXPC ! k"
  have pos: "0 \<le> EXPC ! j" if "j < 7" for j
    using that by (simp add: EXPC_def less_Suc_eq numeral_eq_Suc) (elim disjE; simp)
  have c: "0 \<le> EXPC ! k" "EXPC ! k \<le> 2 ^ 30"
    using pos [of k] Suc.prems(3) by (simp, simp add: EXPC_def le_Suc_eq numeral_eq_Suc) (elim disjE; simp)
  have "0 \<le> (\<Sum>j<k. EXPC ! j)" using pos Suc.prems(3) by (intro sum_nonneg) auto
  then have acc: "0 \<le> acc" "acc \<le> 2 ^ 31" using Suc.prems c(1) by simp_all
  note st = exp2_step [OF assms(1,2) acc c]
  have x: "0 \<le> ?x" "?x \<le> 1" using assms by (auto simp: ONE_def)
  have ih: "0 \<le> exp2_loop r k ?a \<and> exp2_loop r k ?a \<le> ?a + (\<Sum>j<k. EXPC ! j) \<and>
      \<bar>real_of_int (exp2_loop r k ?a) / 2 ^ 30 -
        (real_of_int ?a / 2 ^ 30 * ?x ^ k + (\<Sum>j<k. EXPC ! j / 2 ^ 30 * ?x ^ j))\<bar> \<le> k / 2 ^ 30"
    by (rule Suc.IH) (use st(2,3) c Suc.prems in simp_all)
  define e where "e = real_of_int acc / 2 ^ 30 * ?x - real_of_int (drop_bit FB (acc * r)) / 2 ^ 30"
  have e: "0 \<le> e" "e \<le> 1 / 2 ^ 30"
    using drop_bit_real [where x = "acc * r" and n = FB] by (simp_all add: e_def FB_def field_simps)
  then have ek: "0 \<le> e * ?x ^ k" "e * ?x ^ k \<le> 1 / 2 ^ 30"
    using x mult_mono [of e "1 / 2 ^ 30" "?x ^ k" 1] by (simp_all add: power_le_one)
  have a: "real_of_int ?a / 2 ^ 30 * ?x ^ k = real_of_int acc / 2 ^ 30 * ?x ^ Suc k - e * ?x ^ k + EXPC ! k / 2 ^ 30 * ?x ^ k"
    by (simp add: e_def algebra_simps add_divide_distrib)
  have s: "exp2_loop r (Suc k) acc = exp2_loop r k ?a" using st(1) by simp
  have k: "real (Suc k) / 2 ^ 30 = k / 2 ^ 30 + 1 / 2 ^ 30" by (simp add: field_simps)
  have "exp2_loop r k ?a \<le> acc + ((\<Sum>j<k. EXPC ! j) + EXPC ! k)" using ih st(3) by linarith
  then show ?case
    unfolding s k sum.lessThan_Suc using ih horner_error [OF _ a ek] by blast
qed

lemma exp2_frac_range: "0 \<le> r \<Longrightarrow> r \<le> ONE \<Longrightarrow> 0 \<le> exp2_frac r \<and> exp2_frac r < 2 ^ 31"
  using exp2_loop_real [of r 6 "EXPC ! 6"] by (auto simp: exp2_frac_def EXPC_def lessThan_nat_numeral)

lemma exp2_frac_error:
  assumes "0 \<le> r" and "r \<le> ONE"
  shows "\<bar>real_of_int (exp2_frac r) / 2 ^ 30 - exp (r / 2 ^ 30 * ln 2)\<bar> \<le> 13 / 2 ^ 30 + 31 / 10 ^ 6"
proof -
  let ?x = "r / 2 ^ 30 :: real"
  have "\<bar>real_of_int (exp2_frac r) / 2 ^ 30 - (\<Sum>j<7. EXPC ! j / 2 ^ 30 * ?x ^ j)\<bar> \<le> 6 / 2 ^ 30"
    using exp2_loop_real [OF assms, of 6 "EXPC ! 6"]
    by (simp add: exp2_frac_def EXPC_def lessThan_nat_numeral add.commute)
  moreover have "0 \<le> ?x" "?x \<le> 1" using assms by (auto simp: ONE_def)
  ultimately show ?thesis using poly_error [of ?x] by linarith
qed

subsection \<open>The reduction of the argument\<close>

lemma exp_diff_le:
  fixes a b :: real
  assumes "0 \<le> b" and "\<bar>a - b\<bar> \<le> (1 + b) * e" and "b / 2 \<le> a" and "0 \<le> e"
  shows "\<bar>exp (- a) - exp (- b)\<bar> \<le> 2 * e"
proof -
  have gap: "\<bar>exp (- x) - exp (- y)\<bar> \<le> (y - x) * exp (- x)" if "x \<le> y" for x y :: real
  proof -
    have "1 - (y - x) \<le> exp (- (y - x))" using exp_ge_add_one_self [of "- (y - x)"] by linarith
    then have "(1 - (y - x)) * exp (- x) \<le> exp (- (y - x)) * exp (- x)" by (intro mult_right_mono) simp_all
    also have "\<dots> = exp (- y)" by (simp add: exp_add [symmetric])
    finally show ?thesis using that by (simp add: algebra_simps)
  qed
  have half: "exp (- min a b) \<le> exp (- (b / 2))" using assms(1,3) by simp
  have "\<bar>exp (- a) - exp (- b)\<bar> \<le> \<bar>a - b\<bar> * exp (- min a b)"
    using gap [of a b] gap [of b a] by (cases "a \<le> b") (auto simp: abs_minus_commute min_def)
  also have "\<dots> \<le> (1 + b) * e * exp (- (b / 2))"
    using assms half by (intro mult_mono) auto
  also have "\<dots> \<le> (2 * exp (b / 2)) * e * exp (- (b / 2))"
  proof -
    have "1 + b \<le> 2 * exp (b / 2)" using exp_ge_add_one_self [of "b / 2"] assms(1) by linarith
    then show ?thesis using assms(4) by (intro mult_right_mono) auto
  qed
  also have "\<dots> = 2 * e" by (simp add: exp_minus)
  finally show ?thesis .
qed

lemma log2e_error: "\<bar>real_of_int LOG2E / 2 ^ 30 * ln 2 - 1\<bar> \<le> 1 / 2 ^ 30"
proof -
  have "real_of_int LOG2E / 2 ^ 30 * (69314718055 / 10 ^ 11) \<le> real_of_int LOG2E / 2 ^ 30 * ln 2"
    "real_of_int LOG2E / 2 ^ 30 * ln 2 \<le> real_of_int LOG2E / 2 ^ 30 * (69314718057 / 10 ^ 11)"
    using ln2_bounds by (auto intro!: mult_left_mono simp: LOG2E_def)
  then show ?thesis unfolding abs_le_iff by (simp add: LOG2E_def)
qed

lemma exponent_gap:
  fixes a b e p :: real
  assumes "p \<le> a" and "a \<le> p + e" and "b * (1 - e) \<le> p" and "p \<le> b * (1 + e)" and "0 \<le> b" and "e \<le> 1 / 2"
  shows "\<bar>a - b\<bar> \<le> (1 + b) * e" and "b / 2 \<le> a"
proof -
  have "b * e \<le> b * (1 / 2)" using assms by (intro mult_left_mono) simp_all
  moreover have "b - b * e \<le> p" "p \<le> b + b * e" using assms by (simp_all add: algebra_simps)
  ultimately have "a - b \<le> e + b * e" "b - a \<le> b * e" "b / 2 \<le> a" "0 \<le> e"
    using assms by (simp_all add: field_simps)
  then show "\<bar>a - b\<bar> \<le> (1 + b) * e" "b / 2 \<le> a" by (simp_all add: algebra_simps abs_le_iff)
qed

lemma reduced_exponent:
  assumes "d < 0"
  defines "g \<equiv> - drop_bit FB (d * LOG2E)"
  shows "\<bar>exp (- (g / 2 ^ 30 * ln 2)) - exp (d / 2 ^ 30)\<bar> \<le> 2 / 2 ^ 30" and "0 \<le> g"
proof -
  define b :: real where "b = - d / 2 ^ 30"
  define l :: real where "l = LOG2E / 2 ^ 30"
  have b: "0 \<le> b" using assms by (simp add: b_def)
  have l: "0 < ln (2 :: real)" "ln (2 :: real) \<le> 1" using ln2_bounds by auto
  have G: "b * l \<le> g / 2 ^ 30" "g / 2 ^ 30 \<le> b * l + 1 / 2 ^ 30"
    using drop_bit_real [where x = "d * LOG2E" and n = FB]
    by (simp_all add: g_def b_def l_def FB_def field_simps)
  have p: "b * (l * ln 2) \<le> g / 2 ^ 30 * ln 2"
    using mult_right_mono [OF G(1), of "ln 2"] l by (simp add: mult.assoc)
  have "g / 2 ^ 30 * ln 2 \<le> b * (l * ln 2) + 1 / 2 ^ 30 * ln 2"
    using mult_right_mono [OF G(2), of "ln 2"] l by (simp add: distrib_right mult.assoc)
  moreover have "1 / 2 ^ 30 * ln 2 \<le> (1 / 2 ^ 30 :: real)" using l by simp
  ultimately have q: "g / 2 ^ 30 * ln 2 \<le> b * (l * ln 2) + 1 / 2 ^ 30" by linarith
  have s: "b * (1 - 1 / 2 ^ 30) \<le> b * (l * ln 2)" "b * (l * ln 2) \<le> b * (1 + 1 / 2 ^ 30)"
  proof -
    have "1 - 1 / 2 ^ 30 \<le> l * ln 2" "l * ln 2 \<le> 1 + 1 / 2 ^ 30" 
      using log2e_error [folded l_def] unfolding abs_le_iff by (auto simp: algebra_simps)
    then show "b * (1 - 1 / 2 ^ 30) \<le> b * (l * ln 2)" "b * (l * ln 2) \<le> b * (1 + 1 / 2 ^ 30)"
      using b by (intro mult_left_mono; simp)+
  qed
  note a = exponent_gap [OF p q s b, simplified]
  have "\<bar>exp (- (g / 2 ^ 30 * ln 2)) - exp (- b)\<bar> \<le> 2 * (1 / 2 ^ 30)" by (rule exp_diff_le [OF b]) (use a in simp_all)
  then show "\<bar>exp (- (g / 2 ^ 30 * ln 2)) - exp (d / 2 ^ 30)\<bar> \<le> 2 / 2 ^ 30" by (simp add: b_def)
  show "0 \<le> g"
    using assms(1) mult_nonpos_nonneg [of d LOG2E] by (simp add: g_def LOG2E_def drop_bit_eq_div div_nonpos_pos_le0)
qed

text \<open>The value at a reduced exponent \<open>g\<close>.\<close>

definition exp_reduced :: "int \<Rightarrow> int" where
  "exp_reduced g =
     (let n = drop_bit FB g; r = g mod 2 ^ 30 in
      if 32 \<le> n then 0 else if r \<noteq> 0 then drop_bit (nat n + 1) (exp2_frac (ONE - r)) else drop_bit (nat n) ONE)"

lemma exp_fixed_reduced:
  assumes "d < 0" and "- (2 ^ 62) \<le> d"
  shows "exp_fixed d = exp_reduced (- drop_bit FB (d * LOG2E))"
proof -
  let ?g = "- drop_bit FB (d * LOG2E)"
  have g0: "0 \<le> ?g" by (rule reduced_exponent(2) [OF assms(1)])
  have dl: "- (2 ^ 62 * LOG2E) \<le> d * LOG2E" "d * LOG2E \<le> 0"
    using mult_right_mono [OF assms(2), of LOG2E] assms(1) by (auto simp: LOG2E_def)
  have w: "i128 (d * LOG2E) = d * LOG2E" using dl by (intro i128_id) (simp_all add: LOG2E_def)
  have "drop_bit FB (- (2 ^ 62 * LOG2E)) \<le> drop_bit FB (d * LOG2E)"
    using dl(1) by (simp add: drop_bit_eq_div zdiv_mono1)
  then have gb: "?g < 2 ^ 63" by (simp add: LOG2E_def FB_def drop_bit_eq_div)
  then have ig: "i64 ?g = ?g" using g0 by (intro i64_id) simp_all
  let ?n = "drop_bit FB ?g"
  have n0: "0 \<le> ?n" using g0 by simp
  have md: "?g - push_bit FB ?n = ?g mod 2 ^ 30" "push_bit FB ?n \<le> ?g" "0 \<le> push_bit FB ?n"
    using g0 div_times_less_eq_dividend by (simp_all add: FB_def push_bit_eq_mult drop_bit_eq_div minus_div_mult_eq_mod)
  then have r: "i64 (?g - i64 (push_bit FB ?n)) = ?g mod 2 ^ 30"
    using gb by (simp add: i64_id)
  have "shr64 x (?n + 1) = drop_bit (nat ?n + 1) x" "shr64 x ?n = drop_bit (nat ?n) x" if "?n < 32" for x
    using that n0 by (simp_all add: shr64_def nat_add_distrib)
  then show ?thesis
    using assms(1) by (simp add: exp_fixed_def exp_reduced_def Let_def w ig r)
qed

lemma exp_ln2_shift:
  fixes x :: real
  shows "exp (- ((real n + x) * ln 2)) = exp (- (x * ln 2)) / 2 ^ n"
proof -
  have "exp (real n * ln 2) = (2 :: real) ^ n" by (simp add: exp_of_nat_mult)
  then show ?thesis by (simp add: distrib_right exp_add exp_minus exp_diff field_simps)
qed

lemma exp_reduced_error:
  assumes "0 \<le> g"
  shows "\<bar>exp_reduced g / 2 ^ 30 - exp (- (g / 2 ^ 30 * ln 2))\<bar> \<le> 1 / 2 ^ 30 + (13 / 2 ^ 30 + 31 / 10 ^ 6) / 2"
    and "0 \<le> exp_reduced g \<and> exp_reduced g \<le> ONE"
proof -
  define n where "n = nat (drop_bit FB g)"
  define r where "r = g mod 2 ^ 30"
  have n: "drop_bit FB g = int n" using assms by (simp add: n_def)
  have r: "0 \<le> r" "r < ONE" by (simp_all add: r_def ONE_def)
  have "g = 2 ^ 30 * (g div 2 ^ 30) + r" by (simp add: r_def)
  then have "real_of_int g = 2 ^ 30 * real n + r" using n by (simp add: drop_bit_eq_div FB_def)
  then have g: "real_of_int g / 2 ^ 30 = real n + r / 2 ^ 30" by (simp add: field_simps)
  have split: "exp (- (g / 2 ^ 30 * ln 2)) = exp (- (r / 2 ^ 30 * ln 2)) / 2 ^ n"
    unfolding g by (rule exp_ln2_shift)
  have le1: "exp (- (r / 2 ^ 30 * ln 2)) \<le> 1" using r by simp
  have red: "exp_reduced g = (if 32 \<le> n then 0 else if r \<noteq> 0 then drop_bit (n + 1) (exp2_frac (ONE - r)) else drop_bit n ONE)"
    by (simp add: exp_reduced_def Let_def n r_def)
  have "\<bar>exp_reduced g / 2 ^ 30 - exp (- (g / 2 ^ 30 * ln 2))\<bar> \<le> 1 / 2 ^ 30 + (13 / 2 ^ 30 + 31 / 10 ^ 6) / 2 \<and>
      0 \<le> exp_reduced g \<and> exp_reduced g \<le> ONE"
  proof (cases "32 \<le> n")
    case True
    have "exp (- (g / 2 ^ 30 * ln 2)) \<le> 1 / 2 ^ n" unfolding split using le1 by (simp add: divide_right_mono)
    also have "\<dots> \<le> 1 / 2 ^ 30" using True power_increasing [of 30 n "2 :: real"] by (simp add: frac_le)
    finally show ?thesis using True by (simp add: red ONE_def)
  next
    case small: False
    show ?thesis
    proof (cases "r = 0")
      case True
      have "\<bar>real_of_int (drop_bit n ONE) / 2 ^ 30 - 1 / 2 ^ n\<bar> \<le> 1 / 2 ^ 30"
        using drop_bit_real [where x = ONE and n = n] by (simp add: ONE_def field_simps abs_le_iff)
      moreover have "drop_bit n ONE \<le> ONE" by (rule drop_bit_le) (simp add: ONE_def)
      ultimately show ?thesis using True small split by (simp add: red ONE_def)
    next
      case False
      let ?E = "exp2_frac (ONE - r)" and ?x = "1 - r / 2 ^ 30 :: real"
      have E: "0 \<le> ?E" "?E < 2 ^ 31" using exp2_frac_range [of "ONE - r"] r by simp_all
      have x: "real_of_int (ONE - r) / 2 ^ 30 = ?x" by (simp add: ONE_def field_simps)
      have "exp (?x * ln 2) = exp (ln 2 + - (r / 2 ^ 30 * ln 2))" by (simp add: left_diff_distrib)
      then have "exp (- (r / 2 ^ 30 * ln 2)) = exp (?x * ln 2) / 2" unfolding exp_add by simp
      then have ex: "exp (- (g / 2 ^ 30 * ln 2)) = exp (?x * ln 2) / 2 ^ (n + 1)"
        unfolding split by (simp only: divide_divide_eq_left power_add power_one_right mult.commute)
      have "\<bar>?E / 2 ^ 30 - exp (?x * ln 2)\<bar> \<le> 13 / 2 ^ 30 + 31 / 10 ^ 6"
        using exp2_frac_error [of "ONE - r"] r unfolding x by simp
      then have "\<bar>?E / 2 ^ 30 - exp (?x * ln 2)\<bar> / 2 ^ (n + 1) \<le> (13 / 2 ^ 30 + 31 / 10 ^ 6) / 2 ^ (n + 1)"
        by (rule divide_right_mono) simp
      also have "\<dots> \<le> (13 / 2 ^ 30 + 31 / 10 ^ 6) / 2" by (intro divide_left_mono) simp_all
      finally have "\<bar>?E / 2 ^ 30 / 2 ^ (n + 1) - exp (?x * ln 2) / 2 ^ (n + 1)\<bar> \<le> (13 / 2 ^ 30 + 31 / 10 ^ 6) / 2"
        by (simp only: diff_divide_distrib [symmetric] abs_divide power_abs abs_numeral)
      moreover have "\<bar>drop_bit (n + 1) ?E / 2 ^ 30 - ?E / 2 ^ 30 / 2 ^ (n + 1)\<bar> \<le> 1 / 2 ^ 30"
        using drop_bit_real [where x = ?E and n = "n + 1"] by (simp add: field_simps abs_le_iff)
      ultimately have "\<bar>drop_bit (n + 1) ?E / 2 ^ 30 - exp (- (g / 2 ^ 30 * ln 2))\<bar> \<le> 1 / 2 ^ 30 + (13 / 2 ^ 30 + 31 / 10 ^ 6) / 2"
        unfolding ex by linarith
      moreover have "drop_bit (n + 1) ?E \<le> ONE"
      proof -
        have "drop_bit n (?E div 2) \<le> ?E div 2" using E(1) by (intro drop_bit_le) simp
        moreover have "drop_bit (n + 1) ?E = drop_bit n (?E div 2)" by (simp add: drop_bit_eq_div zdiv_zmult2_eq)
        ultimately show ?thesis using E(2) by (simp add: ONE_def)
      qed
      ultimately show ?thesis using False small E(1) by (simp add: red)
    qed
  qed
  then show "\<bar>exp_reduced g / 2 ^ 30 - exp (- (g / 2 ^ 30 * ln 2))\<bar> \<le> 1 / 2 ^ 30 + (13 / 2 ^ 30 + 31 / 10 ^ 6) / 2"
    "0 \<le> exp_reduced g \<and> exp_reduced g \<le> ONE" by blast+
qed

text \<open>
  The integer exponential is accurate: for every argument between \<open>- 2 ^ 62\<close> and 0 in units of \<open>2 ^ -30\<close>
  it is within \<open>2 * 10 ^ -5\<close> of the real exponential, lies between 0 and 1, and no step of it overflows.
\<close>

theorem exp_fixed_accurate:
  assumes "d \<le> 0" and "- (2 ^ 62) \<le> d"
  shows "\<bar>real_of_int (exp_fixed d) / 2 ^ 30 - exp (d / 2 ^ 30)\<bar> \<le> 2 / 10 ^ 5 \<and> 0 \<le> exp_fixed d \<and> exp_fixed d \<le> ONE"
proof (cases "d = 0")
  case True
  then show ?thesis by (simp add: exp_fixed_def ONE_def)
next
  case False
  then have neg: "d < 0" using assms by simp
  let ?g = "- drop_bit FB (d * LOG2E)"
  note red = reduced_exponent [OF neg] exp_reduced_error [OF reduced_exponent(2) [OF neg]]
  have "\<bar>real_of_int (exp_fixed d) / 2 ^ 30 - exp (d / 2 ^ 30)\<bar> \<le>
      (1 / 2 ^ 30 + (13 / 2 ^ 30 + 31 / 10 ^ 6) / 2) + 2 / 2 ^ 30"
    using red(1,3) unfolding exp_fixed_reduced [OF neg assms(2)] by linarith
  also have "\<dots> \<le> 2 / 10 ^ 5" by simp
  finally show ?thesis using red(4) unfolding exp_fixed_reduced [OF neg assms(2)] by blast
qed

theorem exp_fixed_accurate_witness:
  "exp_fixed (- 1073741824) = 395007470 \<and> \<bar>(395007470 :: real) / 2 ^ 30 - exp (- 1)\<bar> \<le> 2 / 10 ^ 5"
proof -
  have e: "exp_fixed (- 1073741824) = 395007470" by code_simp
  show ?thesis using exp_fixed_accurate [of "- 1073741824"] e by simp
qed

end
