(* ===== verification/Islands_Kernels.thy ===== *)
theory Islands_Kernels
  imports Islands_Exp "HOL-Library.Multiset"
begin

text \<open>
  What the integer kernels compute: softmax weights and \<^verbatim>\<open>tanh\<close> against the real functions, the overflow a
  masked logit causes, the scale of the norm, and the convergence of the rotation.
\<close>

lemmas enc_simps = enc_def enc_bits_def f32_nan_def f32_mant_def f32_scale_def Let_def

lemma enc_neg_infinity: "enc NEG_INFINITY 14 = - (2 ^ 63)"
  by (simp add: enc_simps NEG_INFINITY_def bit_numeral_rec)

lemma i64_eq_iff: "i64 x = i64 y \<longleftrightarrow> x mod 2 ^ 64 = y mod 2 ^ 64"
  by (simp add: i64_def signed_take_bit_eq_iff_take_bit_eq take_bit_eq_mod)

lemma i64_mod: "i64 x mod 2 ^ 64 = x mod 2 ^ 64"
  using take_bit_signed_take_bit [of 64 63 x] by (simp add: i64_def take_bit_eq_mod)

lemma i64_mult_left: "i64 (i64 x * y) = i64 (x * y)"
  unfolding i64_eq_iff by (metis i64_mod mod_mult_left_eq)

subsection \<open>Softmax\<close>

lemma softmax_weight_exact:
  assumes "z \<le> m" and "m - z \<le> 2 ^ 33"
  shows "softmax_weight m z = exp_fixed ((z - m) * 2 ^ 16)"
proof -
  have "i64 (z - m) = z - m" using assms by (intro i64_id) simp_all
  moreover have "i64 ((z - m) * ONE) = (z - m) * ONE" using assms by (intro i64_id) (simp_all add: ONE_def)
  moreover have "drop_bit 14 ((z - m) * ONE) = (z - m) * 2 ^ 16"
  proof -
    have "(z - m) * ONE = (z - m) * 2 ^ 16 * 2 ^ 14" by (simp add: ONE_def)
    then show ?thesis unfolding drop_bit_eq_div by (simp only: nonzero_mult_div_cancel_right) simp
  qed
  ultimately show ?thesis by (simp add: softmax_weight_def)
qed

lemma sum_list_nonneg_le:
  "list_all (\<lambda>x. 0 \<le> x \<and> x \<le> (B :: int)) xs \<Longrightarrow> 0 \<le> sum_list xs \<and> sum_list xs \<le> int (length xs) * B"
  by (induction xs) (auto simp: algebra_simps)

text \<open>
  C6. Softmax on a row whose logits are at most \<open>2 ^ 19\<close> apart: every weight is the exponential of the distance
  to the maximum up to \<open>2 * 10 ^ -5\<close>, the maximum itself has weight one, and the weights are divided by
  their exact sum, which is at least one.
\<close>

theorem softmax_accurate:
  assumes "z \<noteq> []" and "\<And>u v. u \<in> set z \<Longrightarrow> v \<in> set z \<Longrightarrow> enc u 14 - enc v 14 \<le> 2 ^ 33" and "length z < 2 ^ 64"
    and "m = Max ((\<lambda>v. enc v 14) ` set z)"
  shows "\<exists>e. softmax_weights z = Some e \<and> softmax_q_ref quot z = Some (map (\<lambda>x. quot x (sum_list e)) e) \<and>
    length e = length z \<and> ONE \<in> set e \<and> ONE \<le> sum_list e \<and>
    (\<forall>i < length z. 0 \<le> e ! i \<and> e ! i \<le> ONE \<and>
       \<bar>real_of_int (e ! i) / 2 ^ 30 - exp ((enc (z ! i) 14 - m) / 2 ^ 14)\<bar> \<le> 2 / 10 ^ 5)"
proof -
  define zi where "zi = map (\<lambda>v. enc v 14) z"
  define e where "e = map (softmax_weight m) zi"
  have m: "m = Max (set zi)" "m \<in> set zi" using assms(1,4) by (auto simp: zi_def intro: Max_in)
  have w: "softmax_weights z = Some e" using assms(1) m(1) by (simp add: softmax_weights_def zi_def e_def)
  have low: "x \<le> m \<and> m - x \<le> 2 ^ 33" if x: "x \<in> set zi" for x
  proof -
    obtain u where u: "u \<in> set z" "m = enc u 14" using m(2) by (auto simp: zi_def)
    obtain v where v: "v \<in> set z" "x = enc v 14" using x by (auto simp: zi_def)
    have "x \<le> m" using x m(1) by simp
    then show ?thesis using assms(2) [OF u(1) v(1)] u(2) v(2) by simp
  qed
  have each: "0 \<le> softmax_weight m x \<and> softmax_weight m x \<le> ONE \<and>
      \<bar>real_of_int (softmax_weight m x) / 2 ^ 30 - exp ((x - m) / 2 ^ 14)\<bar> \<le> 2 / 10 ^ 5" if x: "x \<in> set zi" for x
  proof -
    have q: "softmax_weight m x = exp_fixed ((x - m) * 2 ^ 16)" using low [OF x] by (intro softmax_weight_exact) simp_all
    have d: "(x - m) * 2 ^ 16 \<le> 0" "- (2 ^ 62) \<le> (x - m) * 2 ^ 16" using low [OF x] by simp_all
    have arg: "real_of_int ((x - m) * 2 ^ 16) / 2 ^ 30 = (x - m) / 2 ^ 14" by simp
    show ?thesis using exp_fixed_accurate [OF d] unfolding q arg by blast
  qed
  have "softmax_weight m m = ONE" by (simp add: softmax_weight_def i64_def exp_fixed_def)
  then have one: "ONE \<in> set e" using m(2) by (force simp: e_def)
  have range: "list_all (\<lambda>x. 0 \<le> x \<and> x \<le> ONE) e" using each by (auto simp: e_def list_all_iff)
  have sums: "0 \<le> sum_list e" "sum_list e \<le> int (length z) * ONE"
    using sum_list_nonneg_le [OF range] by (simp_all add: e_def zi_def)
  have "int (length z) * ONE < 2 ^ 127" using assms(3) by (simp add: ONE_def)
  then have wide: "i128 (sum_list e) = sum_list e" using sums by (intro i128_id) simp_all
  have "ONE \<le> sum_list e" using one range by (intro member_le_sum_list) (auto simp: list_all_iff)
  moreover have "0 \<le> e ! i \<and> e ! i \<le> ONE \<and> \<bar>real_of_int (e ! i) / 2 ^ 30 - exp ((enc (z ! i) 14 - m) / 2 ^ 14)\<bar> \<le> 2 / 10 ^ 5"
    if "i < length z" for i
    using each [of "zi ! i"] that by (simp add: e_def zi_def)
  ultimately show ?thesis using w wide one by (simp add: softmax_q_ref_def e_def zi_def)
qed

theorem softmax_accurate_witness:
  "\<exists>e. softmax_weights [0x3F800000, 0x40000000] = Some e \<and> \<bar>real_of_int (e ! 0) / 2 ^ 30 - exp (- 1)\<bar> \<le> 2 / 10 ^ 5"
proof -
  have v: "enc 0x3F800000 14 = 16384" "enc 0x40000000 14 = 32768"
    by (simp_all add: enc_simps bit_numeral_rec)
  let ?z = "[0x3F800000, 0x40000000] :: f32 list"
  have "\<exists>e. softmax_weights ?z = Some e \<and> softmax_q_ref (\<lambda>a b. 0) ?z = Some (map (\<lambda>x. 0) e) \<and>
    length e = length ?z \<and> ONE \<in> set e \<and> ONE \<le> sum_list e \<and>
    (\<forall>i < length ?z. 0 \<le> e ! i \<and> e ! i \<le> ONE \<and>
       \<bar>real_of_int (e ! i) / 2 ^ 30 - exp ((enc (?z ! i) 14 - 32768) / 2 ^ 14)\<bar> \<le> 2 / 10 ^ 5)"
    by (rule softmax_accurate) (auto simp: v)
  then obtain e where e: "softmax_weights ?z = Some e" and all: "\<forall>i < length ?z. 0 \<le> e ! i \<and> e ! i \<le> ONE \<and>
       \<bar>real_of_int (e ! i) / 2 ^ 30 - exp ((enc (?z ! i) 14 - 32768) / 2 ^ 14)\<bar> \<le> 2 / 10 ^ 5" by blast
  have "\<bar>real_of_int (e ! 0) / 2 ^ 30 - exp (- 1)\<bar> \<le> 2 / 10 ^ 5"
    using all [rule_format, of 0] by (simp add: v)
  with e show ?thesis by blast
qed

text \<open>
  C32. A masked position is not masked: the weight of a logit \<open>-inf\<close> is computed from a wrapped product and comes
  out as the weight of the logit 0, whatever the maximum of the row is. With a row \<open>[0, -inf]\<close> both positions
  get the same weight one.
\<close>

theorem softmax_ignores_mask:
  "softmax_weight m (enc NEG_INFINITY 14) = softmax_weight m 0 \<and> softmax_weights [0, NEG_INFINITY] = Some [ONE, ONE]"
proof -
  have "(- (2 ^ 63) - m) * ONE = (0 - m) * ONE + 2 ^ 64 * (- (2 ^ 29))" for m by (simp add: ONE_def algebra_simps)
  then have "i64 ((- (2 ^ 63) - m) * ONE) = i64 ((0 - m) * ONE)" for m
    unfolding i64_eq_iff by (simp only: mod_mult_self2)
  then have same: "softmax_weight m (enc NEG_INFINITY 14) = softmax_weight m 0" for m
    unfolding softmax_weight_def enc_neg_infinity i64_mult_left by simp
  have "enc 0 14 = 0" by (simp add: enc_simps)
  moreover have "softmax_weight 0 0 = ONE" by (simp add: softmax_weight_def exp_fixed_def i64_def)
  ultimately show ?thesis using same [of 0] same [of m] by (simp add: softmax_weights_def enc_neg_infinity)
qed

subsection \<open>The hyperbolic tangent\<close>

lemma scaled_floor: "K * 2 ^ 30 - 1 < q \<Longrightarrow> q \<le> K * 2 ^ 30 \<Longrightarrow> \<bar>q / 2 ^ 30 - K\<bar> \<le> (1 / 2 ^ 30 :: real)"
  by (simp add: abs_le_iff field_simps)

lemma abs_neg_diff: "\<bar>a - (- b)\<bar> \<le> c \<Longrightarrow> \<bar>- a - b\<bar> \<le> (c :: real)"
  by linarith

lemma tanh_ratio_error:
  fixes x y d :: real
  assumes "0 \<le> x" and "0 \<le> y" and "\<bar>x - y\<bar> \<le> d"
  shows "\<bar>2 * x / (1 + x) - 2 * y / (1 + y)\<bar> \<le> 2 * d"
proof -
  have "2 * x / (1 + x) - 2 * y / (1 + y) = 2 * (x - y) / ((1 + x) * (1 + y))"
    using assms by (simp add: divide_simps) (simp add: algebra_simps)
  also have "\<bar>\<dots>\<bar> \<le> \<bar>2 * (x - y)\<bar> / 1"
  proof -
    have "1 \<le> (1 + x) * (1 + y)" using assms by (simp add: algebra_simps)
    then have "\<bar>2 * (x - y)\<bar> / ((1 + x) * (1 + y)) \<le> \<bar>2 * (x - y)\<bar> / 1" by (intro divide_left_mono) simp_all
    then show ?thesis using assms by (simp only: abs_divide abs_of_nonneg [of "(1 + x) * (1 + y)"] mult_nonneg_nonneg add_nonneg_nonneg zero_le_one)
  qed
  finally show ?thesis using assms(3) by simp
qed

lemma two_step_error:
  fixes q a b :: real
  assumes "\<bar>q - a\<bar> \<le> d1" and "\<bar>a - b\<bar> \<le> d2" and "T = 1 - q" and "h = 1 - b" and "d1 + d2 \<le> d"
  shows "\<bar>T - h\<bar> \<le> d"
  using assms by linarith

lemma tanh_fixed_nonneg:
  assumes "0 \<le> t" and "t \<le> 2 ^ 61"
  defines "e \<equiv> exp_fixed (- (2 * t))"
  shows "tanh_fixed t = ONE - 2 * e * 2 ^ 30 div (ONE + e)" and "0 \<le> e" and "e \<le> ONE"
    and "0 \<le> tanh_fixed t" and "tanh_fixed t \<le> ONE"
    and "\<bar>tanh_fixed t / 2 ^ 30 - tanh (t / 2 ^ 30)\<bar> \<le> 5 / 10 ^ 5"
proof -
  have acc: "\<bar>real_of_int e / 2 ^ 30 - exp (- 2 * (t / 2 ^ 30))\<bar> \<le> 2 / 10 ^ 5 \<and> 0 \<le> e \<and> e \<le> ONE"
    using exp_fixed_accurate [of "- (2 * t)"] assms by (simp add: e_def)
  then show e: "0 \<le> e" "e \<le> ONE" by blast+
  have "i64 \<bar>t\<bar> = t" "i64 (2 * t) = 2 * t" "i64 (- (2 * t)) = - (2 * t)" using assms by (auto intro!: i64_id)
  moreover have "i64 (2 * e) = 2 * e" "i64 (push_bit FB (2 * e)) = 2 * e * 2 ^ 30"
    using e by (auto intro!: i64_id simp: ONE_def FB_def push_bit_eq_mult)
  moreover define q where "q = 2 * e * 2 ^ 30 div (ONE + e)"
  moreover have q: "0 \<le> q" "q \<le> ONE"
  proof -
    show "0 \<le> q" unfolding q_def using e by (intro pos_imp_zdiv_nonneg_iff [THEN iffD2]) (simp_all add: ONE_def)
    have "2 * e * 2 ^ 30 \<le> ONE * (ONE + e)" using e by (simp add: ONE_def)
    then have "q \<le> ONE * (ONE + e) div (ONE + e)" unfolding q_def using e by (intro zdiv_mono1) (simp_all add: ONE_def)
    also have "\<dots> = ONE" using e by (intro nonzero_mult_div_cancel_right) (simp add: ONE_def)
    finally show "q \<le> ONE" .
  qed
  moreover have "i64 (ONE - q) = ONE - q" using q by (intro i64_id) (simp_all add: ONE_def)
  ultimately have th: "tanh_fixed t = ONE - q"
    using assms(1) by (simp add: tanh_fixed_def Let_def e_def)
  then show "tanh_fixed t = ONE - 2 * e * 2 ^ 30 div (ONE + e)" "0 \<le> tanh_fixed t" "tanh_fixed t \<le> ONE"
    using q by (simp_all add: q_def)
  define x where "x = real_of_int e / 2 ^ 30"
  define y where "y = exp (- 2 * (t / 2 ^ 30))"
  have "real_of_int (2 * e * 2 ^ 30) / real_of_int (ONE + e) - 1 < q" "q \<le> real_of_int (2 * e * 2 ^ 30) / real_of_int (ONE + e)"
    unfolding q_def by (rule div_real)+
  moreover have "real_of_int (2 * e * 2 ^ 30) / real_of_int (ONE + e) = 2 * x / (1 + x) * 2 ^ 30"
    using e by (simp add: x_def ONE_def field_simps)
  ultimately have s1: "\<bar>q / 2 ^ 30 - 2 * x / (1 + x)\<bar> \<le> 1 / 2 ^ 30" by (intro scaled_floor) simp_all
  have s2: "\<bar>2 * x / (1 + x) - 2 * y / (1 + y)\<bar> \<le> 2 * (2 / 10 ^ 5)"
    by (rule tanh_ratio_error) (use acc e in \<open>simp_all add: x_def y_def\<close>)
  have s4: "tanh (t / 2 ^ 30) = 1 - 2 * y / (1 + y)"
  proof -
    have "0 < 1 + y" by (simp add: y_def add_pos_pos)
    moreover have "tanh (t / 2 ^ 30) = (1 - y) / (1 + y)" by (simp only: tanh_real_altdef y_def)
    ultimately show ?thesis by (simp add: field_simps)
  qed
  have s3: "tanh_fixed t / 2 ^ 30 = 1 - q / 2 ^ 30" by (simp add: th ONE_def field_simps)
  show "\<bar>tanh_fixed t / 2 ^ 30 - tanh (t / 2 ^ 30)\<bar> \<le> 5 / 10 ^ 5"
    by (rule two_step_error [OF s1 s2 s3 s4]) simp
qed

text \<open>
  The integer hyperbolic tangent is odd, stays between -1 and 1 and is within \<open>5 * 10 ^ -5\<close> of the real
  function for every argument of magnitude up to \<open>2 ^ 61\<close>.
\<close>

theorem tanh_fixed_accurate:
  assumes "\<bar>t\<bar> \<le> 2 ^ 61"
  shows "\<bar>tanh_fixed t / 2 ^ 30 - tanh (t / 2 ^ 30)\<bar> \<le> 5 / 10 ^ 5 \<and> \<bar>tanh_fixed t\<bar> \<le> ONE \<and> tanh_fixed (- t) = - tanh_fixed t"
proof -
  have odd: "tanh_fixed (- u) = - tanh_fixed u" if "0 < u" "u \<le> 2 ^ 61" for u
  proof -
    have "tanh_fixed (- u) = i64 (- 1 * i64 (tanh_fixed u))"
      using that by (simp add: tanh_fixed_def Let_def i64_def)
    also have "\<dots> = - tanh_fixed u"
      using tanh_fixed_nonneg [of u] that by (simp add: i64_id ONE_def)
    finally show ?thesis .
  qed
  have zero: "tanh_fixed 0 = 0" by (simp add: tanh_fixed_def exp_fixed_def i64_def ONE_def FB_def push_bit_eq_mult)
  show ?thesis
  proof (cases "0 \<le> t")
    case True
    then have "tanh_fixed (- t) = - tanh_fixed t" using odd [of t] zero assms by (cases "t = 0") simp_all
    then show ?thesis using tanh_fixed_nonneg(4-6) [of t] assms True by simp
  next
    case False
    then have u: "0 < - t" "- t \<le> 2 ^ 61" using assms by auto
    have neg: "tanh_fixed t = - tanh_fixed (- t)" using odd [OF u] by simp
    have "\<bar>tanh_fixed (- t) / 2 ^ 30 - tanh (- (t / 2 ^ 30))\<bar> \<le> 5 / 10 ^ 5"
      using tanh_fixed_nonneg(6) [of "- t"] u by simp
    then have "\<bar>tanh_fixed t / 2 ^ 30 - tanh (t / 2 ^ 30)\<bar> \<le> 5 / 10 ^ 5"
      unfolding neg tanh_minus of_int_minus minus_divide_left [symmetric] by (rule abs_neg_diff)
    moreover have "\<bar>tanh_fixed t\<bar> \<le> ONE" using tanh_fixed_nonneg(4,5) [of "- t"] u unfolding neg by simp
    ultimately show ?thesis using neg by simp
  qed
qed

theorem tanh_fixed_accurate_witness:
  "tanh_fixed (- 1073741824) = - 817755500 \<and> \<bar>(817755500 :: real) / 2 ^ 30 - tanh 1\<bar> \<le> 5 / 10 ^ 5"
proof -
  have e: "tanh_fixed 1073741824 = 817755500" by code_simp
  show ?thesis using tanh_fixed_accurate [of 1073741824] e by simp
qed

subsection \<open>The norm\<close>

text \<open>
  The scale of the norm: for a row that is not all zero and whose squares sum to less than \<open>2 ^ 127\<close>, the
  factor is the floor of the square root of \<open>n * 2 ^ 72\<close> over that sum, computed without overflow and the same
  for every order of the row.
\<close>

theorem rms_inv_floor:
  assumes "length xi < 2 ^ 50" and "S = sum_list (map (\<lambda>a. a * a) xi)" and "0 < S" and "S < 2 ^ 127"
  shows "\<exists>iv. rms_inv xi = Some iv \<and> 0 \<le> iv \<and> iv ^ 2 \<le> int (length xi) * 2 ^ 72 div S \<and>
    int (length xi) * 2 ^ 72 div S < (iv + 1) ^ 2 \<and> (\<forall>yi. mset yi = mset xi \<longrightarrow> rms_inv yi = rms_inv xi)"
proof -
  define q where "q = length xi * 2 ^ 72 div nat S"
  have w: "i128 S = S" using assms(3,4) by (intro i128_id) simp_all
  have n: "u128 (length xi * 2 ^ 72) = length xi * 2 ^ 72" using assms(1) by (intro u128_id) simp
  have "q \<le> length xi * 2 ^ 72" by (simp add: q_def)
  then have "q < 2 ^ 122" using assms(1) by simp
  then have fl: "(isqrt_u128 q) ^ 2 \<le> q \<and> q < (isqrt_u128 q + 1) ^ 2" by (intro isqrt_floor_lemma) simp
  have "isqrt_u128 q < 2 ^ 64"
  proof (rule power2_less_imp_less)
    show "(isqrt_u128 q) ^ 2 < (2 ^ 64) ^ 2" using fl \<open>q < 2 ^ 122\<close> by simp
  qed simp
  then have iw: "i128 (int (isqrt_u128 q)) = int (isqrt_u128 q)" by (intro i128_id) simp_all
  have val: "rms_inv xi = Some (int (isqrt_u128 q))"
  proof -
    have nz: "(S \<le> 0) = False" using assms(3) by simp
    show ?thesis unfolding rms_inv_def assms(2) [symmetric] Let_def w nz if_False n q_def [symmetric] iw ..
  qed
  have qi: "int q = int (length xi) * 2 ^ 72 div S" using assms(3) by (simp add: q_def zdiv_int)
  have "rms_inv yi = rms_inv xi" if "mset yi = mset xi" for yi
  proof -
    have "length yi = length xi" using that by (rule mset_eq_length)
    moreover have "sum_list (map (\<lambda>a. a * a) yi) = sum_list (map (\<lambda>a. a * a) xi)"
      by (simp only: sum_mset_sum_list [symmetric] mset_map that)
    ultimately show ?thesis by (simp only: rms_inv_def Let_def)
  qed
  moreover have "(int (isqrt_u128 q)) ^ 2 \<le> int q" "int q < (int (isqrt_u128 q) + 1) ^ 2"
    using fl by (metis of_nat_le_iff of_nat_power, metis of_nat_1 of_nat_add of_nat_less_iff of_nat_power)
  ultimately show ?thesis unfolding val qi by (intro exI [of _ "int (isqrt_u128 q)"]) simp
qed

theorem rms_inv_floor_witness: "\<exists>iv. rms_inv [3, 4] = Some iv \<and> iv ^ 2 \<le> 2 * 2 ^ 72 div 25 \<and> rms_inv [4, 3] = rms_inv [3, 4]"
proof -
  have len: "length [3, 4 :: int] < 2 ^ 50" and s: "25 = sum_list (map (\<lambda>a. a * a) [3, 4 :: int])" by simp_all
  have perm: "mset [4, 3] = mset [3, 4 :: int]" by simp
  have two: "int (length [3, 4 :: int]) = 2" by simp
  have pos: "0 < (25 :: int)" "(25 :: int) < 2 ^ 127" by simp_all
  obtain iv where iv: "rms_inv [3, 4] = Some iv \<and> 0 \<le> iv \<and> iv ^ 2 \<le> 2 * 2 ^ 72 div 25 \<and>
      2 * 2 ^ 72 div 25 < (iv + 1) ^ 2 \<and> (\<forall>yi. mset yi = mset [3, 4] \<longrightarrow> rms_inv yi = rms_inv [3, 4])"
    using rms_inv_floor [OF len s pos] unfolding two by (rule exE)
  then have "rms_inv [4, 3] = rms_inv [3, 4]" using perm by blast
  then show ?thesis using iv by blast
qed

end
