(* ===== verification/Islands_Cordic.thy ===== *)
theory Islands_Cordic
  imports Islands_Exp
begin

text \<open>
  The rotation of \<^verbatim>\<open>cordic_cossin\<close>: the pseudo-rotations converge to the angle, nothing wraps, and the result is
  the cosine and the sine up to \<open>10 ^ -6\<close>. The real arctangents come from their alternating series.
\<close>

subsection \<open>Arctangents\<close>

definition atan_sum :: "nat \<Rightarrow> real \<Rightarrow> real" where
  "atan_sum n x = (\<Sum>i<n. (-1) ^ i * (1 / real (i * 2 + 1) * x ^ (i * 2 + 1)))"

lemma arctan_bounds:
  assumes "0 \<le> x" and "x \<le> 1"
  shows "atan_sum (2 * n) x \<le> arctan x" and "arctan x \<le> atan_sum (2 * n + 1) x"
proof -
  let ?a = "\<lambda>i. 1 / real (i * 2 + 1) * x ^ (i * 2 + 1)"
  have "\<bar>x\<bar> \<le> 1" using assms by simp
  then have z: "?a \<longlonglongrightarrow> 0" and s: "arctan x = (\<Sum>i. (-1) ^ i * ?a i)"
    by (rule zeroseq_arctan_series, rule arctan_series)
  have nn: "0 \<le> ?a i" for i using assms by simp
  have dec: "?a (Suc i) \<le> ?a i" for i
    using assms by (intro mult_mono power_decreasing) (simp_all add: frac_le)
  show "atan_sum (2 * n) x \<le> arctan x" unfolding atan_sum_def s by (rule summable_Leibniz'(2) [OF z nn dec])
  show "arctan x \<le> atan_sum (2 * n + 1) x" unfolding atan_sum_def s by (rule summable_Leibniz'(4) [OF z nn dec])
qed

lemma atan_sum_Suc: "atan_sum (Suc n) x = atan_sum n x + (-1) ^ n * (1 / real (n * 2 + 1) * x ^ (n * 2 + 1))"
  by (simp add: atan_sum_def)

lemma atan_sum_0: "atan_sum 0 x = 0"
  by (simp add: atan_sum_def)

definition atan_lo :: "real \<Rightarrow> real" where
  "atan_lo x = x - x ^ 3 / 3 + x ^ 5 / 5 - x ^ 7 / 7 + x ^ 9 / 9 - x ^ 11 / 11 + x ^ 13 / 13 - x ^ 15 / 15 +
    x ^ 17 / 17 - x ^ 19 / 19 + x ^ 21 / 21 - x ^ 23 / 23"

lemma arctan_lo_hi:
  assumes "0 \<le> x" and "x \<le> 1"
  shows "atan_lo x \<le> arctan x" and "arctan x \<le> atan_lo x + x ^ 25 / 25"
proof -
  have n: "12 = Suc (Suc (Suc (Suc (Suc (Suc (Suc (Suc (Suc (Suc (Suc (Suc 0)))))))))))" by simp
  have s12: "atan_sum 12 x = atan_lo x"
    unfolding n atan_sum_Suc atan_sum_0 by (simp add: atan_lo_def)
  show "atan_lo x \<le> arctan x" using arctan_bounds(1) [OF assms, of 6] s12 by simp
  have "atan_sum 13 x = atan_sum 12 x + x ^ 25 / 25" using atan_sum_Suc [of 12 x] by simp
  then show "arctan x \<le> atan_lo x + x ^ 25 / 25" using arctan_bounds(2) [OF assms, of 6] s12 by simp
qed

lemma arctan_near:
  assumes "0 \<le> x" and "x \<le> 1" and "a - d \<le> atan_lo x" and "atan_lo x + x ^ 25 / 25 \<le> a + d"
  shows "\<bar>arctan x - a\<bar> \<le> d"
  using arctan_lo_hi [OF assms(1,2)] assms(3,4) by linarith

lemma pi_near: "\<bar>pi - 3373259426 / 2 ^ 30\<bar> \<le> 1 / 2 ^ 30"
proof -
  have "\<bar>arctan (1 / 5) - 197395559850 / 10 ^ 12\<bar> \<le> 1 / 10 ^ 12"
    by (rule arctan_near) (simp_all add: atan_lo_def power_divide)
  moreover have "\<bar>arctan (1 / 239) - 4184076002 / 10 ^ 12\<bar> \<le> 1 / 10 ^ 12"
    by (rule arctan_near) (simp_all add: atan_lo_def power_divide)
  moreover have "pi = 16 * arctan (1 / 5) - 4 * arctan (1 / 239)" using machin by simp
  ultimately show ?thesis unfolding abs_le_iff by (intro conjI; simp)
qed

subsection \<open>What a table must satisfy\<close>

text \<open>Every entry is close to its arctangent, and no entry exceeds what the rest can undo, up to two units.\<close>

fun table_ok :: "nat \<Rightarrow> int list \<Rightarrow> bool" where
  "table_ok k [] = True"
| "table_ok k (a # as) = (\<bar>arctan (1 / 2 ^ k) - a / 2 ^ 30\<bar> \<le> 4 / 2 ^ 30 \<and> table_ok (Suc k) as)"

fun converges :: "int list \<Rightarrow> bool" where
  "converges [] = True"
| "converges (a # as) = (0 \<le> a \<and> a \<le> sum_list as + 2 \<and> converges as)"

fun gain :: "nat \<Rightarrow> int list \<Rightarrow> real" where
  "gain k [] = 1"
| "gain k (a # as) = sqrt (1 + (1 / 2 ^ k)\<^sup>2) * gain (Suc k) as"

fun gain_sq :: "nat \<Rightarrow> int list \<Rightarrow> real" where
  "gain_sq k [] = 1"
| "gain_sq k (a # as) = (1 + (1 / 2 ^ k)\<^sup>2) * gain_sq (Suc k) as"

fun floor_err :: "nat \<Rightarrow> int list \<Rightarrow> real \<Rightarrow> real" where
  "floor_err k [] e = e"
| "floor_err k (a # as) e = floor_err (Suc k) as ((1 + (1 / 2 ^ k)\<^sup>2 / 2) * e + 2)"

lemma gain_pos: "0 < gain k as"
  by (induction as arbitrary: k) (simp_all add: add_pos_nonneg)

lemma gain_square: "(gain k as)\<^sup>2 = gain_sq k as"
  by (induction as arbitrary: k) (simp_all add: power_mult_distrib)

lemma table_ok_nth: "table_ok k as \<longleftrightarrow> (\<forall>i < length as. \<bar>arctan (1 / 2 ^ (k + i)) - real_of_int (as ! i) / 2 ^ 30\<bar> \<le> 4 / 2 ^ 30)"
  by (induction as arbitrary: k) (simp_all add: All_less_Suc2)

lemma arctan_small:
  assumes "10 \<le> k"
  shows "\<bar>arctan (1 / 2 ^ k) - 1 / 2 ^ k\<bar> \<le> 4 / 2 ^ 30"
proof -
  define x where "x = (1 / 2 ^ k :: real)"
  have x: "0 \<le> x" "x \<le> 1 / 2 ^ 10" using assms by (simp_all add: x_def frac_le del: power_numeral)
  have "x \<le> 1" using x(2) by simp
  moreover have "atan_sum 2 x = x - x ^ 3 / 3" "atan_sum 1 x = x" by (simp_all add: atan_sum_def numeral_2_eq_2 numeral_3_eq_3)
  ultimately have "x - x ^ 3 / 3 \<le> arctan x" "arctan x \<le> x" using arctan_bounds [of x 1] arctan_bounds [of x 0] x(1) by simp_all
  moreover have "x ^ 3 \<le> (1 / 2 ^ 10) ^ 3" using x by (intro power_mono)
  ultimately show ?thesis unfolding x_def [symmetric] abs_le_iff by (intro conjI; simp add: power_divide)
qed

lemma arctan_first:
  "\<bar>arctan (1 / 2) - 497837829 / 2 ^ 30\<bar> \<le> 4 / 2 ^ 30" "\<bar>arctan (1 / 4) - 263043837 / 2 ^ 30\<bar> \<le> 4 / 2 ^ 30"
  "\<bar>arctan (1 / 8) - 133525159 / 2 ^ 30\<bar> \<le> 4 / 2 ^ 30" "\<bar>arctan (1 / 16) - 67021687 / 2 ^ 30\<bar> \<le> 4 / 2 ^ 30"
  "\<bar>arctan (1 / 32) - 33543516 / 2 ^ 30\<bar> \<le> 4 / 2 ^ 30" "\<bar>arctan (1 / 64) - 16775851 / 2 ^ 30\<bar> \<le> 4 / 2 ^ 30"
  "\<bar>arctan (1 / 128) - 8388437 / 2 ^ 30\<bar> \<le> 4 / 2 ^ 30" "\<bar>arctan (1 / 256) - 4194283 / 2 ^ 30\<bar> \<le> 4 / 2 ^ 30"
  "\<bar>arctan (1 / 512) - 2097149 / 2 ^ 30\<bar> \<le> 4 / 2 ^ 30"
  by (rule arctan_near, simp, simp, simp add: atan_lo_def power_divide, simp add: atan_lo_def power_divide)+

lemma atan_nth:
  "ATAN_FB30 ! 1 = 497837829" "ATAN_FB30 ! 2 = 263043837" "ATAN_FB30 ! 3 = 133525159" "ATAN_FB30 ! 4 = 67021687"
  "ATAN_FB30 ! 5 = 33543516" "ATAN_FB30 ! 6 = 16775851" "ATAN_FB30 ! 7 = 8388437" "ATAN_FB30 ! 8 = 4194283"
  "ATAN_FB30 ! 9 = 2097149"
  by (simp_all add: ATAN_FB30_def)

lemma two_powers:
  "(2 :: real) ^ 1 = 2" "(2 :: real) ^ 2 = 4" "(2 :: real) ^ 3 = 8" "(2 :: real) ^ 4 = 16" "(2 :: real) ^ 5 = 32"
  "(2 :: real) ^ 6 = 64" "(2 :: real) ^ 7 = 128" "(2 :: real) ^ 8 = 256" "(2 :: real) ^ 9 = 512"
  by simp_all

lemma atan_entry:
  assumes i: "i < length ATAN_FB30"
  shows "\<bar>arctan (1 / 2 ^ i) - ATAN_FB30 ! i / 2 ^ 30\<bar> \<le> 4 / 2 ^ 30"
proof -
  consider "i = 0" | "i \<in> {1..9}" | "10 \<le> i" by force
  then show ?thesis
  proof cases
    case 1
    have "\<bar>pi / 4 - 843314857 / 2 ^ 30\<bar> \<le> 4 / 2 ^ 30"
      using pi_near unfolding abs_le_iff by (intro conjI; simp)
    then show ?thesis using 1 by (simp add: ATAN_FB30_def arctan_one)
  next
    case 2
    then have "i = 1 \<or> i = 2 \<or> i = 3 \<or> i = 4 \<or> i = 5 \<or> i = 6 \<or> i = 7 \<or> i = 8 \<or> i = 9" by auto
    then show ?thesis by (elim disjE) (simp_all only: atan_nth two_powers arctan_first add_0 of_int_numeral)
  next
    case 3
    have u: "[10..<30] = [10, 11, 12, 13, 14, 15, 16, 17, 18, 19, 20, 21, 22, 23, 24, 25, 26, 27, 28, 29]" by (simp add: upt_conv_Cons)
    have "list_all (\<lambda>j. ATAN_FB30 ! j * 2 ^ j = 2 ^ 30) [10..<30]" unfolding u by (simp add: ATAN_FB30_def)
    moreover have "length ATAN_FB30 = 30" by (simp add: ATAN_FB30_def)
    then have "i \<in> set [10..<30]" using 3 i by (simp only: set_upt atLeastLessThan_iff)
    ultimately have "ATAN_FB30 ! i * 2 ^ i = 2 ^ 30" unfolding list_all_iff by (rule bspec)
    then have "real_of_int (ATAN_FB30 ! i) * 2 ^ i = 2 ^ 30" by (metis of_int_mult of_int_power of_int_numeral)
    then have "ATAN_FB30 ! i / (2 :: real) ^ 30 = 1 / 2 ^ i" by (simp add: field_simps)
    then show ?thesis using arctan_small [OF 3] by simp
  qed
qed

lemma table_atan: "table_ok 0 ATAN_FB30"
  by (auto simp only: table_ok_nth add_0 intro: atan_entry)

lemma table_converges: "converges ATAN_FB30"
  by (simp add: ATAN_FB30_def)

lemma cordic_gain: "\<bar>CORDIC_K * gain 0 ATAN_FB30 - 2 ^ 30\<bar> \<le> 4"
proof -
  let ?g = "CORDIC_K * gain 0 ATAN_FB30"
  have sq: "?g ^ 2 = CORDIC_K ^ 2 * gain_sq 0 ATAN_FB30" by (simp add: power_mult_distrib gain_square)
  have pos: "0 \<le> ?g" using gain_pos [of 0 ATAN_FB30] by (simp add: CORDIC_K_def)
  have "(2 ^ 30 - 4) ^ 2 \<le> ?g ^ 2" unfolding sq by (simp add: ATAN_FB30_def CORDIC_K_def power_divide)
  then have lo: "2 ^ 30 - 4 \<le> ?g" using pos by (rule power2_le_imp_le)
  have "?g ^ 2 \<le> (2 ^ 30 + 4) ^ 2" unfolding sq by (simp add: ATAN_FB30_def CORDIC_K_def power_divide)
  then have "?g \<le> 2 ^ 30 + 4" by (rule power2_le_imp_le) simp
  then show ?thesis using lo by linarith
qed

lemma cordic_floor_err: "floor_err 0 ATAN_FB30 0 \<le> 120"
  by (simp add: ATAN_FB30_def power_divide)

subsection \<open>One pseudo-rotation\<close>

lemma floor_shift:
  "0 \<le> x / 2 ^ k - real_of_int (drop_bit k x)" "x / 2 ^ k - real_of_int (drop_bit k x) < 1" for x :: int and k :: nat
  using drop_bit_real [where x = x and n = k] by simp_all

lemma rotate_cis: "Complex 1 t = complex_of_real (sqrt (1 + t\<^sup>2)) * cis (arctan t)"
proof -
  have "0 < sqrt (1 + t\<^sup>2)" by (simp add: add_pos_nonneg)
  then show ?thesis by (simp add: complex_eq_iff cos_arctan sin_arctan)
qed

lemma sqrt_step: "sqrt (1 + t\<^sup>2) \<le> 1 + t\<^sup>2 / 2"
proof (rule real_le_lsqrt)
  have "(1 + t\<^sup>2 / 2)\<^sup>2 = 1 + t\<^sup>2 + (t\<^sup>2 / 2)\<^sup>2" by (simp add: power2_eq_square algebra_simps)
  then show "1 + t\<^sup>2 \<le> (1 + t\<^sup>2 / 2)\<^sup>2" by simp
qed simp_all

text \<open>One step in the direction \<open>s\<close>: the vector is turned by \<open>s * arctan (1 / 2 ^ k)\<close> and stretched, up to the floors.\<close>

lemma rotation_step:
  fixes s :: real and x y :: int
  assumes "s = 1 \<or> s = - 1"
    and "cmod (Complex x y - G * cis \<phi>) \<le> e"
    and "x' = x - s * drop_bit k y" and "y' = y + s * drop_bit k x"
  shows "cmod (Complex x' y' - (G * sqrt (1 + (1 / 2 ^ k)\<^sup>2)) * cis (\<phi> + s * arctan (1 / 2 ^ k)))
    \<le> (1 + (1 / 2 ^ k)\<^sup>2 / 2) * e + 2"
proof -
  define t where "t = (1 / 2 ^ k :: real)"
  define d where "d = Complex (s * (y / 2 ^ k - drop_bit k y)) (- s * (x / 2 ^ k - drop_bit k x))"
  have atan: "arctan (s * t) = s * arctan t" and sq: "(s * t)\<^sup>2 = t\<^sup>2" and s: "\<bar>s\<bar> = 1"
    and s1: "s\<^sup>2 = 1" using assms(1) by (auto simp: arctan_minus)
  have w: "Complex x' y' = Complex x y * Complex 1 (s * t) + d"
    using assms(3,4) by (simp add: complex_eq_iff d_def t_def algebra_simps)
  have turn: "(G * sqrt (1 + t\<^sup>2)) * cis (\<phi> + s * arctan t) = (G * cis \<phi>) * Complex 1 (s * t)"
    using rotate_cis [of "s * t"] by (simp add: atan sq s1 cis_mult [symmetric] algebra_simps)
  have "Complex x' y' - (G * sqrt (1 + t\<^sup>2)) * cis (\<phi> + s * arctan t) = (Complex x y - G * cis \<phi>) * Complex 1 (s * t) + d"
    unfolding w turn by (simp add: algebra_simps)
  then have "cmod (Complex x' y' - (G * sqrt (1 + t\<^sup>2)) * cis (\<phi> + s * arctan t))
      \<le> cmod (Complex x y - G * cis \<phi>) * cmod (Complex 1 (s * t)) + cmod d"
    by (metis norm_mult norm_triangle_ineq)
  also have "cmod (Complex 1 (s * t)) = sqrt (1 + t\<^sup>2)" by (simp add: cmod_def sq)
  also have "cmod (Complex x y - G * cis \<phi>) * sqrt (1 + t\<^sup>2) \<le> e * (1 + t\<^sup>2 / 2)"
    using assms(2) sqrt_step [of t] by (intro mult_mono) (auto intro: order_trans [OF norm_ge_zero])
  also have "cmod d \<le> 2"
  proof -
    have "\<bar>Re d\<bar> \<le> 1" "\<bar>Im d\<bar> \<le> 1"
      using floor_shift [of x k] floor_shift [of y k] s by (simp_all add: d_def abs_mult)
    then show ?thesis using cmod_le [of d] by linarith
  qed
  finally show ?thesis by (simp add: t_def mult.commute)
qed

subsection \<open>The loop\<close>

text \<open>Components at most double in a step, so from \<open>2 ^ 30\<close> they stay far from the ends of 64 bits.\<close>

lemma drop_bit_abs: "\<bar>drop_bit k y\<bar> \<le> \<bar>y\<bar>" for y :: int
proof (cases "0 \<le> y")
  case True
  then show ?thesis using zdiv_mono2 [of y 1 "2 ^ k"] by (simp add: drop_bit_eq_div pos_imp_zdiv_nonneg_iff)
next
  case False
  then have "y \<le> y div 2 ^ k" "y div 2 ^ k < 0"
    using zdiv_mono2_neg [of y 1 "2 ^ k"] by (simp_all add: div_neg_pos_less0)
  then show ?thesis by (simp add: drop_bit_eq_div)
qed

lemma step_range:
  assumes "\<bar>x\<bar> \<le> 2 ^ (30 + k)" and "\<bar>y\<bar> \<le> 2 ^ (30 + k)" and "k < 30"
  shows "\<bar>x - drop_bit k y\<bar> \<le> 2 ^ (30 + Suc k)" and "\<bar>x + drop_bit k y\<bar> \<le> 2 ^ (30 + Suc k)"
    and "i64 (x - drop_bit k y) = x - drop_bit k y" and "i64 (x + drop_bit k y) = x + drop_bit k y"
proof -
  have d: "\<bar>drop_bit k y\<bar> \<le> \<bar>y\<bar>" by (rule drop_bit_abs)
  have p: "(2 :: int) ^ (30 + Suc k) \<le> 2 ^ 61" using assms(3) by (intro power_increasing) simp_all
  show b: "\<bar>x - drop_bit k y\<bar> \<le> 2 ^ (30 + Suc k)" "\<bar>x + drop_bit k y\<bar> \<le> 2 ^ (30 + Suc k)"
    using d assms(1,2) by (auto simp: power_add abs_le_iff)
  show "i64 (x - drop_bit k y) = x - drop_bit k y" "i64 (x + drop_bit k y) = x + drop_bit k y"
    using b p by (auto intro!: i64_id simp: abs_le_iff)
qed

lemma cordic_loop_correct:
  assumes "converges as" and "table_ok k as" and "k + length as = 30"
    and "\<bar>z\<bar> \<le> sum_list as + 2" and "\<bar>x\<bar> \<le> 2 ^ (30 + k)" and "\<bar>y\<bar> \<le> 2 ^ (30 + k)" and "sum_list as \<le> 2 ^ 40"
    and "cmod (Complex x y - G * cis \<phi>) \<le> e" and "cordic_loop k as x y z = (x', y', z')"
  shows "\<bar>z'\<bar> \<le> 2 \<and> (\<exists>\<phi>'. cmod (Complex x' y' - (G * gain k as) * cis \<phi>') \<le> floor_err k as e \<and>
    \<bar>(\<phi>' - \<phi>) - (real_of_int z - real_of_int z') / 2 ^ 30\<bar> \<le> length as * (4 / 2 ^ 30))"
  using assms
proof (induction as arbitrary: k x y z G \<phi> e)
  case Nil
  then show ?case by (auto intro: exI [of _ \<phi>])
next
  case (Cons a as)
  define s :: int where "s = (if 0 \<le> z then 1 else - 1)"
  define x1 where "x1 = x - s * drop_bit k y"
  define y1 where "y1 = y + s * drop_bit k x"
  define z1 where "z1 = z - s * a"
  let ?t = "sqrt (1 + (1 / 2 ^ k)\<^sup>2)"
  have k: "k < 30" and a: "0 \<le> a" "a \<le> sum_list as + 2" "converges as" and tab: "table_ok (Suc k) as"
    and atan: "\<bar>arctan (1 / 2 ^ k) - a / 2 ^ 30\<bar> \<le> 4 / 2 ^ 30" using Cons.prems by auto
  have zb: "\<bar>z1\<bar> \<le> sum_list as + 2" using Cons.prems(4) a by (auto simp: z1_def s_def)
  have sn: "0 \<le> sum_list as" using a(3) by (induction as) auto
  have zi: "i64 (z - s * a) = z - s * a" using zb Cons.prems(7) a(1) unfolding z1_def by (intro i64_id) auto
  note rx = step_range [OF Cons.prems(5,6) k] and ry = step_range [OF Cons.prems(6,5) k]
  have run: "cordic_loop (Suc k) as x1 y1 z1 = (x', y', z')"
    using Cons.prems(9) rx ry zi by (auto simp: x1_def y1_def z1_def s_def split: if_splits)
  have xb: "\<bar>x1\<bar> \<le> 2 ^ (30 + Suc k)" "\<bar>y1\<bar> \<le> 2 ^ (30 + Suc k)" using rx ry by (auto simp: x1_def y1_def s_def)
  have near: "cmod (Complex x1 y1 - (G * ?t) * cis (\<phi> + s * arctan (1 / 2 ^ k))) \<le> (1 + (1 / 2 ^ k)\<^sup>2 / 2) * e + 2"
    by (rule rotation_step [OF _ Cons.prems(8)]) (auto simp: x1_def y1_def s_def)
  have len: "Suc k + length as = 30" and sum: "sum_list as \<le> 2 ^ 40" using Cons.prems(3,7) a(1) by simp_all
  note Cons.IH [OF a(3) tab len zb xb sum near run]
  then have "\<bar>z'\<bar> \<le> 2 \<and> (\<exists>\<phi>'. cmod (Complex x' y' - (G * gain k (a # as)) * cis \<phi>') \<le> floor_err k (a # as) e \<and>
    \<bar>(\<phi>' - (\<phi> + s * arctan (1 / 2 ^ k))) - (real_of_int z1 - real_of_int z') / 2 ^ 30\<bar> \<le> length as * (4 / 2 ^ 30))"
    unfolding gain.simps floor_err.simps mult.assoc .
  then obtain \<phi>' where f: "\<bar>z'\<bar> \<le> 2" "cmod (Complex x' y' - (G * gain k (a # as)) * cis \<phi>') \<le> floor_err k (a # as) e"
      "\<bar>(\<phi>' - (\<phi> + s * arctan (1 / 2 ^ k))) - (real_of_int z1 - real_of_int z') / 2 ^ 30\<bar> \<le> length as * (4 / 2 ^ 30)"
    by (elim conjE exE)
  have "(\<phi>' - \<phi>) - (real_of_int z - real_of_int z') / 2 ^ 30 =
      ((\<phi>' - (\<phi> + s * arctan (1 / 2 ^ k))) - (real_of_int z1 - real_of_int z') / 2 ^ 30) + s * (arctan (1 / 2 ^ k) - a / 2 ^ 30)"
    by (simp add: z1_def field_simps)
  also have "\<bar>\<dots>\<bar> \<le> length as * (4 / 2 ^ 30) + 4 / 2 ^ 30"
    by (rule order_trans [OF abs_triangle_ineq add_mono [OF f(3)]]) (use atan in \<open>simp only: s_def abs_mult; simp\<close>)
  finally have "\<bar>(\<phi>' - \<phi>) - (real_of_int z - real_of_int z') / 2 ^ 30\<bar> \<le> length (a # as) * (4 / 2 ^ 30)" by (simp add: algebra_simps)
  then show ?case using f(1,2) by (intro conjI exI [of _ \<phi>'])
qed

subsection \<open>The rotation\<close>

text \<open>Both coordinates of a point near the circle of radius \<open>2 ^ 30\<close>.\<close>

lemma near_circle:
  fixes H x y :: real
  assumes "cmod (Complex x y - H * cis \<phi>) \<le> e" and "\<bar>H - 2 ^ 30\<bar> \<le> h" and "\<bar>\<phi> - \<psi>\<bar> \<le> d"
    and "(e + h) / 2 ^ 30 + d \<le> c"
  shows "\<bar>x / 2 ^ 30 - cos \<psi>\<bar> \<le> c" and "\<bar>y / 2 ^ 30 - sin \<psi>\<bar> \<le> c"
proof -
  have part: "\<bar>u / 2 ^ 30 - f \<psi>\<bar> \<le> c"
    if "\<bar>u - H * f \<phi>\<bar> \<le> e" and "\<bar>f \<phi>\<bar> \<le> 1" and "\<bar>f \<phi> - f \<psi>\<bar> \<le> \<bar>\<phi> - \<psi>\<bar>" for u :: real and f
  proof -
    have "\<bar>(H - 2 ^ 30) * f \<phi>\<bar> \<le> h * 1" unfolding abs_mult using assms(2) that(2) by (intro mult_mono) auto
    moreover have "u - 2 ^ 30 * f \<phi> = (u - H * f \<phi>) + (H - 2 ^ 30) * f \<phi>" by (simp add: algebra_simps)
    ultimately have "\<bar>u - 2 ^ 30 * f \<phi>\<bar> \<le> e + h" using that(1) by linarith
    then have "\<bar>u / 2 ^ 30 - f \<phi>\<bar> \<le> (e + h) / 2 ^ 30" by (simp add: abs_le_iff field_simps)
    then show ?thesis using that(3) assms(3,4) by linarith
  qed
  have "cos \<phi> - cos \<psi> = 2 * sin ((\<phi> + \<psi>) / 2) * sin ((\<psi> - \<phi>) / 2)" by (rule cos_diff_cos)
  then have c: "\<bar>cos \<phi> - cos \<psi>\<bar> \<le> \<bar>\<phi> - \<psi>\<bar>"
    using mult_mono [OF abs_sin_le_one [of "(\<phi> + \<psi>) / 2"] abs_sin_x_le_abs_x [of "(\<psi> - \<phi>) / 2"]]
    by (simp add: abs_mult abs_minus_commute)
  have "sin \<phi> - sin \<psi> = 2 * sin ((\<phi> - \<psi>) / 2) * cos ((\<phi> + \<psi>) / 2)" by (rule sin_diff_sin)
  then have s: "\<bar>sin \<phi> - sin \<psi>\<bar> \<le> \<bar>\<phi> - \<psi>\<bar>"
    using mult_mono [OF abs_sin_x_le_abs_x [of "(\<phi> - \<psi>) / 2"] abs_cos_le_one [of "(\<phi> + \<psi>) / 2"]]
    by (simp add: abs_mult)
  have "\<bar>x - H * cos \<phi>\<bar> \<le> e" "\<bar>y - H * sin \<phi>\<bar> \<le> e"
    using abs_Re_le_cmod [of "Complex x y - H * cis \<phi>"] abs_Im_le_cmod [of "Complex x y - H * cis \<phi>"] assms(1) by simp_all
  then show "\<bar>x / 2 ^ 30 - cos \<psi>\<bar> \<le> c" "\<bar>y / 2 ^ 30 - sin \<psi>\<bar> \<le> c"
    using part [of x cos] part [of y sin] c s by simp_all
qed

lemma cordic_rotate:
  assumes "\<bar>z\<bar> \<le> HALFPI_FB" and "cordic_loop 0 ATAN_FB30 CORDIC_K 0 z = (x, y, z')"
    and "\<bar>z / 2 ^ 30 - \<psi>\<bar> \<le> 10 / 2 ^ 30"
  shows "\<bar>z'\<bar> \<le> 2" and "\<bar>x / 2 ^ 30 - cos \<psi>\<bar> \<le> 1 / 10 ^ 6" and "\<bar>y / 2 ^ 30 - sin \<psi>\<bar> \<le> 1 / 10 ^ 6"
proof -
  have zb: "\<bar>z\<bar> \<le> sum_list ATAN_FB30 + 2" using assms(1) by (simp add: ATAN_FB30_def HALFPI_FB_def)
  have start: "cmod (Complex (real_of_int CORDIC_K) (real_of_int 0) - complex_of_real (real_of_int CORDIC_K) * cis 0) \<le> 0"
    by (simp add: complex_eq_iff)
  have fit: "0 + length ATAN_FB30 = 30" "sum_list ATAN_FB30 \<le> 2 ^ 40" "\<bar>CORDIC_K\<bar> \<le> 2 ^ (30 + 0)" "\<bar>0 :: int\<bar> \<le> 2 ^ (30 + 0)"
    by (simp_all add: ATAN_FB30_def CORDIC_K_def)
  obtain \<phi> where f: "\<bar>z'\<bar> \<le> 2" "cmod (Complex x y - (CORDIC_K * gain 0 ATAN_FB30) * cis \<phi>) \<le> floor_err 0 ATAN_FB30 0"
      "\<bar>(\<phi> - 0) - (real_of_int z - real_of_int z') / 2 ^ 30\<bar> \<le> length ATAN_FB30 * (4 / 2 ^ 30)"
    using cordic_loop_correct [OF table_converges table_atan fit(1) zb fit(3,4,2) start assms(2)] by (elim conjE exE)
  show "\<bar>z'\<bar> \<le> 2" by (rule f(1))
  have l: "real (length ATAN_FB30) = 30" by (simp add: ATAN_FB30_def)
  have "\<bar>real_of_int z'\<bar> / 2 ^ 30 \<le> 2 / 2 ^ 30" using f(1) by (intro divide_right_mono) simp_all
  then have "\<bar>real_of_int z' / 2 ^ 30\<bar> \<le> 2 / 2 ^ 30" by simp
  moreover have "\<bar>\<phi> - (real_of_int z / 2 ^ 30 - real_of_int z' / 2 ^ 30)\<bar> \<le> 120 / 2 ^ 30"
    using f(3) unfolding l diff_divide_distrib by simp
  moreover have "\<bar>p - q\<bar> \<le> 132 * d" if "\<bar>v\<bar> \<le> 2 * d" "\<bar>p - (u - v)\<bar> \<le> 120 * d" "\<bar>u - q\<bar> \<le> 10 * d" for p q u v d :: real
    using that by linarith
  note this [of "real_of_int z' / 2 ^ 30" "1 / 2 ^ 30" \<phi> "real_of_int z / 2 ^ 30" \<psi>]
  ultimately have ang: "\<bar>\<phi> - \<psi>\<bar> \<le> 132 / 2 ^ 30" using assms(3) by simp
  have e: "cmod (Complex x y - (CORDIC_K * gain 0 ATAN_FB30) * cis \<phi>) \<le> 120" using f(2) cordic_floor_err by linarith
  show "\<bar>x / 2 ^ 30 - cos \<psi>\<bar> \<le> 1 / 10 ^ 6" "\<bar>y / 2 ^ 30 - sin \<psi>\<bar> \<le> 1 / 10 ^ 6"
    by (rule near_circle [OF e cordic_gain ang]; simp)+
qed

lemma PI_FB_near: "\<bar>real_of_int PI_FB / 2 ^ 30 - pi\<bar> \<le> 1 / 2 ^ 30"
  using pi_near by (simp add: PI_FB_def abs_minus_commute)

text \<open>The reduction to one turn is within two units of an angle with the same cosine and sine.\<close>

lemma reduce_2pi_near:
  assumes "\<bar>theta\<bar> < TWOPI_FB" and z0_def: "z0 = reduce_2pi theta"
  shows "\<bar>z0\<bar> \<le> PI_FB \<and> (\<exists>\<psi>0. cos \<psi>0 = cos (theta / 2 ^ 30) \<and> sin \<psi>0 = sin (theta / 2 ^ 30) \<and>
    \<bar>real_of_int z0 / 2 ^ 30 - \<psi>0\<bar> \<le> 2 / 2 ^ 30)"
proof -
  have r: "rem_trunc theta TWOPI_FB = theta" using assms by (auto simp: rem_trunc_def)
  have z0: "z0 = (if PI_FB < theta then theta - TWOPI_FB else if theta < - PI_FB then theta + TWOPI_FB else theta)"
    by (simp only: z0_def reduce_2pi_def r Let_def)
  have pp: "TWOPI_FB = 2 * PI_FB" by (simp add: TWOPI_FB_def PI_FB_def)
  have b: "\<bar>z0\<bar> \<le> PI_FB" using assms unfolding z0 pp by (auto split: if_splits)
  have "\<exists>j :: int. z0 = theta + j * TWOPI_FB \<and> \<bar>j\<bar> \<le> 1"
    unfolding z0 by (rule exI [of _ "if PI_FB < theta then - 1 else if theta < - PI_FB then 1 else 0"]) simp
  then obtain j :: int where j: "z0 = theta + j * TWOPI_FB" "\<bar>j\<bar> \<le> 1" by (elim exE conjE)
  define \<psi>0 where "\<psi>0 = theta / 2 ^ 30 + 2 * pi * j"
  have tr: "cos \<psi>0 = cos (theta / 2 ^ 30)" "sin \<psi>0 = sin (theta / 2 ^ 30)"
    unfolding \<psi>0_def cos_add sin_add cos_int_2pin sin_int_2pin by simp_all
  have tl: "real_of_int TWOPI_FB = 2 * real_of_int PI_FB" by (simp add: TWOPI_FB_def PI_FB_def)
  have "\<bar>real_of_int j * 2 * (PI_FB / 2 ^ 30 - pi)\<bar> \<le> 2 / 2 ^ 30"
  proof -
    have "\<bar>real_of_int j\<bar> \<le> 1" using j(2) by linarith
    from mult_mono [OF this PI_FB_near] have "\<bar>real_of_int j * (PI_FB / 2 ^ 30 - pi)\<bar> \<le> 1 * (1 / 2 ^ 30)" unfolding abs_mult by simp
    then show ?thesis unfolding abs_le_iff by (simp add: mult.assoc mult.commute [of pi])
  qed
  moreover have "real_of_int z0 / 2 ^ 30 - \<psi>0 = real_of_int j * 2 * (PI_FB / 2 ^ 30 - pi)"
    unfolding \<psi>0_def j(1) of_int_add of_int_mult tl by (simp add: field_simps)
  ultimately have near: "\<bar>real_of_int z0 / 2 ^ 30 - \<psi>0\<bar> \<le> 2 / 2 ^ 30" by simp
  then show ?thesis using b tr by blast
qed

text \<open>
  C3. The rotation of a reduced angle (less than a turn either way, as \<^verbatim>\<open>rope_q_ref\<close> passes it) gives the cosine and
  the sine of the angle up to \<open>10 ^ -6\<close>.
\<close>

theorem cordic_accurate:
  assumes "\<bar>theta\<bar> < TWOPI_FB"
  shows "\<bar>fst (cordic_cossin theta) / 2 ^ 30 - cos (theta / 2 ^ 30)\<bar> \<le> 1 / 10 ^ 6 \<and>
    \<bar>snd (cordic_cossin theta) / 2 ^ 30 - sin (theta / 2 ^ 30)\<bar> \<le> 1 / 10 ^ 6"
proof -
  define z0 where z0: "z0 = reduce_2pi theta"
  obtain z neg where fold: "fold_quadrant z0 = (z, neg)" by (cases "fold_quadrant z0") auto
  obtain x y z' where run: "cordic_loop 0 ATAN_FB30 CORDIC_K 0 z = (x, y, z')" by (cases "cordic_loop 0 ATAN_FB30 CORDIC_K 0 z") auto
  have out: "cordic_cossin theta = (if neg then (- x, - y) else (x, y))"
    by (simp add: cordic_cossin_def z0 [symmetric] fold run)
  note n = PI_FB_near
  obtain \<psi>0 where b: "\<bar>z0\<bar> \<le> PI_FB" and tr: "cos \<psi>0 = cos (theta / 2 ^ 30)" "sin \<psi>0 = sin (theta / 2 ^ 30)"
    and near: "\<bar>real_of_int z0 / 2 ^ 30 - \<psi>0\<bar> \<le> 2 / 2 ^ 30"
    using reduce_2pi_near [OF assms z0] by blast
  have turn: ?thesis if "neg" and "z = z0 - m * PI_FB" and "m = 1 \<or> m = - 1" and "\<bar>z\<bar> \<le> HALFPI_FB" for m :: int
  proof -
    have "real_of_int z / 2 ^ 30 - (\<psi>0 - m * pi) = (real_of_int z0 / 2 ^ 30 - \<psi>0) - m * (PI_FB / 2 ^ 30 - pi)"
      unfolding that(2) by (simp add: field_simps)
    moreover have "\<bar>real_of_int m\<bar> = 1" using that(3) by auto
    then have "\<bar>m * (PI_FB / 2 ^ 30 - pi)\<bar> \<le> 1 / 2 ^ 30" using n by (simp only: abs_mult mult_1)
    ultimately have "\<bar>real_of_int z / 2 ^ 30 - (\<psi>0 - m * pi)\<bar> \<le> 10 / 2 ^ 30" using near by linarith
    note c = cordic_rotate [OF that(4) run this]
    have "cos (\<psi>0 - m * pi) = - cos \<psi>0" "sin (\<psi>0 - m * pi) = - sin \<psi>0" using that(3) by (auto simp: cos_diff sin_diff)
    then have "\<bar>- (x / 2 ^ 30) - cos (theta / 2 ^ 30)\<bar> \<le> 1 / 10 ^ 6" "\<bar>- (y / 2 ^ 30) - sin (theta / 2 ^ 30)\<bar> \<le> 1 / 10 ^ 6"
      using c(2,3) tr by (simp_all only: abs_le_iff) linarith+
    then show ?thesis using that(1) out by simp
  qed
  consider "neg" "z = z0 - 1 * PI_FB" "\<bar>z\<bar> \<le> HALFPI_FB" | "neg" "z = z0 - (- 1) * PI_FB" "\<bar>z\<bar> \<le> HALFPI_FB"
    | "\<not> neg" "z = z0" "\<bar>z\<bar> \<le> HALFPI_FB"
    using fold b by (auto simp: fold_quadrant_def HALFPI_FB_def PI_FB_def split: if_splits)
  then show ?thesis
  proof cases
    case 1
    then show ?thesis using turn by blast
  next
    case 2
    then show ?thesis using turn by blast
  next
    case 3
    have "\<bar>real_of_int z / 2 ^ 30 - \<psi>0\<bar> \<le> 10 / 2 ^ 30" using near 3(2) by simp
    note c = cordic_rotate [OF 3(3) run this]
    show ?thesis using c(2,3) 3(1) out tr by simp
  qed
qed

theorem cordic_accurate_witness:
  "cordic_cossin 536870912 = (942297107, 514779250) \<and> \<bar>(942297107 :: real) / 2 ^ 30 - cos (1 / 2)\<bar> \<le> 1 / 10 ^ 6"
proof -
  have v: "cordic_cossin 536870912 = (942297107, 514779250)" by code_simp
  show ?thesis using cordic_accurate [of 536870912] v by (simp add: TWOPI_FB_def)
qed

end
