(* ===== verification/Recall_Text.thy ===== *)
theory Recall_Text
  imports Rust_Float
begin

text \<open>
  The lexical part of \<^verbatim>\<open>recall.rs\<close>: what the daemon reads off the text of a query, of a memory and of a
  verifier's reply. Unicode case folding and \<^verbatim>\<open>is_alphanumeric\<close> are the standard library's tables and are
  parameters (\<open>uni\<close>); the ratios are computed in \<^verbatim>\<open>f32\<close> on bit patterns.
\<close>

subsection \<open>Strings\<close>

record uni =
  lower :: "ustr \<Rightarrow> ustr"
  alnum :: "nat \<Rightarrow> bool"

text \<open>\<^verbatim>\<open>split(pred)\<close>, \<^verbatim>\<open>starts_with\<close>, \<^verbatim>\<open>trim_matches(pred)\<close>, \<^verbatim>\<open>len\<close> (in bytes).\<close>

fun split_by :: "('a \<Rightarrow> bool) \<Rightarrow> 'a list \<Rightarrow> 'a list list" where
  "split_by P [] = [[]]"
| "split_by P (x # s) =
     (if P x then [] # split_by P s else case split_by P s of [] \<Rightarrow> [[x]] | p # ps \<Rightarrow> (x # p) # ps)"

definition starts_with :: "ustr \<Rightarrow> ustr \<Rightarrow> bool" where
  "starts_with s pre \<longleftrightarrow> take (length pre) s = pre"

definition trim_matches :: "(nat \<Rightarrow> bool) \<Rightarrow> ustr \<Rightarrow> ustr" where
  "trim_matches P s = rev (dropWhile P (rev (dropWhile P s)))"

definition blen :: "ustr \<Rightarrow> nat" where
  "blen s = length (utf8 s)"

definition ascii_letter :: "nat \<Rightarrow> bool" where
  "ascii_letter c \<longleftrightarrow> 65 \<le> c \<and> c \<le> 90 \<or> 97 \<le> c \<and> c \<le> 122"

definition ascii_lower1 :: "nat \<Rightarrow> nat" where
  "ascii_lower1 c = (if 65 \<le> c \<and> c \<le> 90 then c + 32 else c)"

subsection \<open>Counts as a ratio\<close>

text \<open>\<^verbatim>\<open>n as f32\<close> and the quotient of two non-negative finite values.\<close>

definition f32_of_nat :: "nat \<Rightarrow> f32" where
  "f32_of_nat n = f32_of_frac n 1"

definition f32_div_pos :: "f32 \<Rightarrow> f32 \<Rightarrow> f32" where
  "f32_div_pos x y = f32_of_frac (f32_mant x * 2 ^ f32_scale x) (f32_mant y * 2 ^ f32_scale y)"

definition f32_ratio :: "nat \<Rightarrow> nat \<Rightarrow> f32" where
  "f32_ratio n d = f32_div_pos (f32_of_nat n) (f32_of_nat d)"

subsection \<open>Is the turn a question\<close>

definition INTERROGATIVE_HEADS :: "ustr list" where
  "INTERROGATIVE_HEADS = map lit
     [''what'', ''which'', ''who'', ''whom'', ''whose'', ''where'', ''when'', ''why'', ''how'',
      ''is'', ''are'', ''was'', ''were'', ''am'', ''do'', ''does'', ''did'', ''can'', ''could'',
      ''should'', ''would'', ''will'', ''shall'', ''have'', ''has'', ''had'',
      ''name'', ''tell'', ''state'', ''give'', ''list'', ''recall'', ''remember'', ''recite'',
      ''identify'', ''describe'', ''explain'']"

definition is_interrogative :: "uni \<Rightarrow> ustr \<Rightarrow> bool" where
  "is_interrogative u q =
     (if contains q [63] then True
      else let first = (case split_whitespace (trim q) of [] \<Rightarrow> [] | w # _ \<Rightarrow> w)
           in lower u (filter (alnum u) first) \<in> set INTERROGATIVE_HEADS)"

subsection \<open>Attribute grounding\<close>

definition ATTR_STOP :: "ustr list" where
  "ATTR_STOP = map lit
     [''the'', ''is'', ''are'', ''was'', ''were'', ''what'', ''which'', ''who'', ''whom'', ''whose'',
      ''of'', ''for'', ''and'', ''or'', ''does'', ''do'', ''did'', ''how'', ''many'', ''much'', ''that'',
      ''this'', ''its'', ''with'', ''by'', ''from'', ''you'', ''your'', ''have'', ''has'', ''had'',
      ''been'', ''be'', ''as'', ''not'', ''now'', ''current'', ''currently'', ''authoritative'',
      ''context'', ''there'', ''any'', ''about'', ''into'', ''please'', ''tell'', ''give'', ''list'']"

definition attr_toks :: "uni \<Rightarrow> ustr \<Rightarrow> ustr list" where
  "attr_toks u s = filter (\<lambda>w. w \<noteq> []) (split_by (\<lambda>c. \<not> alnum u c) (lower u s))"

definition attr_words :: "uni \<Rightarrow> ustr \<Rightarrow> ustr list" where
  "attr_words u query = filter (\<lambda>w. 3 \<le> blen w \<and> w \<notin> set ATTR_STOP) (attr_toks u query)"

definition attr_absent_ratio :: "uni \<Rightarrow> ustr \<Rightarrow> ustr \<Rightarrow> f32" where
  "attr_absent_ratio u query known =
     (let fw = set (attr_toks u known); q = attr_words u query in
      if q = [] then 0 else f32_ratio (length (filter (\<lambda>w. w \<notin> fw) q)) (length q))"

definition query_has_entity_token :: "uni \<Rightarrow> ustr \<Rightarrow> bool" where
  "query_has_entity_token u query \<longleftrightarrow>
     list_ex (\<lambda>w. 4 \<le> blen w \<and> list_ex digit w) (split_by (\<lambda>c. \<not> alnum u c) query)"

definition CANON_STOP :: "ustr list" where
  "CANON_STOP = map lit
     [''the'', ''is'', ''are'', ''was'', ''were'', ''what'', ''which'', ''who'', ''whom'', ''whose'',
      ''of'', ''for'', ''and'', ''or'', ''does'', ''do'', ''did'', ''how'', ''many'', ''much'', ''that'',
      ''this'', ''its'', ''with'', ''by'', ''from'', ''have'', ''has'', ''had'', ''been'', ''be'',
      ''as'', ''not'', ''now'', ''question'', ''rewritten'', ''reply'', ''answer'']"

definition canon_toks :: "uni \<Rightarrow> ustr \<Rightarrow> ustr list" where
  "canon_toks u s = filter (\<lambda>w. 3 \<le> blen w) (split_by (\<lambda>c. \<not> alnum u c) (lower u s))"

definition canon_overlap :: "uni \<Rightarrow> ustr \<Rightarrow> ustr \<Rightarrow> nat" where
  "canon_overlap u canon known =
     (let fw = canon_toks u known in
      length (filter (\<lambda>w. list_ex (\<lambda>f. f = w \<or> 4 \<le> blen w \<and> starts_with f w \<or> 4 \<le> blen f \<and> starts_with w f) fw)
        (filter (\<lambda>w. w \<notin> set CANON_STOP) (canon_toks u canon))))"

subsection \<open>The class of a memory\<close>

definition SECRET_KW :: "ustr list" where
  "SECRET_KW = map lit [''code'', ''password'', ''passcode'', ''passphrase'', '' pin '', '' pin.'',
     ''secret'', ''api key'', ''api-key'', ''token'', ''override'']"

definition PERSONA_KW :: "ustr list" where
  "PERSONA_KW =
     [lit ''my name is'', lit ''i am '', [105, 39, 109, 32], lit ''call me '', lit ''i like '', lit ''i love '',
      lit ''i prefer '', lit ''i live '', lit ''my favorite'', lit ''my favourite'', lit ''i enjoy '',
      lit ''my birthday'', lit ''i work as'', lit ''my job is'', lit ''my hobby'']"

definition is_code :: "ustr \<Rightarrow> bool" where
  "is_code tok =
     (let t = trim_matches (\<lambda>c. \<not> (ascii_letter c \<or> digit c) \<and> c \<noteq> 45) tok;
          letters = length (filter ascii_letter t); digits = length (filter digit t);
          hyphenated = 45 \<in> set t \<and> 4 \<le> letters + digits
      in 5 \<le> blen t \<and> 2 \<le> letters \<and> 2 \<le> digits \<or> hyphenated \<and> 5 \<le> blen t)"

definition classify_mem_class :: "uni \<Rightarrow> ustr \<Rightarrow> ustr" where
  "classify_mem_class u s =
     (let low = lower u s in
      if list_ex (contains low) SECRET_KW \<or> list_ex is_code (split_by is_ws s) then lit ''private-secret''
      else if list_ex (contains low) PERSONA_KW then lit ''persona''
      else lit ''counterfact'')"

subsection \<open>The evidence of a citation\<close>

definition OVERLAP_THR :: f32 where "OVERLAP_THR = 0x3F19999A"

definition OVERLAP_STOP :: "ustr list" where
  "OVERLAP_STOP = map lit
     [''the'', ''an'', ''of'', ''to'', ''in'', ''on'', ''at'', ''for'', ''and'', ''or'', ''is'', ''are'',
      ''was'', ''were'', ''been'', ''with'', ''from'', ''that'', ''this'', ''its'', ''as'', ''by'']"

definition overlap_toks :: "ustr \<Rightarrow> ustr list" where
  "overlap_toks t =
     filter (\<lambda>w. 3 \<le> blen w \<and> w \<notin> set OVERLAP_STOP)
       (split_whitespace (map (\<lambda>c. if ascii_letter c \<or> digit c then ascii_lower1 c else 32) t))"

definition token_overlap :: "ustr \<Rightarrow> ustr \<Rightarrow> f32" where
  "token_overlap evidence cited =
     (let et = overlap_toks evidence in
      if et = [] then 0
      else f32_ratio (length (filter (\<lambda>w. w \<in> set (overlap_toks cited)) et)) (length et))"

fun strip_loop :: "int \<Rightarrow> ustr \<Rightarrow> ustr" where
  "strip_loop depth [] = []"
| "strip_loop depth (c # s) =
     (if c = 60 then strip_loop (depth + 1) s
      else if c = 62 then strip_loop (if 0 < depth then depth - 1 else depth) s
      else if depth = 0 then c # strip_loop depth s
      else strip_loop depth s)"

definition strip_special_tokens :: "ustr \<Rightarrow> ustr" where
  "strip_special_tokens s = strip_loop 0 s"

text \<open>The earliest tag; the second component is \<^verbatim>\<open>ti\<close>, \<open>None\<close> being \<^verbatim>\<open>usize::MAX\<close>.\<close>

fun pick_tag :: "ustr \<Rightarrow> nat \<Rightarrow> ustr list \<Rightarrow> nat option \<times> nat option \<Rightarrow> nat option \<times> nat option" where
  "pick_tag up i [] st = st"
| "pick_tag up i (t # ts) (pick, ti) =
     pick_tag up (Suc i) ts
       (case find_sub (ascii_upper t) up of
          Some j \<Rightarrow> if ti = None \<or> j < the ti then (Some i, Some j) else (pick, ti)
        | None \<Rightarrow> (pick, ti))"

definition parse_pick :: "ustr \<Rightarrow> ustr list \<Rightarrow> nat option" where
  "parse_pick up tags =
     (let (pick, ti) = pick_tag up 0 tags (None, None) in
      case find_sub (lit ''NONE'') up of
        Some jn \<Rightarrow> if pick = None \<or> ti = None \<or> jn < the ti then None else pick
      | None \<Rightarrow> pick)"

definition parse_evidence :: "ustr \<Rightarrow> ustr" where
  "parse_evidence reply =
     (case find_sub (lit ''EVIDENCE'') (ascii_upper reply) of
        None \<Rightarrow> []
      | Some p \<Rightarrow>
          (case dropWhile (\<lambda>c. c \<noteq> 61 \<and> c \<noteq> 58) (drop p reply) of
             [] \<Rightarrow> []
           | _ # raw \<Rightarrow>
               trim (trim_matches (\<lambda>c. c = 34) (trim (strip_special_tokens (hd (split_on 10 raw)))))))"

definition parse_tag_evidence :: "ustr \<Rightarrow> ustr list \<Rightarrow> nat option \<times> ustr" where
  "parse_tag_evidence reply tags = (parse_pick (ascii_upper reply) tags, parse_evidence reply)"

subsection \<open>Ratios of counts\<close>

lemma unat_exp_and: "unat (drop_bit 23 (w :: f32) AND 0xFF) = unat w div 2 ^ 23 mod 256"
proof -
  have "drop_bit 23 w AND 0xFF = drop_bit 23 w AND mask 8" by (simp add: mask_eq_exp_minus_1)
  then show ?thesis by (simp add: take_bit_eq_mask [symmetric] take_bit_eq_mod drop_bit_eq_div unat_div_distrib unat_mod_distrib)
qed

lemma unat_mant_and: "unat ((w :: f32) AND 0x7FFFFF) = unat w mod 2 ^ 23"
proof -
  have "w AND 0x7FFFFF = w AND mask 23" by (simp add: mask_eq_exp_minus_1)
  then show ?thesis by (simp add: take_bit_eq_mask [symmetric] take_bit_eq_mod unat_mod_distrib)
qed

lemma f32_pattern:
  assumes "e < 254" and "2 ^ 23 \<le> k" and "k < 2 ^ 24"
  defines "w \<equiv> of_nat (e * 2 ^ 23 + k) :: f32"
  shows "unat w = e * 2 ^ 23 + k" and "f32_mant w = k" and "f32_scale w = e"
proof -
  have "unat (of_nat m :: f32) = m" if "m < 2 ^ 32" for m using that by (simp add: unat_of_nat)
  moreover have "e * 2 ^ 23 + k < 2 ^ 32" using assms(1,3) by simp
  ultimately show u: "unat w = e * 2 ^ 23 + k" unfolding w_def .
  have "(e * 2 ^ 23 + k) div 2 ^ 23 = e + 1" using assms(2,3) by (simp add: div_nat_eqI)
  then have ex: "unat (drop_bit 23 w AND 0xFF) = e + 1" unfolding unat_exp_and u using assms(1) by simp
  have "(e * 2 ^ 23 + k) mod 2 ^ 23 = k - 2 ^ 23"
    using assms(2,3) by (simp add: mod_nat_eqI)
  then have "unat (w AND 0x7FFFFF) = k - 2 ^ 23" unfolding unat_mant_and u .
  then show "f32_mant w = k" "f32_scale w = e" using ex assms(2) by (simp_all add: f32_mant_def f32_scale_def Let_def)
qed

lemma f32_of_frac_unfold:
  assumes "n * 2 ^ 149 < 2 ^ 24 * d * 2 ^ e" and "e < 254" and "\<And>i. i < e \<Longrightarrow> 2 ^ 24 * d * 2 ^ i \<le> n * 2 ^ 149"
  shows "f32_of_frac n d = of_nat (e * 2 ^ 23 + round_half_even (n * 2 ^ 149) (d * 2 ^ e))"
proof -
  have "find (\<lambda>e. n * 2 ^ 149 < 2 ^ 24 * d * 2 ^ e) [0..<254] = Some e"
    unfolding find_Some_iff using assms by (intro exI [of _ e]) (auto simp: not_less)
  then show ?thesis by (simp add: f32_of_frac_def)
qed

lemma round_half_even_scale: "0 < c \<Longrightarrow> round_half_even (n * c) (d * c) = round_half_even n d"
  by (simp add: round_half_even_def Let_def mult.commute [of _ c] mult_mod_right [symmetric] mult.left_commute)

lemma f32_of_frac_scale:
  assumes "0 < c"
  shows "f32_of_frac (n * c) (d * c) = f32_of_frac n d"
proof -
  have "n * c * 2 ^ 149 < 2 ^ 24 * (d * c) * 2 ^ e \<longleftrightarrow> n * 2 ^ 149 < 2 ^ 24 * d * 2 ^ e" for e
    using assms mult_less_cancel2 [of "n * 2 ^ 149" c "2 ^ 24 * d * 2 ^ e"] by (simp add: mult_ac)
  moreover have "round_half_even (n * c * 2 ^ 149) (d * c * 2 ^ e) = round_half_even (n * 2 ^ 149) (d * 2 ^ e)" for e
    using round_half_even_scale [OF assms, of "n * 2 ^ 149" "d * 2 ^ e"] by (simp add: mult_ac)
  ultimately show ?thesis unfolding f32_of_frac_def by presburger
qed

text \<open>A count below \<open>2 ^ 24\<close> is exact.\<close>

lemma f32_of_nat_exact:
  assumes "0 < n" and "n < 2 ^ 24"
  shows "f32_mant (f32_of_nat n) * 2 ^ f32_scale (f32_of_nat n) = n * 2 ^ 149"
proof -
  obtain b where b: "2 ^ b \<le> n" "n < 2 ^ Suc b" using ex_power_ivl1 [of 2 n] assms(1) by auto
  have "b < 24" using b(1) assms(2) power_less_imp_less_exp [of "2 :: nat" b 24] by simp
  define k where "k = n * 2 ^ (23 - b)"
  have p24: "2 ^ Suc b * 2 ^ (23 - b) = (2 :: nat) ^ 24" using \<open>b < 24\<close> by (simp add: power_add [symmetric])
  have "2 ^ b * 2 ^ (23 - b) \<le> k" "k < 2 ^ Suc b * 2 ^ (23 - b)"
    unfolding k_def using b by (simp_all del: power_Suc)
  then have k: "2 ^ 23 \<le> k" "k < 2 ^ 24" using \<open>b < 24\<close> unfolding p24 by (simp_all add: power_add [symmetric])
  have e: "k * 2 ^ (126 + b) = n * 2 ^ 149"
    using \<open>b < 24\<close> by (simp only: k_def mult.assoc power_add [symmetric]) simp
  have "f32_of_frac n 1 = of_nat ((126 + b) * 2 ^ 23 + round_half_even (n * 2 ^ 149) (1 * 2 ^ (126 + b)))"
  proof (rule f32_of_frac_unfold)
    show "n * 2 ^ 149 < 2 ^ 24 * 1 * 2 ^ (126 + b)" unfolding e [symmetric] using k(2) by simp
    show "126 + b < 254" using \<open>b < 24\<close> by simp
    fix i assume "i < 126 + b"
    then have "2 ^ 24 * 2 ^ i \<le> (2 :: nat) ^ 23 * 2 ^ (126 + b)"
      by (simp only: power_add [symmetric]) (rule power_increasing; simp)
    also have "\<dots> \<le> n * 2 ^ 149" unfolding e [symmetric] using k(1) by simp
    finally show "2 ^ 24 * 1 * 2 ^ i \<le> n * 2 ^ 149" by simp
  qed
  also have "round_half_even (n * 2 ^ 149) (1 * 2 ^ (126 + b)) = k"
    unfolding e [symmetric] by (simp add: round_half_even_def)
  finally have "f32_of_nat n = of_nat ((126 + b) * 2 ^ 23 + k)" by (simp add: f32_of_nat_def)
  then show ?thesis using f32_pattern [of "126 + b" k] k \<open>b < 24\<close> e by simp
qed

lemma f32_ratio_exact:
  assumes "n < 2 ^ 24" and "0 < d" and "d < 2 ^ 24"
  shows "f32_ratio n d = f32_of_frac n d"
proof (cases "n = 0")
  case True
  have "f32_of_nat 0 = 0" by (simp add: f32_of_nat_def f32_of_frac_def upt_rec round_half_even_def)
  then have "f32_ratio 0 d = f32_of_frac 0 (f32_mant (f32_of_nat d) * 2 ^ f32_scale (f32_of_nat d))"
    by (simp add: f32_ratio_def f32_div_pos_def f32_mant_def f32_scale_def)
  also have "\<dots> = f32_of_frac 0 (d * 2 ^ 149)" using f32_of_nat_exact assms by simp
  finally show ?thesis using True f32_of_frac_scale [of "2 ^ 149" 0 d] by simp
next
  case False
  then show ?thesis using assms f32_of_nat_exact f32_of_frac_scale [of "2 ^ 149" n d]
    by (simp add: f32_ratio_def f32_div_pos_def)
qed

lemma round_half_even_le: "n < m * d \<Longrightarrow> round_half_even n d \<le> m"
  using less_mult_imp_div_less [of n m d] by (simp add: round_half_even_def Let_def)

lemma f32_of_frac_le:
  assumes "n * 2 ^ 149 < 2 ^ 24 * d * 2 ^ e" and "e < 254"
  shows "unat (f32_of_frac n d) \<le> e * 2 ^ 23 + 2 ^ 24"
proof -
  let ?P = "\<lambda>i. n * 2 ^ 149 < 2 ^ 24 * d * 2 ^ i"
  define m where "m = (LEAST i. ?P i)"
  have m: "?P m" "m \<le> e" using assms(1) unfolding m_def by (rule LeastI, rule Least_le)
  have "2 ^ 24 * d * 2 ^ i \<le> n * 2 ^ 149" if "i < m" for i
    using not_less_Least that unfolding m_def by (metis not_less)
  then have u: "f32_of_frac n d = of_nat (m * 2 ^ 23 + round_half_even (n * 2 ^ 149) (d * 2 ^ m))"
    using f32_of_frac_unfold [OF m(1)] m(2) assms(2) by simp
  have "round_half_even (n * 2 ^ 149) (d * 2 ^ m) \<le> 2 ^ 24" using m(1) by (intro round_half_even_le) (simp add: mult.assoc)
  then have b: "m * 2 ^ 23 + round_half_even (n * 2 ^ 149) (d * 2 ^ m) \<le> e * 2 ^ 23 + 2 ^ 24" using m(2) by simp
  then have "m * 2 ^ 23 + round_half_even (n * 2 ^ 149) (d * 2 ^ m) < 2 ^ 32" using assms(2) by simp
  then have "unat (f32_of_frac n d) = m * 2 ^ 23 + round_half_even (n * 2 ^ 149) (d * 2 ^ m)"
    unfolding u by (simp only: unat_of_nat) simp
  then show ?thesis using b by simp
qed

text \<open>Ratios from a half up to one, and below a half.\<close>

lemma f32_of_frac_upper:
  assumes "d \<le> 2 * n" and "n < d"
  shows "unat (f32_of_frac n d) = 125 * 2 ^ 23 + round_half_even (n * 2 ^ 24) d"
proof -
  have "f32_of_frac n d = of_nat (125 * 2 ^ 23 + round_half_even (n * 2 ^ 149) (d * 2 ^ 125))"
  proof (rule f32_of_frac_unfold)
    show "n * 2 ^ 149 < 2 ^ 24 * d * 2 ^ 125" using assms(2) by simp
    fix i :: nat assume "i < 125"
    then have "(2 :: nat) ^ i \<le> 2 ^ 124" by (intro power_increasing) simp_all
    then have "2 ^ 24 * d * 2 ^ i \<le> 2 ^ 24 * (2 * n) * 2 ^ 124" using assms(1) by (intro mult_le_mono) simp_all
    then show "2 ^ 24 * d * 2 ^ i \<le> n * 2 ^ 149" by simp
  qed simp
  also have "n * 2 ^ 149 = n * 2 ^ 24 * 2 ^ 125" by simp
  also have "round_half_even (n * 2 ^ 24 * 2 ^ 125) (d * 2 ^ 125) = round_half_even (n * 2 ^ 24) d"
    by (rule round_half_even_scale) simp
  finally have u: "f32_of_frac n d = of_nat (125 * 2 ^ 23 + round_half_even (n * 2 ^ 24) d)" .
  have "round_half_even (n * 2 ^ 24) d \<le> 2 ^ 24" using assms(2) by (intro round_half_even_le) simp
  then have "125 * 2 ^ 23 + round_half_even (n * 2 ^ 24) d < 2 ^ 32" by simp
  then show ?thesis unfolding u by (simp only: unat_of_nat) simp
qed

lemma f32_of_frac_one: "0 < d \<Longrightarrow> f32_of_frac d d = 0x3F800000"
proof -
  assume d: "0 < d"
  have "f32_of_frac (1 * d) (1 * d) = f32_of_frac 1 1" by (rule f32_of_frac_scale [OF d])
  also have "f32_of_frac 1 1 = of_nat (126 * 2 ^ 23 + round_half_even (1 * 2 ^ 149) (1 * 2 ^ 126))"
  proof (rule f32_of_frac_unfold)
    fix i :: nat assume "i < 126"
    then have "(2 :: nat) ^ i \<le> 2 ^ 125" by (intro power_increasing) simp_all
    then show "2 ^ 24 * 1 * 2 ^ i \<le> 1 * (2 :: nat) ^ 149" by simp
  qed simp_all
  also have "\<dots> = 0x3F800000" by (simp add: round_half_even_def)
  finally show ?thesis by simp
qed

lemma round_half_even_threshold:
  assumes "n < d" and "d < 2 ^ 24"
  shows "10066330 \<le> round_half_even (n * 2 ^ 24) d \<longleftrightarrow> 3 * d \<le> 5 * n"
proof -
  define q where "q = n * 2 ^ 24 div d"
  define r where "r = n * 2 ^ 24 mod d"
  have qr: "n * 2 ^ 24 = q * d + r" "r < d" using assms(1) by (simp_all add: q_def r_def div_mult_mod_eq)
  have rhe: "round_half_even (n * 2 ^ 24) d = (if d < 2 * r \<or> 2 * r = d \<and> odd q then q + 1 else q)"
    by (simp add: round_half_even_def Let_def q_def r_def)
  consider "10066330 \<le> q" | "q = 10066329" | "q \<le> 10066328" by linarith
  then show ?thesis
  proof cases
    case 1
    then have "10066330 * d \<le> q * d" by (rule mult_le_mono1)
    then have "10066330 * d \<le> n * 2 ^ 24" using qr(1) by linarith
    then have "3 * d \<le> 5 * n" by simp
    then show ?thesis using 1 rhe by simp
  next
    case 2
    then have "n * 2 ^ 24 = 10066329 * d + r" using qr(1) by simp
    then have e: "(5 * int n - 3 * int d) * 2 ^ 24 = 5 * int r - 3 * int d"
    proof -
      have "int (n * 2 ^ 24) = int (10066329 * d + r)" by (simp only: \<open>n * 2 ^ 24 = 10066329 * d + r\<close>)
      then have "int n * 16777216 = 10066329 * int d + int r" by simp
      then show ?thesis by simp
    qed
    have d24: "int d < 16777216" using assms(2) by simp
    have b: "- 16777216 < 5 * int r - 3 * int d \<longleftrightarrow> 0 \<le> 5 * int n - 3 * int d"
    proof -
      have "- 16777216 < k * 16777216 \<longleftrightarrow> 0 \<le> k" for k :: int by (cases "0 \<le> k") linarith+
      from this [of "5 * int n - 3 * int d"] show ?thesis using e by simp
    qed
    have "3 * d \<le> 5 * n \<longleftrightarrow> d < 2 * r"
    proof
      assume "3 * d \<le> 5 * n"
      then have "0 \<le> (5 * int n - 3 * int d) * 2 ^ 24" by simp
      then show "d < 2 * r" unfolding e using assms(1) by linarith
    next
      assume "d < 2 * r"
      then have "- 16777216 < 5 * int r - 3 * int d" using d24 by linarith
      then have "0 \<le> 5 * int n - 3 * int d" using b by simp
      then show "3 * d \<le> 5 * n" by linarith
    qed
    moreover have "2 * r \<noteq> d"
    proof
      assume "2 * r = d"
      then have "- 16777216 < 5 * int r - 3 * int d" and neg: "5 * int r - 3 * int d < 0" using d24 assms(1) by linarith+
      then have "0 \<le> 5 * int n - 3 * int d" using b by simp
      then have "0 \<le> (5 * int n - 3 * int d) * 2 ^ 24" by simp
      then show False using e neg by linarith
    qed
    ultimately show ?thesis using 2 rhe by auto
  next
    case 3
    then have "q * d \<le> 10066328 * d" by (rule mult_le_mono1)
    then have "n * 2 ^ 24 < 10066329 * d" using qr by linarith
    then have "5 * n < 3 * d" by simp
    then show ?thesis using 3 rhe by auto
  qed
qed

lemma f32_ratio_ge_three_fifths:
  assumes "n \<le> d" and "0 < d" and "d < 2 ^ 24"
  shows "0x3F19999A \<le> unat (f32_ratio n d) \<longleftrightarrow> 3 * d \<le> 5 * n"
proof -
  have r: "f32_ratio n d = f32_of_frac n d" using assms by (intro f32_ratio_exact) simp_all
  consider "n = d" | "d \<le> 2 * n" "n < d" | "2 * n < d" using assms(1) by linarith
  then show ?thesis
  proof cases
    case 1
    then show ?thesis using r f32_of_frac_one [OF assms(2)] by simp
  next
    case 2
    then show ?thesis using r f32_of_frac_upper [OF 2] round_half_even_threshold [OF 2(2) assms(3)] by simp
  next
    case 3
    have "unat (f32_of_frac n d) \<le> 124 * 2 ^ 23 + 2 ^ 24" using 3 by (intro f32_of_frac_le) simp_all
    then show ?thesis using r 3 by simp
  qed
qed

lemma f32_ratio_ge_half:
  assumes "n \<le> d" and "0 < d" and "d < 2 ^ 24"
  shows "0x3F000000 \<le> unat (f32_ratio n d) \<longleftrightarrow> d \<le> 2 * n"
proof -
  have r: "f32_ratio n d = f32_of_frac n d" using assms by (intro f32_ratio_exact) simp_all
  consider "n = d" | "d \<le> 2 * n" "n < d" | "2 * n < d" "d \<le> 4 * n" | "4 * n < d" using assms(1) by linarith
  then show ?thesis
  proof cases
    case 1
    then show ?thesis using r f32_of_frac_one [OF assms(2)] by simp
  next
    case 2
    have "2 ^ 23 \<le> n * 2 ^ 24 div d" using 2(1) assms(2) by (simp add: less_eq_div_iff_mult_less_eq)
    then have "2 ^ 23 \<le> round_half_even (n * 2 ^ 24) d" by (simp add: round_half_even_def Let_def)
    then show ?thesis using r f32_of_frac_upper [OF 2] 2(1) by simp
  next
    case 3
    have "f32_of_frac n d = of_nat (124 * 2 ^ 23 + round_half_even (n * 2 ^ 149) (d * 2 ^ 124))"
    proof (rule f32_of_frac_unfold)
      show "n * 2 ^ 149 < 2 ^ 24 * d * 2 ^ 124" using 3(1) by simp
      fix i :: nat assume "i < 124"
      then have "(2 :: nat) ^ i \<le> 2 ^ 123" by (intro power_increasing) simp_all
      then have "2 ^ 24 * d * 2 ^ i \<le> 2 ^ 24 * (4 * n) * 2 ^ 123" using 3(2) by (intro mult_le_mono) simp_all
      then show "2 ^ 24 * d * 2 ^ i \<le> n * 2 ^ 149" by simp
    qed simp
    also have "n * 2 ^ 149 = n * 2 ^ 25 * 2 ^ 124" by simp
    also have "round_half_even (n * 2 ^ 25 * 2 ^ 124) (d * 2 ^ 124) = round_half_even (n * 2 ^ 25) d"
      by (rule round_half_even_scale) simp
    finally have u: "f32_of_frac n d = of_nat (124 * 2 ^ 23 + round_half_even (n * 2 ^ 25) d)" .
    have "n * 2 ^ 25 < (2 ^ 24 - 1) * d" using 3(1) assms(3) by simp
    then have rhe: "round_half_even (n * 2 ^ 25) d \<le> 2 ^ 24 - 1" by (rule round_half_even_le)
    then have "124 * 2 ^ 23 + round_half_even (n * 2 ^ 25) d < 2 ^ 32" by simp
    then have "unat (f32_of_frac n d) = 124 * 2 ^ 23 + round_half_even (n * 2 ^ 25) d"
      unfolding u by (simp only: unat_of_nat) simp
    then show ?thesis using r rhe 3(1) by simp
  next
    case 4
    have "unat (f32_of_frac n d) \<le> 123 * 2 ^ 23 + 2 ^ 24" using 4 by (intro f32_of_frac_le) simp_all
    then show ?thesis using r 4 by simp
  qed
qed

text \<open>Comparing a ratio with a positive threshold compares the patterns.\<close>

lemma f32_ratio_small:
  assumes "n \<le> d" and "0 < d" and "d < 2 ^ 24"
  shows "unat (f32_ratio n d) \<le> 0x3F800000"
proof (cases "n = d")
  case True
  then show ?thesis using f32_ratio_exact [of d d] f32_of_frac_one assms by simp
next
  case False
  then have "unat (f32_of_frac n d) \<le> 125 * 2 ^ 23 + 2 ^ 24" using assms(1) by (intro f32_of_frac_le) simp_all
  then show ?thesis using f32_ratio_exact [of n d] assms by simp
qed

lemma f32_ge_pattern:
  assumes "unat x \<le> 0x3F800000" and "unat y \<le> 0x3F800000"
  shows "f32_ge x y \<longleftrightarrow> unat y \<le> unat x"
proof -
  have pos: "\<not> bit w 31 \<and> w AND 0x7FFFFFFF = w \<and> \<not> f32_nan w" if "unat w \<le> 0x3F800000" for w :: f32
  proof -
    have "w AND 0x7FFFFFFF = w AND mask 31" by (simp add: mask_eq_exp_minus_1)
    also have "\<dots> = take_bit 31 w" by (simp add: take_bit_eq_mask)
    also have "\<dots> = w"
      using that by (simp add: word_unat_eq_iff unsigned_take_bit_eq take_bit_nat_eq_self)
    finally have m: "w AND 0x7FFFFFFF = w" .
    then have "\<not> bit w 31" by (metis bit_take_bit_iff \<open>w AND mask 31 = take_bit 31 w\<close> \<open>w AND 0x7FFFFFFF = w AND mask 31\<close> less_irrefl)
    moreover have "\<not> f32_nan w" unfolding f32_nan_def m using that by (simp add: word_less_nat_alt)
    ultimately show ?thesis using m by simp
  qed
  show ?thesis using pos [OF assms(1)] pos [OF assms(2)]
    by (simp add: f32_ge_def f32_key_def word_le_nat_alt [symmetric] word_le_def)
qed

subsection \<open>Lemmas on strings\<close>

lemma split_by_not_Nil [simp]: "split_by P s \<noteq> []"
  by (induction s) (auto split: list.splits)

lemma strip_loop_clean: "60 \<notin> set (strip_loop d s) \<and> 62 \<notin> set (strip_loop d s)"
  by (induction d s rule: strip_loop.induct) auto

lemma strip_loop_id: "60 \<notin> set s \<Longrightarrow> 62 \<notin> set s \<Longrightarrow> strip_loop 0 s = s"
  by (induction s) auto

lemma strip_loop_marker:
  "60 \<notin> set m \<Longrightarrow> 62 \<notin> set m \<Longrightarrow> strip_loop 1 (m @ 62 # s) = strip_loop 0 s"
  by (induction m) auto

text \<open>
  The stripped span holds no angle bracket at all, stripping again changes nothing, text without brackets is
  kept as it is, and a marker vanishes together with its content wherever it stands.
\<close>

theorem strip_special_exact:
  "60 \<notin> set (strip_special_tokens s) \<and> 62 \<notin> set (strip_special_tokens s) \<and>
   strip_special_tokens (strip_special_tokens s) = strip_special_tokens s \<and>
   (60 \<notin> set s \<and> 62 \<notin> set s \<and> 60 \<notin> set m \<and> 62 \<notin> set m \<longrightarrow>
      strip_special_tokens s = s \<and> strip_special_tokens (s @ [60] @ m @ [62] @ t) = s @ strip_special_tokens t)"
proof -
  have "strip_loop 0 (s @ 60 # m @ 62 # t) = s @ strip_loop 0 t"
    if "60 \<notin> set s" "62 \<notin> set s" "60 \<notin> set m" "62 \<notin> set m"
    using that by (induction s) (auto simp: strip_loop_marker)
  then show ?thesis
    by (auto simp: strip_special_tokens_def strip_loop_clean strip_loop_id)
qed

theorem strip_special_exact_witness:
  "strip_special_tokens (lit ''the '' @ [60] @ lit ''audio|'' @ [62] @ lit ''depot'') = lit ''the depot''"
proof -
  have "strip_special_tokens (lit ''the '' @ [60] @ lit ''audio|'' @ [62] @ lit ''depot'') =
      lit ''the '' @ strip_special_tokens (lit ''depot'')"
    using strip_special_exact [of "lit ''the ''" "lit ''audio|''" "lit ''depot''"] by (simp add: lit_def)
  also have "strip_special_tokens (lit ''depot'') = lit ''depot''" by (simp add: strip_special_tokens_def lit_def)
  finally show ?thesis by (simp add: lit_def)
qed

subsection \<open>Accepting a citation, declining an attribute\<close>

text \<open>
  C27. A citation is accepted exactly when at least three fifths of the content words of its evidence occur in the
  cited text: the \<^verbatim>\<open>f32\<close> quotient and the rounded threshold decide the integer comparison, ties included.
\<close>

theorem evidence_accept_iff:
  assumes "length (overlap_toks evidence) < 2 ^ 24"
  shows "f32_ge (token_overlap evidence cited) OVERLAP_THR \<longleftrightarrow>
    overlap_toks evidence \<noteq> [] \<and>
    3 * length (overlap_toks evidence) \<le> 5 * length (filter (\<lambda>w. w \<in> set (overlap_toks cited)) (overlap_toks evidence))"
proof (cases "overlap_toks evidence = []")
  case True
  then show ?thesis by (simp add: token_overlap_def Let_def f32_ge_pattern OVERLAP_THR_def)
next
  case False
  let ?et = "overlap_toks evidence"
  let ?h = "length (filter (\<lambda>w. w \<in> set (overlap_toks cited)) ?et)"
  have h: "?h \<le> length ?et" "0 < length ?et" using False by simp_all
  have thr: "unat OVERLAP_THR = 0x3F19999A" by (simp add: OVERLAP_THR_def)
  have "f32_ge (f32_ratio ?h (length ?et)) OVERLAP_THR \<longleftrightarrow> 0x3F19999A \<le> unat (f32_ratio ?h (length ?et))"
    using f32_ge_pattern f32_ratio_small [OF h assms] thr by simp
  also have "\<dots> \<longleftrightarrow> 3 * length ?et \<le> 5 * ?h" by (rule f32_ratio_ge_three_fifths [OF h assms])
  finally show ?thesis using False by (simp only: token_overlap_def Let_def if_False) simp
qed

lemmas text_simps = lit_def ascii_letter_def digit_def ascii_lower1_def split_whitespace_def is_ws_def blen_def utf8_def
  utf8_char_def ascii_upper_def

theorem evidence_accept_iff_witness:
  "f32_ge (token_overlap (lit ''Rail depot code'') (lit ''the rail-depot'')) OVERLAP_THR \<and>
   \<not> f32_ge (token_overlap (lit ''Rail code'') (lit ''the rail-depot'')) OVERLAP_THR"
proof -
  have e: "overlap_toks (lit ''Rail depot code'') = map lit [''rail'', ''depot'', ''code'']"
    "overlap_toks (lit ''Rail code'') = map lit [''rail'', ''code'']"
    "overlap_toks (lit ''the rail-depot'') = map lit [''rail'', ''depot'']"
    by (simp_all add: overlap_toks_def OVERLAP_STOP_def text_simps)
  show ?thesis
    using evidence_accept_iff [of "lit ''Rail depot code''" "lit ''the rail-depot''"]
      evidence_accept_iff [of "lit ''Rail code''" "lit ''the rail-depot''"]
    unfolding e by (simp add: lit_def)
qed

text \<open>
  With the default threshold of a half the grounding gate fires exactly when at least half of the salient words
  of the query are absent from the memory.
\<close>

theorem attr_absent_half_iff:
  assumes "length (attr_words u query) < 2 ^ 24"
  shows "f32_ge (attr_absent_ratio u query known) 0x3F000000 \<longleftrightarrow>
    attr_words u query \<noteq> [] \<and>
    length (attr_words u query) \<le> 2 * length (filter (\<lambda>w. w \<notin> set (attr_toks u known)) (attr_words u query))"
proof (cases "attr_words u query = []")
  case True
  then show ?thesis by (simp add: attr_absent_ratio_def Let_def f32_ge_pattern)
next
  case False
  let ?q = "attr_words u query"
  let ?h = "length (filter (\<lambda>w. w \<notin> set (attr_toks u known)) ?q)"
  have h: "?h \<le> length ?q" "0 < length ?q" using False by simp_all
  have "f32_ge (f32_ratio ?h (length ?q)) 0x3F000000 \<longleftrightarrow> 0x3F000000 \<le> unat (f32_ratio ?h (length ?q))"
    using f32_ge_pattern [of "f32_ratio ?h (length ?q)" "0x3F000000"] f32_ratio_small [OF h assms] by simp
  also have "\<dots> \<longleftrightarrow> length ?q \<le> 2 * ?h" by (rule f32_ratio_ge_half [OF h assms])
  finally show ?thesis using False by (simp only: attr_absent_ratio_def Let_def if_False) simp
qed

definition ascii_uni :: uni where
  "ascii_uni = \<lparr>lower = map ascii_lower1, alnum = (\<lambda>c. ascii_letter c \<or> digit c)\<rparr>"

theorem attr_absent_half_iff_witness:
  "f32_ge (attr_absent_ratio ascii_uni (lit ''maker of Node-7?'') (lit ''code for Node-7'')) 0x3F000000"
proof -
  have e: "attr_words ascii_uni (lit ''maker of Node-7?'') = map lit [''maker'', ''node'']"
    "attr_toks ascii_uni (lit ''code for Node-7'') = map lit [''code'', ''for'', ''node'', ''7'']"
    by (simp_all add: attr_words_def attr_toks_def ascii_uni_def ATTR_STOP_def text_simps)
  show ?thesis
    using attr_absent_half_iff [of ascii_uni "lit ''maker of Node-7?''" "lit ''code for Node-7''"]
    unfolding e by (simp add: lit_def)
qed

subsection \<open>The pick of a verifier's reply\<close>

definition best_pick :: "ustr \<Rightarrow> ustr list \<Rightarrow> nat option \<times> nat option \<Rightarrow> bool" where
  "best_pick up ts st \<longleftrightarrow>
     (case st of
        (None, ti) \<Rightarrow> ti = None \<and> (\<forall>k < length ts. find_sub (ascii_upper (ts ! k)) up = None)
      | (Some m, ti) \<Rightarrow>
          (\<exists>j. ti = Some j \<and> m < length ts \<and> find_sub (ascii_upper (ts ! m)) up = Some j \<and>
             (\<forall>k < length ts. \<forall>jk. find_sub (ascii_upper (ts ! k)) up = Some jk \<longrightarrow> j \<le> jk \<and> (jk = j \<longrightarrow> m \<le> k))))"

lemma best_pick_snoc:
  assumes "best_pick up ts (pick, ti)"
  shows "best_pick up (ts @ [t])
    (case find_sub (ascii_upper t) up of
       Some j \<Rightarrow> if ti = None \<or> j < the ti then (Some (length ts), Some j) else (pick, ti)
     | None \<Rightarrow> (pick, ti))"
proof (cases "find_sub (ascii_upper t) up")
  case None
  then show ?thesis using assms by (auto simp: best_pick_def nth_append less_Suc_eq split: option.splits)
next
  case (Some j)
  show ?thesis
  proof (cases pick)
    case None
    then show ?thesis using assms Some by (auto simp: best_pick_def nth_append less_Suc_eq)
  next
    case (Some m)
    then obtain j0 where m: "ti = Some j0" "m < length ts" "find_sub (ascii_upper (ts ! m)) up = Some j0"
      and best: "\<And>k jk. k < length ts \<Longrightarrow> find_sub (ascii_upper (ts ! k)) up = Some jk \<Longrightarrow> j0 \<le> jk \<and> (jk = j0 \<longrightarrow> m \<le> k)"
      using assms by (auto simp: best_pick_def)
    show ?thesis
    proof (cases "j < j0")
      case True
      then show ?thesis using \<open>find_sub (ascii_upper t) up = Some j\<close> m(1) best
        by (fastforce simp: best_pick_def nth_append less_Suc_eq)
    next
      case False
      then show ?thesis using \<open>find_sub (ascii_upper t) up = Some j\<close> m best Some
        by (fastforce simp: best_pick_def nth_append less_Suc_eq)
    qed
  qed
qed

lemma pick_tag_best:
  "best_pick up ps st \<Longrightarrow> best_pick up (ps @ ts) (pick_tag up (length ps) ts st)"
proof (induction ts arbitrary: ps st)
  case (Cons t ts)
  obtain pick ti where st: "st = (pick, ti)" by (cases st)
  have "best_pick up (ps @ [t]) (case find_sub (ascii_upper t) up of
       Some j \<Rightarrow> if ti = None \<or> j < the ti then (Some (length ps), Some j) else (pick, ti) | None \<Rightarrow> (pick, ti))"
    using best_pick_snoc Cons.prems st by simp
  from Cons.IH [OF this] show ?case by (simp add: st)
qed simp

text \<open>
  C18. The reply picks tag number \<open>i\<close> exactly when that tag occurs in it (ignoring ASCII case), no other tag starts
  earlier, none of those before it in the list starts at the same place, and the word NONE does not come first.
\<close>

theorem parse_pick_exact:
  "parse_pick up tags = Some i \<longleftrightarrow>
   i < length tags \<and>
   (\<exists>j. find_sub (ascii_upper (tags ! i)) up = Some j \<and>
      (\<forall>k < length tags. \<forall>jk. find_sub (ascii_upper (tags ! k)) up = Some jk \<longrightarrow> j \<le> jk \<and> (jk = j \<longrightarrow> i \<le> k)) \<and>
      (\<forall>jn. find_sub (lit ''NONE'') up = Some jn \<longrightarrow> j \<le> jn))"
proof -
  obtain pick ti where r: "pick_tag up 0 tags (None, None) = (pick, ti)" by (cases "pick_tag up 0 tags (None, None)")
  have "best_pick up [] (None, None)" by (simp add: best_pick_def)
  from pick_tag_best [OF this, of tags] have b: "best_pick up tags (pick, ti)" using r by simp
  show ?thesis
  proof (cases pick)
    case None
    then show ?thesis using b r by (auto simp: parse_pick_def best_pick_def split: option.split)
  next
    case (Some m)
    then obtain j where j: "ti = Some j" "m < length tags" "find_sub (ascii_upper (tags ! m)) up = Some j"
      and best: "\<forall>k < length tags. \<forall>jk. find_sub (ascii_upper (tags ! k)) up = Some jk \<longrightarrow> j \<le> jk \<and> (jk = j \<longrightarrow> m \<le> k)"
      using b by (auto simp: best_pick_def)
    have run: "parse_pick up tags = (case find_sub (lit ''NONE'') up of Some jn \<Rightarrow> if jn < j then None else Some m | None \<Rightarrow> Some m)"
      using r Some j(1) by (simp add: parse_pick_def split: option.split)
    show ?thesis
    proof
      assume "parse_pick up tags = Some i"
      then show "i < length tags \<and> (\<exists>j. find_sub (ascii_upper (tags ! i)) up = Some j \<and>
          (\<forall>k < length tags. \<forall>jk. find_sub (ascii_upper (tags ! k)) up = Some jk \<longrightarrow> j \<le> jk \<and> (jk = j \<longrightarrow> i \<le> k)) \<and>
          (\<forall>jn. find_sub (lit ''NONE'') up = Some jn \<longrightarrow> j \<le> jn))"
        using run j(2,3) best by (auto split: option.splits if_splits)
    next
      assume a: "i < length tags \<and> (\<exists>j. find_sub (ascii_upper (tags ! i)) up = Some j \<and>
          (\<forall>k < length tags. \<forall>jk. find_sub (ascii_upper (tags ! k)) up = Some jk \<longrightarrow> j \<le> jk \<and> (jk = j \<longrightarrow> i \<le> k)) \<and>
          (\<forall>jn. find_sub (lit ''NONE'') up = Some jn \<longrightarrow> j \<le> jn))"
      then obtain j' where j': "find_sub (ascii_upper (tags ! i)) up = Some j'"
        "\<forall>k < length tags. \<forall>jk. find_sub (ascii_upper (tags ! k)) up = Some jk \<longrightarrow> j' \<le> jk \<and> (jk = j' \<longrightarrow> i \<le> k)"
        "\<forall>jn. find_sub (lit ''NONE'') up = Some jn \<longrightarrow> j' \<le> jn" and i: "i < length tags" by blast
      have "j = j'" "m = i" using best i j'(1,2) j(2,3) by (meson antisym)+
      then show "parse_pick up tags = Some i" using run j'(3) by (auto split: option.split)
    qed
  qed
qed

theorem parse_pick_exact_witness: "parse_pick (lit ''TAG=J1P|NONE'') (map lit [''w0c'', ''j1p'']) = Some 1"
proof -
  have f: "find_sub (ascii_upper (lit ''j1p'')) (lit ''TAG=J1P|NONE'') = Some 4"
    "find_sub (ascii_upper (lit ''w0c'')) (lit ''TAG=J1P|NONE'') = None"
    "find_sub (lit ''NONE'') (lit ''TAG=J1P|NONE'') = Some 8"
    by (simp_all add: text_simps)
  show ?thesis unfolding parse_pick_exact by (auto simp: f less_Suc_eq)
qed

end
