(* ===== verification/Mem_Okf.thy ===== *)
theory Mem_Okf
  imports Recall_Text
begin

text \<open>
  The MEM-OKF side of \<^verbatim>\<open>recall.rs\<close>: the delivery policy of a memory, the concept file the daemon writes beside an
  episode and the two readers of that file.
\<close>

subsection \<open>Policies\<close>

record mem_policy =
  mem_class :: ustr
  mem_delivery :: ustr
  decline_when :: "ustr list"
  decline_message :: ustr

definition class_default_delivery :: "ustr \<Rightarrow> ustr" where
  "class_default_delivery cls =
     (if cls = lit ''private-secret'' then lit ''attr-gate-strict''
      else if cls = lit ''counterfact'' \<or> cls = lit ''same-template'' then lit ''systemecho''
      else if cls = lit ''preference'' \<or> cls = lit ''persona'' then lit ''system''
      else lit ''recite'')"

definition SECRET_MESSAGE :: ustr where
  "SECRET_MESSAGE = lit ''I have a record for that entity, but it does not include that specific detail.''"

definition from_class :: "ustr \<Rightarrow> mem_policy" where
  "from_class cls =
     (let (dw, dm) = (if cls = lit ''private-secret''
                      then ([lit ''zero-inference'', lit ''attribute-absent''], SECRET_MESSAGE) else ([], []))
      in \<lparr>mem_class = cls, mem_delivery = class_default_delivery cls, decline_when = dw, decline_message = dm\<rparr>)"

subsection \<open>The concept file\<close>

definition mem_authority :: "ustr \<Rightarrow> ustr" where
  "mem_authority cls =
     (if cls = lit ''private-secret'' then lit ''private''
      else if cls \<in> set (map lit [''persona'', ''preference'', ''fact'', ''episodic-event'']) then lit ''supplements''
      else lit ''overrides-prior'')"

definition okf_title :: "ustr \<Rightarrow> ustr" where
  "okf_title s = map (\<lambda>c. if c = 10 then 32 else c) (take 60 s)"

definition kv_line :: "string \<Rightarrow> ustr \<Rightarrow> ustr" where
  "kv_line k v = lit k @ [58, 32] @ v"

definition okf_head :: "ustr \<Rightarrow> ustr \<Rightarrow> ustr \<Rightarrow> ustr list" where
  "okf_head s cls name =
     (let pol = from_class cls in
      [lit ''---'', kv_line ''type'' (lit ''memory''), kv_line ''title'' (okf_title s), kv_line ''description'' (okf_title s),
       kv_line ''tags'' (lit ''[mem-okf, episode, '' @ cls @ lit '']''), kv_line ''sp_status'' (lit ''ACTIVE''),
       kv_line ''mem_kind'' (lit ''episode''), kv_line ''mem_addr'' name, kv_line ''mem_class'' cls,
       kv_line ''mem_delivery'' (mem_delivery pol), kv_line ''mem_authority'' (mem_authority cls)] @
      (if decline_when pol = [] then []
       else [kv_line ''mem_decline_when'' (lit ''['' @ join (lit '', '') (decline_when pol) @ lit '']''),
             kv_line ''mem_decline_message'' (decline_message pol)]) @
      [lit ''---'', []])"

definition okf_text :: "ustr \<Rightarrow> ustr \<Rightarrow> ustr \<Rightarrow> ustr" where
  "okf_text s cls name = concat (map (\<lambda>l. l @ [10]) (okf_head s cls name)) @ s @ [10]"

text \<open>Writing is a parameter; its failure is ignored by the source.\<close>

definition write_episode_okf :: "(ustr \<Rightarrow> bytes \<Rightarrow> 'fs \<Rightarrow> 'fs) \<Rightarrow> ustr \<Rightarrow> ustr \<Rightarrow> ustr \<Rightarrow> ustr \<Rightarrow> 'fs \<Rightarrow> 'fs" where
  "write_episode_okf fs_write dir s cls name fs = fs_write (dir @ lit ''/ep.okf.md'') (utf8 (okf_text s cls name)) fs"

record okf_fields =
  f_class :: "ustr option"
  f_delivery :: "ustr option"
  f_when :: "ustr list"
  f_message :: ustr

definition split_once :: "nat \<Rightarrow> ustr \<Rightarrow> (ustr \<times> ustr) option" where
  "split_once c s = (if c \<in> set s then Some (takeWhile (\<lambda>x. x \<noteq> c) s, tl (dropWhile (\<lambda>x. x \<noteq> c) s)) else None)"

definition bracket :: "nat \<Rightarrow> bool" where
  "bracket c \<longleftrightarrow> c = 91 \<or> c = 93"

definition comma_items :: "ustr \<Rightarrow> ustr list" where
  "comma_items v = filter (\<lambda>x. x \<noteq> []) (map trim (split_on 44 v))"

definition okf_set :: "ustr \<Rightarrow> ustr \<Rightarrow> okf_fields \<Rightarrow> okf_fields" where
  "okf_set k v f =
     (if k = lit ''mem_class'' then f\<lparr>f_class := Some v\<rparr>
      else if k = lit ''mem_delivery'' then f\<lparr>f_delivery := Some v\<rparr>
      else if k = lit ''mem_decline_when'' then f\<lparr>f_when := comma_items (trim_matches bracket v)\<rparr>
      else if k = lit ''mem_decline_message'' then f\<lparr>f_message := v\<rparr>
      else f)"

definition okf_field :: "ustr \<Rightarrow> okf_fields \<Rightarrow> okf_fields" where
  "okf_field line f = (case split_once 58 line of None \<Rightarrow> f | Some (k, v) \<Rightarrow> okf_set (trim k) (trim v) f)"

fun okf_lines :: "bool \<Rightarrow> ustr list \<Rightarrow> okf_fields \<Rightarrow> okf_fields" where
  "okf_lines in_fm [] f = f"
| "okf_lines in_fm (l # ls) f =
     (if trim l = lit ''---'' then (if in_fm then f else okf_lines True ls f)
      else if \<not> in_fm then okf_lines in_fm ls f
      else okf_lines in_fm ls (okf_field l f))"

definition parse_okf_policy :: "ustr \<Rightarrow> mem_policy option" where
  "parse_okf_policy s =
     (let f = okf_lines False (str_lines s) \<lparr>f_class = None, f_delivery = None, f_when = [], f_message = []\<rparr> in
      case f_class f of None \<Rightarrow> None
      | Some cls \<Rightarrow>
          Some \<lparr>mem_class = cls,
                mem_delivery = (case f_delivery f of Some d \<Rightarrow> d | None \<Rightarrow> class_default_delivery cls),
                decline_when = f_when f, decline_message = f_message f\<rparr>)"

text \<open>\<^verbatim>\<open>read_to_string\<close> fails on a missing file and on bytes that are not UTF-8.\<close>

definition load_episode_okf_policy :: "(ustr \<Rightarrow> bytes option) \<Rightarrow> ustr \<Rightarrow> mem_policy option" where
  "load_episode_okf_policy fs dir =
     (case fs (dir @ lit ''/ep.okf.md'') of None \<Rightarrow> None
      | Some bs \<Rightarrow> (case from_utf8 bs of None \<Rightarrow> None | Some s \<Rightarrow> parse_okf_policy s))"

fun body_loop :: "nat \<Rightarrow> ustr list \<Rightarrow> nat \<times> ustr" where
  "body_loop fences [] = (fences, [])"
| "body_loop fences (l # ls) =
     (if trim l = lit ''---'' \<and> fences < 2 then body_loop (fences + 1) ls
      else case body_loop fences ls of
        (n, b) \<Rightarrow> (n, if 2 \<le> fences then l @ [10] @ b else b))"

definition okf_body :: "ustr \<Rightarrow> ustr" where
  "okf_body s = (case body_loop 0 (str_lines s) of (n, b) \<Rightarrow> trim (if 2 \<le> n then b else s))"

subsection \<open>Lines and trimming\<close>

lemma str_lines_Cons:
  assumes "10 \<notin> set l"
  shows "str_lines (l @ 10 # s) = strip_cr l # str_lines s"
  using assms by (simp add: str_lines_def split_on_append Let_def)

lemma str_lines_concat:
  "list_all (\<lambda>l. 10 \<notin> set l) ls \<Longrightarrow> str_lines (concat (map (\<lambda>l. l @ [10]) ls) @ s) = map strip_cr ls @ str_lines s"
  by (induction ls) (simp_all add: str_lines_Cons)

lemma trim_end_Cons: "\<not> is_ws c \<Longrightarrow> trim_end (c # s) = c # trim_end s"
  by (cases "\<forall>x \<in> set s. is_ws x") (auto simp: trim_end_def dropWhile_append)

lemma trim_Cons: "\<not> is_ws c \<Longrightarrow> trim (c # s) = c # trim_end s"
  by (simp add: trim_def trim_start_def trim_end_Cons)

lemma trim_space: "is_ws c \<Longrightarrow> trim (c # s) = trim s"
  by (simp add: trim_def trim_start_def)

lemma trim_snoc: "is_ws c \<Longrightarrow> trim (s @ [c]) = trim s"
  by (cases "\<forall>x \<in> set s. is_ws x") (auto simp: trim_def trim_start_def trim_end_def dropWhile_append dest: set_dropWhileD)

lemma strip_cr_Cons: "c \<noteq> 13 \<Longrightarrow> strip_cr (c # s) = c # strip_cr s"
  by (simp add: strip_cr_def)

lemma trim_strip_cr: "trim (strip_cr s) = trim s"
proof (cases "s \<noteq> [] \<and> last s = 13")
  case True
  then have "s = butlast s @ [13]" by (metis append_butlast_last_id)
  then show ?thesis using True trim_snoc [of 13 "butlast s"] by (simp add: strip_cr_def is_ws_def)
next
  case False
  then show ?thesis by (auto simp: strip_cr_def)
qed

text \<open>A line that starts with a letter is no fence.\<close>

lemma no_fence: "\<not> is_ws c \<Longrightarrow> c \<noteq> 45 \<Longrightarrow> trim (strip_cr (c # s)) \<noteq> lit ''---''"
  by (simp add: trim_strip_cr trim_Cons lit_def)

subsection \<open>Reading the file back\<close>

definition key_ok :: "string \<Rightarrow> bool" where
  "key_ok k \<longleftrightarrow> k \<noteq> [] \<and> list_all (\<lambda>c. \<not> is_ws c \<and> c \<noteq> 58 \<and> c \<noteq> 45 \<and> c \<noteq> 13 \<and> c \<noteq> 10) (lit k)"

lemma strip_cr_append: "s \<noteq> [] \<Longrightarrow> strip_cr (r @ s) = r @ strip_cr s"
  by (simp add: strip_cr_def butlast_append)

lemma kv_line_step:
  assumes "key_ok k"
  shows "okf_lines True (strip_cr (kv_line k v) # ls) f = okf_lines True ls (okf_set (lit k) (trim v) f)"
proof -
  obtain c r where k: "lit k = c # r" using assms by (cases "lit k") (auto simp: key_ok_def lit_def)
  then have c: "\<not> is_ws c" "c \<noteq> 45" using assms by (simp_all add: key_ok_def)
  have colon: "\<forall>x \<in> set (lit k). x \<noteq> 58" and ws: "\<forall>x \<in> set (lit k). \<not> is_ws x" using assms by (auto simp: key_ok_def list_all_iff)
  have line: "strip_cr (kv_line k v) = lit k @ 58 # strip_cr (32 # v)"
    using strip_cr_append [of "32 # v" "lit k @ [58]"] by (simp add: kv_line_def)
  have "trim (strip_cr (kv_line k v)) \<noteq> lit ''---''" using no_fence [OF c] k by (simp add: kv_line_def)
  moreover have "split_once 58 (strip_cr (kv_line k v)) = Some (lit k, strip_cr (32 # v))"
    unfolding line split_once_def using colon by (simp add: takeWhile_append2 dropWhile_append2)
  moreover have "trim (strip_cr (32 # v)) = trim v" unfolding trim_strip_cr by (rule trim_space) (simp add: is_ws_def)
  ultimately show ?thesis by (simp add: okf_field_def trim_id [OF ws])
qed

lemma fixed_values:
  "10 \<notin> set (class_default_delivery cls)" "trim (class_default_delivery cls) = class_default_delivery cls"
  "10 \<notin> set (mem_authority cls)" "10 \<notin> set (okf_title s)"
  by (auto simp: class_default_delivery_def mem_authority_def okf_title_def trim_def trim_start_def trim_end_def is_ws_def lit_def)

lemma okf_head_lines:
  assumes "10 \<notin> set cls" and "10 \<notin> set name"
  shows "list_all (\<lambda>l. 10 \<notin> set l) (okf_head s cls name)"
  using assms by (auto simp: okf_head_def from_class_def kv_line_def Let_def fixed_values lit_def SECRET_MESSAGE_def)

lemma okf_text_lines:
  assumes "10 \<notin> set cls" and "10 \<notin> set name"
  shows "str_lines (okf_text s cls name) = map strip_cr (okf_head s cls name) @ str_lines (s @ [10])"
  unfolding okf_text_def by (rule str_lines_concat [OF okf_head_lines [OF assms]])

lemma fence_line: "trim (strip_cr (lit ''---'')) = lit ''---''"
  by (simp add: strip_cr_def lit_def trim_def trim_start_def trim_end_def is_ws_def)

lemma okf_keys: "key_ok ''type''" "key_ok ''title''" "key_ok ''description''" "key_ok ''tags''" "key_ok ''sp_status''"
  "key_ok ''mem_kind''" "key_ok ''mem_addr''" "key_ok ''mem_class''" "key_ok ''mem_delivery''" "key_ok ''mem_authority''"
  "key_ok ''mem_decline_when''" "key_ok ''mem_decline_message''"
  by (simp_all add: key_ok_def lit_def is_ws_def)

lemma okf_sets:
  "okf_set (lit ''type'') v f = f" "okf_set (lit ''title'') v f = f" "okf_set (lit ''description'') v f = f"
  "okf_set (lit ''tags'') v f = f" "okf_set (lit ''sp_status'') v f = f" "okf_set (lit ''mem_kind'') v f = f"
  "okf_set (lit ''mem_addr'') v f = f" "okf_set (lit ''mem_authority'') v f = f"
  "okf_set (lit ''mem_class'') v f = f\<lparr>f_class := Some v\<rparr>" "okf_set (lit ''mem_delivery'') v f = f\<lparr>f_delivery := Some v\<rparr>"
  "okf_set (lit ''mem_decline_when'') v f = f\<lparr>f_when := comma_items (trim_matches bracket v)\<rparr>"
  "okf_set (lit ''mem_decline_message'') v f = f\<lparr>f_message := v\<rparr>"
  by (simp_all add: okf_set_def lit_def)

lemma decline_fields:
  "comma_items (trim_matches bracket (trim (lit ''['' @ join (lit '', '') [lit ''zero-inference'', lit ''attribute-absent''] @ lit '']''))) =
    [lit ''zero-inference'', lit ''attribute-absent'']"
  "trim SECRET_MESSAGE = SECRET_MESSAGE"
  by (simp_all add: comma_items_def trim_matches_def bracket_def lit_def SECRET_MESSAGE_def trim_def trim_start_def trim_end_def is_ws_def)

text \<open>
  C19. The policy of a captured memory survives the file: whatever the text of the memory holds (fences, colons, carriage
  returns), reading the concept file written for a class gives back exactly the policy of that class.
\<close>

theorem okf_policy_roundtrip:
  assumes "10 \<notin> set cls" and "trim cls = cls" and "10 \<notin> set name"
  shows "parse_okf_policy (okf_text s cls name) = Some (from_class cls)"
proof -
  let ?e = "\<lparr>f_class = None, f_delivery = None, f_when = [], f_message = []\<rparr>"
  let ?p = "from_class cls"
  have stop: "okf_lines True (strip_cr (lit ''---'') # ls) f = f" for ls f by (simp add: fence_line)
  have start: "okf_lines False (strip_cr (lit ''---'') # ls) f = okf_lines True ls f" for ls f by (simp add: fence_line)
  have "okf_lines False (str_lines (okf_text s cls name)) ?e =
      \<lparr>f_class = Some cls, f_delivery = Some (class_default_delivery cls), f_when = decline_when ?p, f_message = decline_message ?p\<rparr>"
  proof (cases "cls = lit ''private-secret''")
    case True
    have pol: "decline_when ?p = [lit ''zero-inference'', lit ''attribute-absent'']" "decline_message ?p = SECRET_MESSAGE"
      "mem_delivery ?p = class_default_delivery cls" using True by (simp_all add: from_class_def)
    show ?thesis
      by (simp add: okf_text_lines assms okf_head_def Let_def pol start stop kv_line_step okf_keys okf_sets fixed_values decline_fields
          del: okf_lines.simps(2) join.simps)
  next
    case False
    have pol: "decline_when ?p = []" "decline_message ?p = []" "mem_delivery ?p = class_default_delivery cls"
      using False by (simp_all add: from_class_def)
    show ?thesis
      by (simp add: okf_text_lines assms okf_head_def Let_def pol start stop kv_line_step okf_keys okf_sets fixed_values
          del: okf_lines.simps(2))
  qed
  then show ?thesis by (simp add: parse_okf_policy_def from_class_def Let_def split: prod.split)
qed

theorem okf_policy_roundtrip_witness:
  "parse_okf_policy (okf_text (lit ''the gate code is 77'') (lit ''private-secret'') (lit ''ns-1'')) =
     Some \<lparr>mem_class = lit ''private-secret'', mem_delivery = lit ''attr-gate-strict'',
       decline_when = [lit ''zero-inference'', lit ''attribute-absent''], decline_message = SECRET_MESSAGE\<rparr>"
proof -
  have "10 \<notin> set (lit ''private-secret'')" "trim (lit ''private-secret'') = lit ''private-secret''" "10 \<notin> set (lit ''ns-1'')"
    by (simp_all add: lit_def trim_def trim_start_def trim_end_def is_ws_def)
  from okf_policy_roundtrip [OF this] show ?thesis by (simp add: from_class_def class_default_delivery_def)
qed

text \<open>The body: everything after the second fence, with the ends trimmed.\<close>

lemma concat_split: "concat (map (\<lambda>l. l @ [c]) (split_on c s)) = s @ [c]"
  by (induction s) (auto split: list.splits)

lemma split_on_snoc: "split_on c (s @ [c]) = split_on c s @ [[]]"
  by (induction s) (auto split: list.splits)

lemma split_on_sub: "l \<in> set (split_on c s) \<Longrightarrow> set l \<subseteq> set s"
proof (induction s arbitrary: l)
  case (Cons x s)
  obtain p ps where ps: "split_on c s = p # ps" by (cases "split_on c s") auto
  then show ?case using Cons.prems Cons.IH [of p] Cons.IH [of l] by (auto split: if_splits)
qed simp

lemma str_lines_back:
  assumes "13 \<notin> set s"
  shows "concat (map (\<lambda>l. l @ [10]) (str_lines (s @ [10]))) = s @ [10]"
proof -
  have "strip_cr l = l" if "l \<in> set (split_on 10 s)" for l
  proof -
    have "l \<noteq> [] \<Longrightarrow> last l \<in> set s" using split_on_sub [OF that] last_in_set [of l] by blast
    then have "l \<noteq> [] \<Longrightarrow> last l \<noteq> 13" using assms by metis
    then show ?thesis by (auto simp: strip_cr_def)
  qed
  then have "map strip_cr (split_on 10 s) = split_on 10 s" by (rule map_idI)
  then show ?thesis by (simp add: str_lines_def split_on_snoc Let_def concat_split)
qed

lemma body_loop_rest: "2 \<le> n \<Longrightarrow> body_loop n ls = (n, concat (map (\<lambda>l. l @ [10]) ls))"
  by (induction ls) auto

lemma body_loop_key:
  assumes "key_ok k" and "n < 2"
  shows "body_loop n (strip_cr (kv_line k v) # ls) = body_loop n ls"
proof -
  obtain c r where k: "lit k = c # r" "\<not> is_ws c" "c \<noteq> 45" using assms(1) by (cases "lit k") (auto simp: key_ok_def lit_def)
  then have "trim (strip_cr (kv_line k v)) \<noteq> lit ''---''" using no_fence by (simp add: kv_line_def)
  then show ?thesis using assms(2) by (simp split: prod.split)
qed

text \<open>
  The text of a memory without carriage returns is read back trimmed and otherwise unchanged, also when it holds
  fence lines of its own or starts with the words of the attribution.
\<close>

theorem okf_body_roundtrip:
  assumes "10 \<notin> set cls" and "10 \<notin> set name" and "13 \<notin> set s"
  shows "okf_body (okf_text s cls name) = trim s"
proof -
  have fence: "body_loop n (strip_cr (lit ''---'') # ls) = body_loop (n + 1) ls" if "n < 2" for n ls
    using that by (simp add: fence_line)
  have "body_loop 0 (str_lines (okf_text s cls name)) = body_loop 2 (strip_cr [] # str_lines (s @ [10]))"
    by (simp add: okf_text_lines assms okf_head_def Let_def fence body_loop_key okf_keys numeral_2_eq_2 del: body_loop.simps(2))
  also have "\<dots> = (2, 10 # s @ [10])"
    using assms(3) by (subst body_loop_rest) (simp_all add: str_lines_back strip_cr_def)
  finally show ?thesis using trim_space [of 10 "s @ [10]"] trim_snoc [of 10 s] by (simp add: okf_body_def is_ws_def)
qed

theorem okf_body_roundtrip_witness:
  "okf_body (okf_text (lit ''The user said: hi'' @ [10] @ lit ''---'') (lit ''persona'') (lit ''ns-2'')) =
     lit ''The user said: hi'' @ [10] @ lit ''---''"
proof -
  have "10 \<notin> set (lit ''persona'')" "10 \<notin> set (lit ''ns-2'')" "13 \<notin> set (lit ''The user said: hi'' @ [10] @ lit ''---'')"
    by (simp_all add: lit_def)
  from okf_body_roundtrip [OF this] show ?thesis by (simp add: lit_def trim_def trim_start_def trim_end_def is_ws_def)
qed

end
