(* ===== verification/Recall.thy ===== *)
theory Recall
  imports Mem_Okf Sampler
begin

text \<open>
  \<^verbatim>\<open>recall.rs\<close>: the signatures of the bit resolver, the episode registry and its files, and the latent scores. Files
  are a map from paths to contents, \<^verbatim>\<open>serde_json\<close> is a parameter; \<^verbatim>\<open>f64\<close> and the rounding \<^verbatim>\<open>f32\<close> operations are the
  record \<open>vec_ops\<close>, which extends that of the sampler.
\<close>

definition SEED :: u64 where "SEED = 0x5350524F4A2B"
definition R_BITS :: nat where "R_BITS = 256"
definition HD :: nat where "HD = 512"
definition NL :: nat where "NL = 48"
definition PERIOD :: nat where "PERIOD = 6"
definition TAU_BITS :: nat where "TAU_BITS = 168"
definition G_NH :: nat where "G_NH = 16"
definition L5_LAYER :: nat where "L5_LAYER = 5"

record 'd vec_ops = "'d float_ops" +
  dsqrt :: "'d \<Rightarrow> 'd"
  dln :: "'d \<Rightarrow> 'd"
  narrow :: "'d \<Rightarrow> f32"
  of_count :: "nat \<Rightarrow> 'd"
  of_sign :: "int \<Rightarrow> 'd"
  fadd :: "f32 \<Rightarrow> f32 \<Rightarrow> f32"

subsection \<open>Signatures\<close>

definition smix_out :: "u64 \<Rightarrow> u64" where
  "smix_out s =
     (let z1 = (s XOR drop_bit 30 s) * 0xBF58476D1CE4E5B9; z2 = (z1 XOR drop_bit 27 z1) * 0x94D049BB133111EB
      in z2 XOR drop_bit 31 z2)"

fun smix :: "u64 \<Rightarrow> nat \<Rightarrow> int list" where
  "smix s 0 = []"
| "smix s (Suc n) =
     (let s1 = s + 0x9E3779B97F4A7C15 in (if bit (smix_out s1) 0 then 1 else - 1) # smix s1 n)"

definition projection :: "int list" where
  "projection = smix SEED (R_BITS * HD)"

text \<open>A signature is four words; \<open>set_sig\<close> is \<^verbatim>\<open>words[bit / 64] |= 1u64 << (bit % 64)\<close>.\<close>

definition set_sig :: "nat \<Rightarrow> u64 list \<Rightarrow> u64 list" where
  "set_sig b ws = ws[b div 64 := ws ! (b div 64) OR push_bit (b mod 64) 1]"

definition sig_dot :: "('d, 'm) vec_ops_scheme \<Rightarrow> int list \<Rightarrow> f32 list \<Rightarrow> nat \<Rightarrow> nat \<Rightarrow> 'd" where
  "sig_dot ops r gk v b =
     foldl (\<lambda>dot d. dadd ops dot (dmul ops (of_sign ops (r ! (b * HD + d))) (widen ops (gk ! (v * HD + d)))))
       (dzero ops) [0..<HD]"

definition signature :: "('d, 'm) vec_ops_scheme \<Rightarrow> int list \<Rightarrow> f32 list \<Rightarrow> nat \<Rightarrow> nat \<Rightarrow> u64 list" where
  "signature ops r gk n_global npos =
     foldl (\<lambda>ws b.
        let acc = foldl (\<lambda>a v. dadd ops a (sig_dot ops r gk v b)) (dzero ops) [0..<n_global * npos]
        in if dlt ops (dzero ops) (ddiv ops acc (of_count ops (n_global * npos))) then set_sig b ws else ws)
       [0, 0, 0, 0] [0..<R_BITS]"

definition agree :: "u64 list \<Rightarrow> u64 list \<Rightarrow> nat" where
  "agree a b = R_BITS - sum_list (map (\<lambda>w. count_ones (a ! w XOR b ! w)) [0..<4])"

definition set_nibble :: "nat \<Rightarrow> nat \<Rightarrow> u64 list \<Rightarrow> u64 list" where
  "set_nibble bit_lo nib ws = foldl (\<lambda>ws k. if bit nib k then set_sig (bit_lo + k) ws else ws) ws [0..<4]"

fun hex_loop :: "nat \<Rightarrow> bytes \<Rightarrow> u64 list \<Rightarrow> u64 list option" where
  "hex_loop ci [] ws = Some ws"
| "hex_loop ci (c # cs) ws =
     (case unnibble (unat c) of None \<Rightarrow> None
      | Some nib \<Rightarrow> hex_loop (Suc ci) cs (set_nibble ((R_BITS div 4 - 1 - ci) * 4) nib ws))"

definition parse_sig_hex :: "ustr \<Rightarrow> u64 list option" where
  "parse_sig_hex hex =
     (if blen hex \<noteq> R_BITS div 4 then None else hex_loop 0 (utf8 hex) [0, 0, 0, 0])"

subsection \<open>Episodes\<close>

record episode =
  ep_name :: ustr
  ep_dir :: ustr
  ep_npos :: i32
  ep_topic :: ustr
  ep_text :: ustr
  ep_sig :: "u64 list"
  ep_gk :: "f32 list"
  ep_gk_ng :: nat
  ep_tokens :: "i32 list option"
  ep_l5key :: "f32 list"
  ep_policy :: "mem_policy option"
  ep_lifecycle :: u8

fun best_loop :: "u64 list \<Rightarrow> nat \<Rightarrow> episode list \<Rightarrow> (nat \<times> nat) option \<Rightarrow> (nat \<times> nat) option" where
  "best_loop q i [] best = best"
| "best_loop q i (ep # eps) best =
     (let a = agree q (ep_sig ep) in
      best_loop q (Suc i) eps (case best of Some (_, bs) \<Rightarrow> if a \<le> bs then best else Some (i, a) | None \<Rightarrow> Some (i, a)))"

definition best_match :: "u64 list \<Rightarrow> episode list \<Rightarrow> (nat \<times> nat) option" where
  "best_match q registry = best_loop q 0 registry None"

definition format_candidates :: "episode list \<Rightarrow> ustr list \<Rightarrow> ustr" where
  "format_candidates eps tags = join [10] (map (\<lambda>(e, t). lit ''['' @ t @ lit ''] '' @ ep_text e) (zip eps tags))"

subsection \<open>The files of an episode\<close>

definition f32_at :: "bytes \<Rightarrow> nat \<Rightarrow> f32" where
  "f32_at bs i = from_le (bslice (4 * i) (4 * i + 4) bs)"

definition global_layers :: "nat list" where
  "global_layers = filter (\<lambda>l. l mod PERIOD = PERIOD - 1) [0..<NL]"

definition load_episode_global_k :: "(ustr \<Rightarrow> bytes option) \<Rightarrow> ustr \<Rightarrow> i32 \<Rightarrow> (f32 list \<times> nat) option" where
  "load_episode_global_k fs dir npos =
     (case fs (dir @ lit ''/ep.k'') of None \<Rightarrow> None
      | Some bs \<Rightarrow>
          if length bs mod 4 \<noteq> 0 then None
          else let n_f32 = length bs div 4; p_total = n_f32 div (NL * HD) in
               if n_f32 mod (NL * HD) \<noteq> 0 \<and> n_f32 < NL * HD \<or> p_total = 0 then None
               else let np = min (as_usize npos) p_total in
                    Some (concat (map (\<lambda>l. concat (map (\<lambda>p. map (\<lambda>d. f32_at bs ((l * p_total + p) * HD + d)) [0..<HD])
                            [0..<np])) global_layers),
                          length global_layers))"

definition load_episode_l5key :: "(ustr \<Rightarrow> bytes option) \<Rightarrow> ustr \<Rightarrow> f32 list option" where
  "load_episode_l5key fs dir =
     (case fs (dir @ lit ''/ep.l5'') of None \<Rightarrow> None
      | Some bs \<Rightarrow> if length bs \<noteq> HD * 4 then None else Some (map from_le (chunks_exact 4 bs)))"

subsection \<open>The learned head\<close>

record wc_head =
  wc_hd :: nat
  wc_r :: nat
  wc_s0 :: f32
  wc_sscale :: f32
  wc_w :: "f32 list"

text \<open>
  \<^verbatim>\<open>hd*r*4\<close> wraps at 64 bits; a request for \<^verbatim>\<open>2^63\<close> bytes or more is the panic of \<^verbatim>\<open>with_capacity\<close>. \<open>None\<close> is a
  panic, \<open>Some None\<close> a rejected file.
\<close>

definition load_wc :: "bytes option \<Rightarrow> wc_head option option" where
  "load_wc file =
     (case file of None \<Rightarrow> Some None
      | Some b \<Rightarrow>
          if length b < 20 \<or> take 4 b \<noteq> map of_char ''WCB1'' then Some None
          else let h = unat (from_le (bslice 4 8 b) :: u32); r = unat (from_le (bslice 8 12 b) :: u32) in
               if length b < (20 + h * r * 4) mod 2 ^ 64 then Some None
               else if 2 ^ 63 \<le> h * r * 4 then None
               else Some (Some \<lparr>wc_hd = h, wc_r = r, wc_s0 = from_le (bslice 12 16 b), wc_sscale = from_le (bslice 16 20 b),
                      wc_w = map (\<lambda>i. f32_at (drop 20 b) i) [0..<h * r]\<rparr>))"

definition wc_proj :: "('d, 'm) vec_ops_scheme \<Rightarrow> f32 list \<Rightarrow> nat \<Rightarrow> f32 list \<Rightarrow> nat \<Rightarrow> nat \<Rightarrow> f32 list" where
  "wc_proj ops v base w h r =
     map (\<lambda>j. foldl (\<lambda>s d. fadd ops s (fmul ops (v ! (base + d)) (w ! (d * r + j)))) 0 [0..<h]) [0..<r]"

text \<open>The log-sum-exp of one head over the positions.\<close>

definition wc_lse :: "('d, 'm) vec_ops_scheme \<Rightarrow> wc_head \<Rightarrow> f32 list \<Rightarrow> f32 list list \<Rightarrow> 'd" where
  "wc_lse ops head qp kps =
     (let sims = map (\<lambda>kp. fmul ops (foldl (\<lambda>dot j. fadd ops dot (fmul ops (qp ! j) (kp ! j))) 0 [0..<wc_r head]) (wc_sscale head)) kps;
          mx = foldl (\<lambda>m s. if f32_gt s m then s else m) NEG_INFINITY sims;
          se = foldl (\<lambda>a s. dadd ops a (dexp ops (widen ops (fsub ops s mx)))) (dzero ops) sims
      in dadd ops (widen ops mx) (dln ops se))"

text \<open>\<open>None\<close> is a panic: a division by zero, or an index beyond the stored keys.\<close>

definition wc_score :: "('d, 'm) vec_ops_scheme \<Rightarrow> f32 list \<Rightarrow> f32 list \<Rightarrow> nat \<Rightarrow> nat \<Rightarrow> wc_head \<Rightarrow> f32 option" where
  "wc_score ops q gk gk_ng npos head =
     (if gk = [] \<or> gk_ng = 0 \<or> npos = 0 then Some NEG_INFINITY
      else if wc_hd head = 0 then None
      else let qd = G_NH * wc_hd head; ng = min (length q div qd) gk_ng in
           if ng = 0 then Some NEG_INFINITY
           else if 0 < wc_r head \<and> (length gk < ng * npos * wc_hd head \<or> length (wc_w head) < wc_hd head * wc_r head) then None
           else let total = foldl (\<lambda>a (l, h).
                      let kps = map (\<lambda>p. wc_proj ops gk (l * npos * wc_hd head + p * wc_hd head) (wc_w head) (wc_hd head) (wc_r head)) [0..<npos];
                          qp = wc_proj ops q (l * qd + h * wc_hd head) (wc_w head) (wc_hd head) (wc_r head)
                      in dadd ops a (wc_lse ops head qp kps)) (dzero ops) (List.product [0..<ng] [0..<G_NH])
                in Some (narrow ops (ddiv ops total (of_count ops (ng * G_NH)))))"

subsection \<open>Query keys\<close>

definition l5_query_embed :: "('d, 'm) vec_ops_scheme \<Rightarrow> f32 list \<Rightarrow> f32 list" where
  "l5_query_embed ops q =
     (let qd = G_NH * HD in
      if length q div qd \<le> L5_LAYER then []
      else let base = L5_LAYER * qd; inv = ddiv ops (done1 ops) (of_count ops G_NH);
               acc = map (\<lambda>d. dmul ops (foldl (\<lambda>a h. dadd ops a (widen ops (q ! (base + h * HD + d)))) (dzero ops) [0..<G_NH]) inv) [0..<HD];
               den = dsqrt ops (foldl (\<lambda>n x. dadd ops n (dmul ops x x)) (dzero ops) acc)
           in if dle ops den (dzero ops) then [] else map (\<lambda>x. narrow ops (ddiv ops x den)) acc)"

definition cos512 :: "('d, 'm) vec_ops_scheme \<Rightarrow> f32 list \<Rightarrow> f32 list \<Rightarrow> f32" where
  "cos512 ops a b =
     (if length a \<noteq> length b \<or> a = [] then NEG_INFINITY
      else let sum = (\<lambda>xs ys. foldl (\<lambda>s (x, y). dadd ops s (dmul ops (widen ops x) (widen ops y))) (dzero ops) (zip xs ys));
               den = dmul ops (dsqrt ops (sum a a)) (dsqrt ops (sum b b))
           in if dle ops den (dzero ops) then 0 else narrow ops (ddiv ops (sum a b) den))"

subsection \<open>The registry\<close>

datatype json = JNull | JBool bool | JInt int | JReal u64 | JStr ustr | JArr "json list" | JObj "(ustr \<times> json) list"

definition jget :: "json \<Rightarrow> string \<Rightarrow> json option" where
  "jget v k = (case v of JObj kvs \<Rightarrow> map_of kvs (lit k) | _ \<Rightarrow> None)"

definition as_str :: "json option \<Rightarrow> ustr option" where
  "as_str v = (case v of Some (JStr s) \<Rightarrow> Some s | _ \<Rightarrow> None)"

definition as_i64 :: "json option \<Rightarrow> int option" where
  "as_i64 v = (case v of Some (JInt i) \<Rightarrow> if - (2 ^ 63) \<le> i \<and> i < 2 ^ 63 then Some i else None | _ \<Rightarrow> None)"

definition as_u64 :: "json option \<Rightarrow> int option" where
  "as_u64 v = (case v of Some (JInt i) \<Rightarrow> if 0 \<le> i \<and> i < 2 ^ 64 then Some i else None | _ \<Rightarrow> None)"

definition or_default :: "'a option \<Rightarrow> 'a \<Rightarrow> 'a" where
  "or_default x d = (case x of Some y \<Rightarrow> y | None \<Rightarrow> d)"

definition row_policy :: "json \<Rightarrow> mem_policy option" where
  "row_policy v =
     map_option (\<lambda>cls. \<lparr>mem_class = cls,
        mem_delivery = or_default (as_str (jget v ''mem_delivery'')) (class_default_delivery cls),
        decline_when = or_default (map_option comma_items (as_str (jget v ''mem_decline_when''))) [],
        decline_message = or_default (as_str (jget v ''mem_decline_message'')) SECRET_MESSAGE\<rparr>)
       (as_str (jget v ''mem_class''))"

definition load_row :: "(ustr \<Rightarrow> bytes option) \<Rightarrow> json \<Rightarrow> episode option" where
  "load_row fs v =
     (case (as_str (case jget v ''dir'' of Some x \<Rightarrow> Some x | None \<Rightarrow> jget v ''ring2_path''), as_str (jget v ''sig_bits'')) of
        (Some dir, Some hex) \<Rightarrow>
          (case parse_sig_hex hex of None \<Rightarrow> None
           | Some sg \<Rightarrow>
               let npos = word_of_int (or_default (as_i64 (jget v ''npos'')) 0);
                   (gk, ng) = or_default (load_episode_global_k fs dir npos) ([], 0)
               in Some \<lparr>ep_name = or_default (as_str (jget v ''name'')) (lit ''?''), ep_dir = dir, ep_npos = npos,
                    ep_topic = or_default (as_str (jget v ''topic'')) [], ep_text = or_default (as_str (jget v ''text'')) [],
                    ep_sig = sg, ep_gk = gk, ep_gk_ng = ng, ep_tokens = None,
                    ep_l5key = or_default (load_episode_l5key fs dir) [],
                    ep_policy = (case load_episode_okf_policy fs dir of Some p \<Rightarrow> Some p | None \<Rightarrow> row_policy v),
                    ep_lifecycle = word_of_int (or_default (as_u64 (jget v ''lifecycle'')) 0)\<rparr>)
      | _ \<Rightarrow> None)"

text \<open>The values of the lines of a JSON Lines text; blank and malformed lines are skipped.\<close>

definition jsonl :: "(ustr \<Rightarrow> json option) \<Rightarrow> ustr \<Rightarrow> json list" where
  "jsonl jparse s = List.map_filter (\<lambda>l. let t = trim l in if t = [] then None else jparse t) (str_lines s)"

definition load_rows :: "(ustr \<Rightarrow> json option) \<Rightarrow> (ustr \<Rightarrow> bytes option) \<Rightarrow> ustr \<Rightarrow> episode list" where
  "load_rows jparse fs s = List.map_filter (load_row fs) (jsonl jparse s)"

definition manifest_texts :: "(ustr \<Rightarrow> json option) \<Rightarrow> ustr \<Rightarrow> (u64 list \<Rightarrow> ustr option)" where
  "manifest_texts jparse s =
     foldl (\<lambda>m v. case (as_str (jget v ''sig_bits''), as_str (jget v ''text'')) of
         (Some sb, Some tx) \<Rightarrow> (case parse_sig_hex sb of Some sg \<Rightarrow> m(sg \<mapsto> tx) | None \<Rightarrow> m)
       | _ \<Rightarrow> m) Map.empty (jsonl jparse s)"

definition backfill :: "(u64 list \<Rightarrow> ustr option) \<Rightarrow> episode \<Rightarrow> episode" where
  "backfill by_sig e =
     (if ep_text e = [] then (case by_sig (ep_sig e) of Some tx \<Rightarrow> e\<lparr>ep_text := tx\<rparr> | None \<Rightarrow> e) else e)"

text \<open>\<open>reg\<close> and \<open>manifest\<close> are the registry file and the \<^verbatim>\<open>corpus_manifest.jsonl\<close> beside it; \<open>None\<close> is the I/O error.\<close>

definition load_registry ::
  "(ustr \<Rightarrow> json option) \<Rightarrow> (ustr \<Rightarrow> bytes option) \<Rightarrow> bytes option \<Rightarrow> bytes option \<Rightarrow> episode list option" where
  "load_registry jparse fs reg manifest =
     (case Option.bind reg from_utf8 of None \<Rightarrow> None
      | Some s \<Rightarrow>
          let out = load_rows jparse fs s in
          if list_ex (\<lambda>e. ep_text e = []) out
          then (case Option.bind manifest from_utf8 of None \<Rightarrow> Some out
                | Some m \<Rightarrow> Some (map (backfill (manifest_texts jparse m)) out))
          else Some out)"

definition jinsert :: "string \<Rightarrow> json \<Rightarrow> json \<Rightarrow> json" where
  "jinsert k x v = (case v of JObj kvs \<Rightarrow> JObj ((lit k, x) # filter (\<lambda>p. fst p \<noteq> lit k) kvs) | _ \<Rightarrow> v)"

definition mark_line :: "(ustr \<Rightarrow> json option) \<Rightarrow> (json \<Rightarrow> ustr) \<Rightarrow> ustr \<Rightarrow> nat \<Rightarrow> ustr \<Rightarrow> ustr" where
  "mark_line jparse jprint victim lc t =
     (case jparse t of None \<Rightarrow> t
      | Some v \<Rightarrow> if as_str (jget v ''text'') = Some victim then jprint (jinsert ''lifecycle'' (JInt (int lc)) v) else t)"

text \<open>\<open>None\<close> is the read error; the result is the text written back.\<close>

definition mark_superseded_registry ::
  "(ustr \<Rightarrow> json option) \<Rightarrow> (json \<Rightarrow> ustr) \<Rightarrow> bytes option \<Rightarrow> ustr \<Rightarrow> nat \<Rightarrow> ustr option" where
  "mark_superseded_registry jparse jprint reg victim lc =
     (case Option.bind reg from_utf8 of None \<Rightarrow> None
      | Some s \<Rightarrow>
          Some (concat (map (\<lambda>t. mark_line jparse jprint victim lc t @ [10]) (filter (\<lambda>t. t \<noteq> []) (map trim (str_lines s))))))"

subsection \<open>Signatures and bits\<close>

definition sig_bit :: "u64 list \<Rightarrow> nat \<Rightarrow> bool" where
  "sig_bit ws i = bit (ws ! (i div 64)) (i mod 64)"

lemma length_set_sig [simp]: "length (set_sig b ws) = length ws"
  by (simp add: set_sig_def)

lemma sig_bit_set:
  assumes "length ws = 4" and "b < 256" and "i < 256"
  shows "sig_bit (set_sig b ws) i \<longleftrightarrow> i = b \<or> sig_bit ws i"
proof (cases "i div 64 = b div 64")
  case True
  have "b div 64 < 4" using assms(2) by (simp add: less_mult_imp_div_less)
  moreover have "i mod 64 = b mod 64 \<longleftrightarrow> i = b" using True by (metis div_mult_mod_eq)
  ultimately have "bit (2 ^ (b mod 64) :: u64) (i mod 64) \<longleftrightarrow> i = b" "b div 64 < length ws"
    using assms(1) by (auto simp: bit_exp_iff)
  then show ?thesis using True by (auto simp: sig_bit_def set_sig_def bit_or_iff)
next
  case False
  then show ?thesis by (auto simp: sig_bit_def set_sig_def)
qed

lemma set_bits_loop:
  assumes "length ws = 4" and "\<forall>k \<in> set ks. lo + k < 256"
  shows "length (foldl (\<lambda>ws k. if P k then set_sig (lo + k) ws else ws) ws ks) = 4 \<and>
    (\<forall>i < 256. sig_bit (foldl (\<lambda>ws k. if P k then set_sig (lo + k) ws else ws) ws ks) i \<longleftrightarrow>
       sig_bit ws i \<or> (\<exists>k \<in> set ks. P k \<and> i = lo + k))"
  using assms
proof (induction ks arbitrary: ws)
  case (Cons k ks)
  let ?w = "if P k then set_sig (lo + k) ws else ws"
  have "length ?w = 4" "\<forall>i < 256. sig_bit ?w i \<longleftrightarrow> sig_bit ws i \<or> P k \<and> i = lo + k"
    using Cons.prems sig_bit_set by auto
  then show ?case using Cons.IH [of ?w] Cons.prems(2) by auto
qed simp

lemma set_nibble_bits:
  assumes "length ws = 4" and "lo + 3 < 256"
  shows "length (set_nibble lo nib ws) = 4 \<and>
    (\<forall>i < 256. sig_bit (set_nibble lo nib ws) i \<longleftrightarrow> sig_bit ws i \<or> lo \<le> i \<and> i < lo + 4 \<and> bit nib (i - lo))"
proof -
  have "(\<exists>k \<in> set [0..<4]. bit nib k \<and> i = lo + k) \<longleftrightarrow> lo \<le> i \<and> i < lo + 4 \<and> bit nib (i - lo)" for i
    by (auto intro!: bexI [of _ "i - lo"])
  then show ?thesis using set_bits_loop [OF assms(1), of "[0..<4]" lo "bit nib"] assms(2) by (auto simp: set_nibble_def)
qed

lemma hex_loop_bits:
  assumes "length ws = 4" and "ci + length cs \<le> 64"
  shows "hex_loop ci cs ws = Some ws' \<Longrightarrow> length ws' = 4 \<and> (\<forall>c \<in> set cs. unnibble (unat c) \<noteq> None) \<and>
    (\<forall>i < 256. sig_bit ws' i \<longleftrightarrow> sig_bit ws i \<or>
       ci \<le> 63 - i div 4 \<and> 63 - i div 4 < ci + length cs \<and> bit (the (unnibble (unat (cs ! (63 - i div 4 - ci))))) (i mod 4))"
  using assms
proof (induction cs arbitrary: ci ws)
  case (Cons c cs)
  then obtain nib where nib: "unnibble (unat c) = Some nib" by (auto split: option.splits)
  let ?lo = "(R_BITS div 4 - 1 - ci) * 4"
  have lo: "?lo = (63 - ci) * 4" "ci \<le> 63" using Cons.prems by (simp_all add: R_BITS_def)
  note sn = set_nibble_bits [of ws ?lo nib]
  have s: "length (set_nibble ?lo nib ws) = 4"
    "\<And>i. i < 256 \<Longrightarrow> sig_bit (set_nibble ?lo nib ws) i \<longleftrightarrow> sig_bit ws i \<or> ?lo \<le> i \<and> i < ?lo + 4 \<and> bit nib (i - ?lo)"
    using sn Cons.prems lo by auto
  have run: "hex_loop (Suc ci) cs (set_nibble ?lo nib ws) = Some ws'" using Cons.prems nib by simp
  have "Suc ci + length cs \<le> 64" using Cons.prems by simp
  note ih = Cons.IH [OF run s(1) this]
  have bits: "sig_bit ws' i \<longleftrightarrow> sig_bit ws i \<or> ci \<le> 63 - i div 4 \<and> 63 - i div 4 < ci + length (c # cs) \<and>
      bit (the (unnibble (unat ((c # cs) ! (63 - i div 4 - ci))))) (i mod 4)" if i: "i < 256" for i
  proof -
    have d: "i div 4 \<le> 63" "i = i div 4 * 4 + i mod 4" using i by auto
    have here: "?lo \<le> i \<and> i < ?lo + 4 \<longleftrightarrow> 63 - i div 4 = ci" using d lo by auto
    have ih_i: "sig_bit ws' i \<longleftrightarrow> sig_bit (set_nibble ?lo nib ws) i \<or>
        Suc ci \<le> 63 - i div 4 \<and> 63 - i div 4 < Suc ci + length cs \<and>
        bit (the (unnibble (unat (cs ! (63 - i div 4 - Suc ci))))) (i mod 4)"
      using ih i by blast
    show ?thesis
    proof (cases "63 - i div 4 = ci")
      case True
      then have "?lo = i div 4 * 4" using d lo by auto
      then have "i - ?lo = i mod 4" by (simp add: minus_div_mult_eq_mod)
      then have "sig_bit (set_nibble ?lo nib ws) i \<longleftrightarrow> sig_bit ws i \<or> bit nib (i mod 4)" using s(2) [OF i] here True by simp
      moreover have "\<not> Suc ci \<le> 63 - i div 4" using True by simp
      ultimately show ?thesis unfolding ih_i using True nib by simp
    next
      case False
      then have "sig_bit (set_nibble ?lo nib ws) i \<longleftrightarrow> sig_bit ws i" using s(2) [OF i] here by blast
      moreover have "ci \<le> 63 - i div 4 \<longleftrightarrow> Suc ci \<le> 63 - i div 4" using False by linarith
      moreover have "(c # cs) ! (63 - i div 4 - ci) = cs ! (63 - i div 4 - Suc ci)" if "Suc ci \<le> 63 - i div 4"
      proof -
        have "63 - i div 4 - ci = Suc (63 - i div 4 - Suc ci)" using that by linarith
        then show ?thesis by (simp only: nth_Cons_Suc)
      qed
      ultimately show ?thesis unfolding ih_i by (simp cong: conj_cong)
    qed
  qed
  from ih have a: "length ws' = 4" "\<forall>c \<in> set cs. unnibble (unat c) \<noteq> None" by blast+
  then have "\<forall>x \<in> set (c # cs). unnibble (unat x) \<noteq> None" using nib by simp
  then show ?case using a(1) bits by (intro conjI allI impI)
qed auto

lemma hex_loop_total: "\<forall>c \<in> set cs. unnibble (unat c) \<noteq> None \<Longrightarrow> hex_loop ci cs ws \<noteq> None"
  by (induction cs arbitrary: ci ws) (auto split: option.split)

lemma sig_eqI:
  assumes "length a = 4" and "length b = 4" and "\<And>i. i < 256 \<Longrightarrow> sig_bit a i = sig_bit b i"
  shows "a = b"
proof (rule nth_equalityI)
  fix w assume w: "w < length a"
  have "bit (a ! w) n = bit (b ! w) n" if "n < 64" for n
    using assms(3) [of "64 * w + n"] that w assms(1) by (simp add: sig_bit_def)
  then show "a ! w = b ! w" by (intro bit_word_eqI) simp
qed (use assms in simp)

text \<open>
  A signature is read exactly from 64 hexadecimal digits, the first digit holding the four highest bits; nothing else
  is accepted.
\<close>

theorem parse_sig_exact:
  "parse_sig_hex hex = Some ws \<longleftrightarrow>
   length (utf8 hex) = 64 \<and> (\<forall>c \<in> set (utf8 hex). unnibble (unat c) \<noteq> None) \<and> length ws = 4 \<and>
   (\<forall>i < 256. bit (ws ! (i div 64)) (i mod 64) \<longleftrightarrow> bit (the (unnibble (unat (utf8 hex ! (63 - i div 4))))) (i mod 4))"
  (is "_ \<longleftrightarrow> ?r ws")
proof -
  have zero: "\<not> sig_bit [0, 0, 0, 0] i" if "i < 256" for i
  proof -
    have "i div 64 < 4" using that by (simp add: less_mult_imp_div_less)
    then have "i div 64 = 0 \<or> i div 64 = 1 \<or> i div 64 = 2 \<or> i div 64 = 3" by auto
    then show ?thesis by (auto simp: sig_bit_def)
  qed
  have sound: "?r v" if "parse_sig_hex hex = Some v" for v
  proof -
    have l: "length (utf8 hex) = 64" and run: "hex_loop 0 (utf8 hex) [0, 0, 0, 0] = Some v"
      using that by (auto simp: parse_sig_hex_def blen_def R_BITS_def split: if_splits)
    have "63 - i div 4 < 64" for i :: nat by simp
    then show ?thesis using hex_loop_bits [OF _ _ run] l zero by (auto simp: sig_bit_def)
  qed
  show ?thesis
  proof
    assume r: "?r ws"
    then have "parse_sig_hex hex \<noteq> None" using hex_loop_total by (auto simp: parse_sig_hex_def blen_def R_BITS_def)
    then obtain v where v: "parse_sig_hex hex = Some v" by blast
    have "v = ws" using sound [OF v] r by (intro sig_eqI) (auto simp: sig_bit_def)
    then show "parse_sig_hex hex = Some ws" using v by simp
  qed (rule sound)
qed

theorem parse_sig_exact_witness: "parse_sig_hex (replicate 64 48) = Some [0, 0, 0, 0]"
proof -
  have u: "utf8 (replicate 64 48) = replicate 64 48" by (simp add: utf8_def utf8_char_def concat_replicate_single)
  have "bit ([0, 0, 0, 0 :: u64] ! (i div 64)) (i mod 64) = False" if "i < 256" for i
  proof -
    have "i div 64 < 4" using that by (simp add: less_mult_imp_div_less)
    then have "i div 64 = 0 \<or> i div 64 = 1 \<or> i div 64 = 2 \<or> i div 64 = 3" by auto
    then show ?thesis by auto
  qed
  then show ?thesis unfolding parse_sig_exact u by (simp add: unnibble_def)
qed

text \<open>The agreement counts the positions where two signatures are equal.\<close>

lemma count_ones_xor_card: "count_ones (x XOR y :: u64) = card {n. n < 64 \<and> bit x n \<noteq> bit y n}"
proof -
  have "{n. bit (x XOR y) n} = {n. n < 64 \<and> bit x n \<noteq> bit y n}"
    by (auto simp: bit_xor_iff dest: bit_imp_le_length)
  then show ?thesis by (simp add: count_ones_bits)
qed

lemma filter_blocks:
  "length (filter Q [0..<n * 64]) = sum_list (map (\<lambda>w. length (filter (\<lambda>j. Q (64 * w + j)) [0..<64])) [0..<n])"
proof (induction n)
  case (Suc n)
  have "[0..<Suc n * 64] = [0..<n * 64] @ map (\<lambda>j. j + n * 64) [0..<64]"
  proof -
    have "[0..<n * 64 + 64] = [0..<n * 64] @ [n * 64..<n * 64 + 64]" by (rule upt_add_eq_append) simp
    moreover have "[n * 64..<n * 64 + 64] = map (\<lambda>j. j + n * 64) [0..<64]" by (simp add: map_add_upt add.commute)
    ultimately show ?thesis by (simp only: mult_Suc add.commute)
  qed
  then show ?case using Suc by (simp add: filter_map comp_def mult.commute add.commute)
qed simp

text \<open>
  The agreement of two signatures is the number of positions at which they hold the same bit; so it is symmetric, at
  most 256, and full exactly for equal signatures.
\<close>

theorem agree_equal_bits:
  assumes "length a = 4" and "length b = 4"
  shows "agree a b = card {i. i < 256 \<and> bit (a ! (i div 64)) (i mod 64) = bit (b ! (i div 64)) (i mod 64)} \<and>
    agree a b = agree b a \<and> agree a b \<le> 256 \<and> (agree a b = 256 \<longleftrightarrow> a = b)"
proof -
  let ?D = "\<lambda>i. sig_bit a i \<noteq> sig_bit b i"
  have dist: "sum_list (map (\<lambda>w. count_ones (a ! w XOR b ! w)) [0..<4]) = card {i. i < 256 \<and> ?D i}" (is "?s = _")
  proof -
    have "count_ones (a ! w XOR b ! w) = length (filter (\<lambda>j. ?D (64 * w + j)) [0..<64])" for w
      unfolding count_ones_def by (intro arg_cong [where f = length] filter_cong) (auto simp: sig_bit_def bit_xor_iff)
    then have "?s = length (filter ?D [0..<4 * 64])" by (simp only: filter_blocks)
    also have "\<dots> = card (set (filter ?D [0..<256]))" by (subst distinct_card) simp_all
    finally show ?thesis by (simp add: conj_commute)
  qed
  have split: "card {i. i < 256 \<and> \<not> ?D i} + card {i. i < 256 \<and> ?D i} = 256"
  proof -
    have "card ({i. i < 256 \<and> \<not> ?D i} \<union> {i. i < 256 \<and> ?D i}) = card {i. i < 256 \<and> \<not> ?D i} + card {i. i < 256 \<and> ?D i}"
      by (rule card_Un_disjoint) auto
    moreover have "{i. i < 256 \<and> \<not> ?D i} \<union> {i. i < 256 \<and> ?D i} = {..<256 :: nat}" by auto
    ultimately show ?thesis by simp
  qed
  then have eq: "agree a b = card {i. i < 256 \<and> \<not> ?D i}" by (simp add: agree_def R_BITS_def dist)
  have "a = b" if "agree a b = 256"
  proof -
    have "card {i. i < 256 \<and> ?D i} = 0" using that eq split by linarith
    then have "{i. i < 256 \<and> ?D i} = {}" by simp
    then show ?thesis using assms by (intro sig_eqI) auto
  qed
  moreover have "agree a a = 256" by (simp add: agree_def R_BITS_def count_ones_def)
  moreover have "agree a b = agree b a" by (simp add: agree_def xor.commute)
  moreover have "agree a b \<le> 256" by (simp add: agree_def R_BITS_def)
  ultimately show ?thesis using eq by (auto simp: sig_bit_def)
qed

theorem agree_equal_bits_witness: "agree [0, 1, 2, 7] [0, 1, 2, 3] = 255"
proof -
  have v: "agree [0, 1, 2, 3] [0, 1, 2, 7] = 255" by code_simp
  show ?thesis using agree_equal_bits [of "[0, 1, 2, 3]" "[0, 1, 2, 7]"] v by simp
qed

text \<open>The best match is the first of those with the largest agreement.\<close>

definition best_so_far :: "u64 list \<Rightarrow> episode list \<Rightarrow> (nat \<times> nat) option \<Rightarrow> bool" where
  "best_so_far q eps best \<longleftrightarrow>
     (case best of None \<Rightarrow> eps = []
      | Some (m, s) \<Rightarrow> m < length eps \<and> s = agree q (ep_sig (eps ! m)) \<and>
          (\<forall>j < length eps. agree q (ep_sig (eps ! j)) \<le> s) \<and> (\<forall>j < m. agree q (ep_sig (eps ! j)) < s))"

lemma best_loop_correct:
  "best_so_far q ps best \<Longrightarrow> best_so_far q (ps @ eps) (best_loop q (length ps) eps best)"
proof (induction eps arbitrary: ps best)
  case (Cons ep eps)
  let ?a = "agree q (ep_sig ep)"
  let ?b = "case best of Some (_, bs) \<Rightarrow> if ?a \<le> bs then best else Some (length ps, ?a) | None \<Rightarrow> Some (length ps, ?a)"
  have "best_so_far q (ps @ [ep]) ?b"
  proof (cases best)
    case None
    then show ?thesis using Cons.prems by (simp add: best_so_far_def)
  next
    case (Some p)
    obtain m s where p: "p = (m, s)" by (cases p)
    have inv: "m < length ps" "s = agree q (ep_sig (ps ! m))" "\<And>j. j < length ps \<Longrightarrow> agree q (ep_sig (ps ! j)) \<le> s"
      "\<And>j. j < m \<Longrightarrow> agree q (ep_sig (ps ! j)) < s" using Cons.prems Some p by (auto simp: best_so_far_def)
    show ?thesis
    proof (cases "?a \<le> s")
      case True
      then show ?thesis using inv Some p by (simp add: best_so_far_def nth_append less_Suc_eq)
    next
      case False
      then have "agree q (ep_sig (ps ! j)) < ?a" if "j < length ps" for j using inv(3) [OF that] by simp
      then show ?thesis using False Some p by (auto simp: best_so_far_def nth_append less_Suc_eq less_imp_le)
    qed
  qed
  from Cons.IH [OF this] show ?case by (simp add: Let_def)
qed simp

text \<open>
  The resolver returns nothing for an empty registry and otherwise the first episode of those with the largest
  agreement, with that agreement.
\<close>

theorem best_match_first:
  "(best_match q reg = None \<longleftrightarrow> reg = []) \<and>
   (best_match q reg = Some (m, s) \<longleftrightarrow> m < length reg \<and> s = agree q (ep_sig (reg ! m)) \<and>
     (\<forall>j < length reg. agree q (ep_sig (reg ! j)) \<le> s) \<and> (\<forall>j < m. agree q (ep_sig (reg ! j)) < s))"
proof
  have b: "best_so_far q reg (best_match q reg)"
    using best_loop_correct [of q "[]" None reg] by (simp add: best_so_far_def best_match_def)
  then show "best_match q reg = None \<longleftrightarrow> reg = []" by (auto simp: best_so_far_def split: option.splits)
  show "best_match q reg = Some (m, s) \<longleftrightarrow> m < length reg \<and> s = agree q (ep_sig (reg ! m)) \<and>
     (\<forall>j < length reg. agree q (ep_sig (reg ! j)) \<le> s) \<and> (\<forall>j < m. agree q (ep_sig (reg ! j)) < s)" (is "_ \<longleftrightarrow> ?r m s")
  proof
    assume "best_match q reg = Some (m, s)"
    then show "?r m s" using b by (auto simp: best_so_far_def)
  next
    assume r: "?r m s"
    then obtain m' s' where b': "best_match q reg = Some (m', s')" "?r m' s'"
      using b by (auto simp: best_so_far_def split: option.splits)
    have "s = s'" using r b'(2) by (meson antisym)
    moreover have "m = m'" using r b'(2) \<open>s = s'\<close> by (metis less_irrefl linorder_neqE_nat)
    ultimately show "best_match q reg = Some (m, s)" using b'(1) by simp
  qed
qed

theorem best_match_first_witness:
  "\<forall>q e. best_match q [] = None \<and> best_match [0, 0, 0, 0] [e\<lparr>ep_sig := [0, 0, 0, 1]\<rparr>, e\<lparr>ep_sig := [0, 0, 0, 0]\<rparr>] = Some (1, 256)"
proof (intro allI)
  fix q e
  have v: "agree [0, 0, 0, 0] [0, 0, 0, 1] = 255" "agree [0, 0, 0, 0] [0, 0, 0, 0] = 256" by code_simp+
  show "best_match q [] = None \<and> best_match [0, 0, 0, 0] [e\<lparr>ep_sig := [0, 0, 0, 1]\<rparr>, e\<lparr>ep_sig := [0, 0, 0, 0]\<rparr>] = Some (1, 256)"
    using best_match_first [of q "[]"] best_match_first [of "[0, 0, 0, 0]" _ 1 256] v by (auto simp: less_Suc_eq)
qed

subsection \<open>The layout of the stored keys\<close>

lemma concat_blocks:
  assumes "\<forall>x \<in> set xs. length (f x) = n"
  shows "length (concat (map f xs)) = length xs * n"
    and "i < length xs \<Longrightarrow> j < n \<Longrightarrow> concat (map f xs) ! (i * n + j) = f (xs ! i) ! j"
  using assms
proof (induction xs arbitrary: i)
  case (Cons x xs)
  { case 1 then show ?case using Cons by simp }
  { case 2 then show ?case using Cons by (cases i) (simp_all add: nth_append add.assoc) }
qed simp_all

lemma global_layers_list: "global_layers = map (\<lambda>gi. 6 * gi + 5) [0..<8]"
  by (simp add: global_layers_def NL_def PERIOD_def upt_conv_Cons)

text \<open>
  The packed keys hold, for every global layer, every kept position and every component, the value the file has at
  that layer, position and component; every index read lies inside the file, whatever its length and the stated number
  of positions (a negative one included).
\<close>

theorem global_k_layout:
  assumes "fs (dir @ lit ''/ep.k'') = Some bs" and "load_episode_global_k fs dir npos = Some (out, ng)"
    and "P = length bs div 4 div (48 * 512)" and "np = min (as_usize npos) P"
  shows "ng = 8 \<and> length out = 8 * np * 512 \<and>
    (\<forall>gi < 8. \<forall>p < np. \<forall>d < 512.
       out ! ((gi * np + p) * 512 + d) = f32_at bs (((6 * gi + 5) * P + p) * 512 + d) \<and>
       4 * (((6 * gi + 5) * P + p) * 512 + d) + 4 \<le> length bs)"
proof -
  let ?row = "\<lambda>l p. map (\<lambda>d. f32_at bs ((l * P + p) * 512 + d)) [0..<512]"
  let ?layer = "\<lambda>l. concat (map (?row l) [0..<np])"
  have out: "out = concat (map ?layer global_layers)" "ng = length global_layers"
    using assms by (auto simp: load_episode_global_k_def NL_def HD_def Let_def split: if_splits)
  have layer: "length (?layer l) = np * 512" for l by (subst concat_blocks(1) [where n = 512]) simp_all
  have len: "length out = 8 * np * 512"
  proof -
    have "length out = length global_layers * (np * 512)" unfolding out(1) by (rule concat_blocks(1)) (intro ballI layer)
    then show ?thesis by (simp add: global_layers_list)
  qed
  have val: "out ! ((gi * np + p) * 512 + d) = f32_at bs (((6 * gi + 5) * P + p) * 512 + d)"
    if "gi < 8" "p < np" "d < 512" for gi p d
  proof -
    have j: "p * 512 + d < np * 512" using that by linarith
    have e: "(gi * np + p) * 512 + d = gi * (np * 512) + (p * 512 + d)" by (simp add: algebra_simps)
    have "out ! (gi * (np * 512) + (p * 512 + d)) = ?layer (global_layers ! gi) ! (p * 512 + d)"
      unfolding out(1) by (rule concat_blocks(2)) (use that j layer in \<open>simp_all add: global_layers_list\<close>)
    also have "global_layers ! gi = 6 * gi + 5" using that(1) by (simp add: global_layers_list)
    also have "?layer (6 * gi + 5) ! (p * 512 + d) = ?row (6 * gi + 5) ([0..<np] ! p) ! d"
      by (rule concat_blocks(2)) (use that in simp_all)
    finally show ?thesis unfolding e using that by simp
  qed
  have "4 * (((6 * gi + 5) * P + p) * 512 + d) + 4 \<le> length bs" if "gi < 8" "p < np" "d < 512" for gi p d
  proof -
    have "p < P" using that(2) assms(4) by simp
    moreover have "(6 * gi + 5) * P \<le> 47 * P" using that(1) by (intro mult_le_mono1) simp
    moreover have "x \<le> 47 * P \<Longrightarrow> p < P \<Longrightarrow> (x + p) * 512 + d < P * (48 * 512)" for x
      using that(3) by simp
    ultimately have "((6 * gi + 5) * P + p) * 512 + d < P * (48 * 512)" by blast
    moreover have "P * (48 * 512) \<le> length bs div 4" unfolding assms(3) by (rule div_times_less_eq_dividend)
    moreover have "length bs div 4 * 4 \<le> length bs" by (rule div_times_less_eq_dividend)
    moreover have "a < b \<Longrightarrow> b \<le> c \<Longrightarrow> c * 4 \<le> l \<Longrightarrow> 4 * a + 4 \<le> l" for a b c l :: nat by linarith
    ultimately show ?thesis by blast
  qed
  then show ?thesis using val len out(2) by (simp add: global_layers_list)
qed

theorem global_k_layout_witness:
  "\<exists>out. load_episode_global_k (\<lambda>_. Some (replicate 98304 0)) [] 1 = Some (out, 8) \<and> length out = 4096"
proof -
  have one: "as_usize 1 = 1" by (simp add: as_usize_def)
  obtain out where o: "load_episode_global_k (\<lambda>_. Some (replicate 98304 0)) [] 1 = Some (out, length global_layers)"
    by (simp add: load_episode_global_k_def NL_def HD_def one Let_def)
  show ?thesis
    using global_k_layout [OF refl o refl refl] o one by (intro exI [of _ out]) simp
qed

subsection \<open>The head file\<close>

definition wc_image :: "wc_head \<Rightarrow> bytes" where
  "wc_image h = map of_char ''WCB1'' @ to_le 4 (of_nat (wc_hd h) :: u32) @ to_le 4 (of_nat (wc_r h) :: u32) @
     to_le 4 (wc_s0 h) @ to_le 4 (wc_sscale h) @ concat (map (to_le 4) (wc_w h))"

lemma f32_at_stream: "i < length ws \<Longrightarrow> f32_at (concat (map (to_le 4) ws) @ rest) i = ws ! i"
proof (induction ws arbitrary: i)
  case (Cons w ws)
  show ?case
  proof (cases i)
    case 0
    then show ?thesis by (simp add: f32_at_def bslice_def)
  next
    case (Suc j)
    have "f32_at (concat (map (to_le 4) (w # ws)) @ rest) (Suc j) = f32_at (concat (map (to_le 4) ws) @ rest) j"
      by (simp add: f32_at_def bslice_append_right add.commute)
    then show ?thesis using Cons Suc by simp
  qed
qed simp

lemma wc_header:
  fixes s0 sc :: f32
  assumes "b = map of_char ''WCB1'' @ to_le 4 (h :: u32) @ to_le 4 (r :: u32) @ to_le 4 s0 @ to_le 4 sc @ rest"
  shows "length b = 20 + length rest" and "take 4 b = map of_char ''WCB1''"
    and "(from_le (bslice 4 8 b) :: u32) = h" and "(from_le (bslice 8 12 b) :: u32) = r"
    and "from_le (bslice 12 16 b) = s0" and "from_le (bslice 16 20 b) = sc" and "drop 20 b = rest"
  by (simp_all add: assms bslice_def from_le_to_le)

text \<open>
  A head file is read back exactly, also with bytes after it, as long as the weights fit an allocation.
\<close>

theorem load_wc_roundtrip:
  assumes "wc_hd h < 2 ^ 32" and "wc_r h < 2 ^ 32" and "length (wc_w h) = wc_hd h * wc_r h" and "wc_hd h * wc_r h * 4 < 2 ^ 63"
  shows "load_wc (Some (wc_image h @ rest)) = Some (Some h)"
proof -
  let ?ws = "concat (map (to_le 4) (wc_w h))"
  define b where "b = wc_image h @ rest"
  have b: "b = map of_char ''WCB1'' @ to_le 4 (of_nat (wc_hd h) :: u32) @ to_le 4 (of_nat (wc_r h) :: u32) @
      to_le 4 (wc_s0 h) @ to_le 4 (wc_sscale h) @ (?ws @ rest)" by (simp add: b_def wc_image_def)
  note hd = wc_header [OF b]
  have ids: "unat (of_nat (wc_hd h) :: u32) = wc_hd h" "unat (of_nat (wc_r h) :: u32) = wc_r h"
    using assms(1,2) by (simp_all add: unat_of_nat)
  have len: "length ?ws = 4 * length (wc_w h)" by (induction "wc_w h") (simp_all add: length_concat sum_list_triv comp_def)
  have "map (\<lambda>i. f32_at (?ws @ rest) i) [0..<wc_hd h * wc_r h] = wc_w h"
    using assms(3) by (intro nth_equalityI) (simp_all add: f32_at_stream)
  moreover have "(20 + wc_hd h * wc_r h * 4) mod 2 ^ 64 = 20 + wc_hd h * wc_r h * 4" using assms(4) by simp
  ultimately show ?thesis
    unfolding b_def [symmetric] using assms(3,4) by (simp add: load_wc_def hd ids len Let_def)
qed

theorem load_wc_roundtrip_witness:
  "load_wc (Some (wc_image \<lparr>wc_hd = 2, wc_r = 1, wc_s0 = 7, wc_sscale = 9, wc_w = [1, 2]\<rparr> @ [0])) =
     Some (Some \<lparr>wc_hd = 2, wc_r = 1, wc_s0 = 7, wc_sscale = 9, wc_w = [1, 2]\<rparr>)"
  by (rule load_wc_roundtrip) simp_all

text \<open>
  Two headers without weights are not rejected: one whose sizes multiply to \<open>2 ^ 62\<close> passes the length check because
  the byte count wraps to zero, and the allocation then panics; one with head dimension zero is loaded, and scoring any
  stored episode with it divides by zero.
\<close>

theorem wc_header_panics:
  "load_wc (Some (wc_image \<lparr>wc_hd = 2 ^ 31, wc_r = 2 ^ 31, wc_s0 = s, wc_sscale = c, wc_w = []\<rparr>)) = None \<and>
   load_wc (Some (wc_image \<lparr>wc_hd = 0, wc_r = r, wc_s0 = s, wc_sscale = c, wc_w = []\<rparr>)) =
     Some (Some \<lparr>wc_hd = 0, wc_r = r mod 2 ^ 32, wc_s0 = s, wc_sscale = c, wc_w = []\<rparr>) \<and>
   wc_score ops q (k # gk) (Suc n) (Suc m) \<lparr>wc_hd = 0, wc_r = r, wc_s0 = s, wc_sscale = c, wc_w = []\<rparr> = None"
proof -
  have a: "load_wc (Some (wc_image \<lparr>wc_hd = 2 ^ 31, wc_r = 2 ^ 31, wc_s0 = s, wc_sscale = c, wc_w = []\<rparr>)) = None"
  proof -
    let ?b = "wc_image \<lparr>wc_hd = 2 ^ 31, wc_r = 2 ^ 31, wc_s0 = s, wc_sscale = c, wc_w = []\<rparr>"
    have b: "?b = map of_char ''WCB1'' @ to_le 4 (of_nat (2 ^ 31) :: u32) @ to_le 4 (of_nat (2 ^ 31) :: u32) @
        to_le 4 s @ to_le 4 c @ []" by (simp add: wc_image_def)
    show ?thesis using wc_header [OF b] by (simp add: load_wc_def Let_def)
  qed
  have z: "load_wc (Some (wc_image \<lparr>wc_hd = 0, wc_r = r, wc_s0 = s, wc_sscale = c, wc_w = []\<rparr>)) =
     Some (Some \<lparr>wc_hd = 0, wc_r = r mod 2 ^ 32, wc_s0 = s, wc_sscale = c, wc_w = []\<rparr>)"
  proof -
    let ?b = "wc_image \<lparr>wc_hd = 0, wc_r = r, wc_s0 = s, wc_sscale = c, wc_w = []\<rparr>"
    have b: "?b = map of_char ''WCB1'' @ to_le 4 (of_nat 0 :: u32) @ to_le 4 (of_nat r :: u32) @ to_le 4 s @ to_le 4 c @ []"
      by (simp add: wc_image_def)
    show ?thesis using wc_header [OF b] by (simp add: load_wc_def Let_def unat_of_nat)
  qed
  show ?thesis using a z by (simp add: wc_score_def)
qed

subsection \<open>Superseding\<close>

text \<open>
  What the source relies on of \<^verbatim>\<open>serde_json\<close>: a value that was parsed and got a number inserted is printed on one line
  without blanks at its ends, and parsing that line gives an object with the same fields, as far as a reader of strings and
  integers can tell (a float may come back with another last digit).
\<close>

definition same_fields :: "json \<Rightarrow> json \<Rightarrow> bool" where
  "same_fields v w \<longleftrightarrow> (\<forall>k. (jget v k = None \<longleftrightarrow> jget w k = None) \<and> as_str (jget v k) = as_str (jget w k) \<and>
     as_i64 (jget v k) = as_i64 (jget w k) \<and> as_u64 (jget v k) = as_u64 (jget w k))"

definition json_contract :: "(ustr \<Rightarrow> json option) \<Rightarrow> (json \<Rightarrow> ustr) \<Rightarrow> bool" where
  "json_contract jparse jprint \<longleftrightarrow>
     (\<forall>t v n. jparse t = Some v \<and> n < 2 ^ 64 \<longrightarrow>
        (let w = jinsert ''lifecycle'' (JInt (int n)) v in
         (\<exists>w'. jparse (jprint w) = Some w' \<and> same_fields w' w) \<and>
         10 \<notin> set (jprint w) \<and> trim (jprint w) = jprint w \<and> jprint w \<noteq> []))"

lemma load_row_cong:
  assumes "same_fields v w"
  shows "load_row fs v = load_row fs w"
proof -
  have f: "jget v k = None \<longleftrightarrow> jget w k = None" "as_str (jget v k) = as_str (jget w k)" "as_i64 (jget v k) = as_i64 (jget w k)"
    "as_u64 (jget v k) = as_u64 (jget w k)" for k using assms by (simp_all add: same_fields_def)
  have d: "as_str (case jget v k of Some x \<Rightarrow> Some x | None \<Rightarrow> jget v k') = as_str (case jget w k of Some x \<Rightarrow> Some x | None \<Rightarrow> jget w k')" for k k'
    using f(1) [of k] f(2) [of k] f(2) [of k'] by (auto split: option.split)
  show ?thesis by (simp only: load_row_def row_policy_def d f(2-4))
qed

lemma trim_ends: "trim s = [] \<or> \<not> is_ws (hd (trim s)) \<and> \<not> is_ws (last (trim s))"
proof (cases "trim s = []")
  case False
  have h: "dropWhile is_ws x \<noteq> [] \<Longrightarrow> \<not> is_ws (hd (dropWhile is_ws x))" for x by (rule hd_dropWhile)
  define u where "u = trim_start s"
  have t: "trim s = rev (dropWhile is_ws (rev u))" by (simp add: trim_def trim_end_def u_def)
  then have "dropWhile is_ws (rev u) \<noteq> []" using False by simp
  then have l: "\<not> is_ws (last (trim s))" unfolding t using h by (simp add: last_rev)
  obtain v where "rev u = v @ dropWhile is_ws (rev u)" by (metis takeWhile_dropWhile_id)
  then have u: "u = trim s @ rev v" unfolding t by (metis rev_append rev_rev_ident)
  then have "u \<noteq> []" "hd u = hd (trim s)" using False by simp_all
  then have "\<not> is_ws (hd (trim s))" using h [of s] unfolding u_def trim_start_def by simp
  then show ?thesis using l by simp
qed simp

lemma trim_trim: "trim (trim s) = trim s"
proof (cases "trim s = []")
  case True
  then show ?thesis by (simp only: True) (simp add: trim_def trim_start_def trim_end_def)
next
  case False
  then show ?thesis using trim_ends [of s] trim_fits [of "trim s"] by blast
qed

lemma set_trim: "set (trim s) \<subseteq> set s"
  by (auto simp: trim_def trim_start_def trim_end_def dest!: set_dropWhileD)

lemma split_on_pieces: "l \<in> set (split_on c s) \<Longrightarrow> c \<notin> set l"
proof (induction s arbitrary: l)
  case (Cons x s)
  obtain p ps where ps: "split_on c s = p # ps" by (cases "split_on c s") auto
  then show ?case using Cons.prems Cons.IH [of p] Cons.IH [of l] by (auto split: if_splits)
qed simp

lemma str_lines_no_newline:
  assumes "l \<in> set (str_lines s)"
  shows "10 \<notin> set l"
proof -
  have "set (strip_cr p) \<subseteq> set p" for p by (auto simp: strip_cr_def dest: in_set_butlastD)
  then have closed: "10 \<notin> set (strip_cr p)" if "p \<in> set (split_on 10 s)" for p using split_on_pieces [OF that] by blast
  have "10 \<notin> set (last (split_on 10 s))" by (rule split_on_pieces [OF last_in_set [OF split_on_not_Nil]])
  moreover have "l = last (split_on 10 s) \<or> (\<exists>p \<in> set (split_on 10 s). l = strip_cr p)"
    using assms by (fastforce simp: str_lines_def Let_def split: if_splits dest: in_set_butlastD)
  ultimately show ?thesis using closed by blast
qed

definition entries :: "ustr \<Rightarrow> ustr list" where
  "entries s = filter (\<lambda>t. t \<noteq> []) (map trim (str_lines s))"

lemma jsonl_entries: "jsonl jparse s = List.map_filter jparse (entries s)"
proof -
  have "List.map_filter (\<lambda>l. let t = trim l in if t = [] then None else jparse t) ls =
      List.map_filter jparse (filter (\<lambda>t. t \<noteq> []) (map trim ls))" for ls
    by (induction ls) (auto simp: List.map_filter_simps Let_def split: option.split)
  then show ?thesis by (simp add: jsonl_def entries_def)
qed

lemma entries_clean: "t \<in> set (entries s) \<Longrightarrow> t \<noteq> [] \<and> trim t = t \<and> 10 \<notin> set t"
  using str_lines_no_newline set_trim trim_trim by (fastforce simp: entries_def)

lemma entries_lines:
  assumes "\<And>t. t \<in> set ts \<Longrightarrow> t \<noteq> [] \<and> trim t = t \<and> 10 \<notin> set t"
  shows "entries (concat (map (\<lambda>t. t @ [10]) ts)) = ts"
proof -
  have "last t \<noteq> 13" if "t \<in> set ts" for t
  proof
    assume "last t = 13"
    then have "is_ws (last t)" by (simp add: is_ws_def)
    then show False using trim_ends [of t] assms [OF that] by auto
  qed
  then have "str_lines (concat (map (\<lambda>t. t @ [10]) ts)) = ts" using assms by (intro str_lines_terminated) auto
  moreover have "map trim ts = ts" "filter (\<lambda>t. t \<noteq> []) ts = ts" using assms by (auto simp: map_idI filter_id_conv)
  ultimately show ?thesis by (simp add: entries_def)
qed

lemma jget_jinsert: "jget (jinsert k x v) k' = (case v of JObj _ \<Rightarrow> if lit k' = lit k then Some x else jget v k' | _ \<Rightarrow> None)"
proof -
  have "map_of (filter (\<lambda>p. fst p \<noteq> a) kvs) b = (if b = a then None else map_of kvs b)" for a b and kvs :: "(ustr \<times> json) list"
    by (induction kvs) auto
  then show ?thesis by (cases v) (auto simp: jget_def jinsert_def)
qed

lemma load_row_marked:
  assumes "as_str (jget v ''text'') = Some victim" and "lc < 2 ^ 64"
  shows "load_row fs (jinsert ''lifecycle'' (JInt (int lc)) v) = map_option (\<lambda>e. e\<lparr>ep_lifecycle := of_nat lc\<rparr>) (load_row fs v)"
proof -
  obtain kvs where v: "v = JObj kvs" using assms(1) by (cases v) (simp_all add: jget_def as_str_def)
  let ?w = "jinsert ''lifecycle'' (JInt (int lc)) v"
  have keep: "jget ?w k = jget v k" if "lit k \<noteq> lit ''lifecycle''" for k using that v by (simp add: jget_jinsert)
  have new: "jget ?w ''lifecycle'' = Some (JInt (int lc))" using v by (simp add: jget_jinsert)
  have keys: "lit ''dir'' \<noteq> lit ''lifecycle''" "lit ''ring2_path'' \<noteq> lit ''lifecycle''" "lit ''sig_bits'' \<noteq> lit ''lifecycle''"
    "lit ''npos'' \<noteq> lit ''lifecycle''" "lit ''name'' \<noteq> lit ''lifecycle''" "lit ''topic'' \<noteq> lit ''lifecycle''"
    "lit ''text'' \<noteq> lit ''lifecycle''" "lit ''mem_class'' \<noteq> lit ''lifecycle''" "lit ''mem_delivery'' \<noteq> lit ''lifecycle''"
    "lit ''mem_decline_when'' \<noteq> lit ''lifecycle''" "lit ''mem_decline_message'' \<noteq> lit ''lifecycle''"
    by (simp_all add: lit_def)
  note kept = keys [THEN keep]
  have pol: "row_policy ?w = row_policy v" by (simp only: row_policy_def kept)
  have lc: "as_u64 (Some (JInt (int lc))) = Some (int lc)" using assms(2) by (simp add: as_u64_def)
  show ?thesis
    unfolding load_row_def kept pol new lc or_default_def [where x = "Some (int lc)"]
    by (simp add: Let_def split: option.split prod.split)
qed

text \<open>One line: the row read from the marked line is the marked row.\<close>

lemma load_mark_line:
  assumes "json_contract jparse jprint" and "victim \<noteq> []" and "lc < 2 ^ 64"
  shows "Option.bind (jparse (mark_line jparse jprint victim lc t)) (load_row fs) =
    map_option (\<lambda>e. if ep_text e = victim then e\<lparr>ep_lifecycle := of_nat lc\<rparr> else e) (Option.bind (jparse t) (load_row fs))"
  (is "Option.bind (jparse ?m) _ = map_option ?f _")
proof (cases "jparse t")
  case None
  then show ?thesis by (simp add: mark_line_def)
next
  case (Some v)
  have tx: "ep_text x = or_default (as_str (jget v ''text'')) []" if "load_row fs v = Some x" for x
    using that by (auto simp: load_row_def Let_def split: option.splits prod.splits)
  show ?thesis
  proof (cases "as_str (jget v ''text'') = Some victim")
    case True
    let ?w = "jinsert ''lifecycle'' (JInt (int lc)) v"
    obtain w' where "jparse (jprint ?w) = Some w'" and w': "same_fields w' ?w"
      using Some assms(1,3) unfolding json_contract_def Let_def by blast
    then have "jparse ?m = Some w'" using Some True by (simp add: mark_line_def)
    then show ?thesis using Some True tx load_row_marked [OF True assms(3), of fs] load_row_cong [OF w', of fs]
      by (cases "load_row fs v") (simp_all add: or_default_def)
  next
    case False
    have "ep_text x \<noteq> victim" if "load_row fs v = Some x" for x
      using tx [OF that] False assms(2) by (auto simp: or_default_def split: option.splits)
    then show ?thesis using Some False by (cases "load_row fs v") (simp_all add: mark_line_def)
  qed
qed

text \<open>
  C15. Superseding a memory keeps every row: reading the rewritten registry gives the same episodes in the same order, with
  the new lifecycle (in the eight bits the reader keeps) on exactly those whose text is the victim's.
\<close>

theorem supersede_then_load:
  assumes "json_contract jparse jprint" and "from_utf8 reg = Some s" and "victim \<noteq> []" and "lc < 2 ^ 64"
    and "mark_superseded_registry jparse jprint (Some reg) victim lc = Some s'"
  shows "load_rows jparse fs s' =
    map (\<lambda>e. if ep_text e = victim then e\<lparr>ep_lifecycle := of_nat lc\<rparr> else e) (load_rows jparse fs s)"
proof -
  let ?m = "mark_line jparse jprint victim lc"
  let ?f = "\<lambda>e. if ep_text e = victim then e\<lparr>ep_lifecycle := of_nat lc\<rparr> else e"
  have s': "s' = concat (map (\<lambda>t. t @ [10]) (map ?m (entries s)))"
    using assms(2,5) by (auto simp: mark_superseded_registry_def entries_def comp_def)
  have ok: "?m t \<noteq> [] \<and> trim (?m t) = ?m t \<and> 10 \<notin> set (?m t)" if "t \<in> set (entries s)" for t
    using entries_clean [OF that] assms(1,4) by (auto simp: mark_line_def json_contract_def Let_def split: option.split)
  then have e: "entries s' = map ?m (entries s)" unfolding s' by (intro entries_lines) auto
  note row = load_mark_line [OF assms(1,3,4), where fs = fs]
  have rows: "load_rows jparse fs x = List.map_filter (\<lambda>t. Option.bind (jparse t) (load_row fs)) (entries x)" for x
  proof -
    have "List.map_filter g (List.map_filter f xs) = List.map_filter (\<lambda>t. Option.bind (f t) g) xs" for f g xs
      by (induction xs) (auto simp: List.map_filter_simps split: option.split)
    then show ?thesis by (simp add: load_rows_def jsonl_entries)
  qed
  have "List.map_filter (\<lambda>t. Option.bind (jparse t) (load_row fs)) (map ?m ts) =
      map ?f (List.map_filter (\<lambda>t. Option.bind (jparse t) (load_row fs)) ts)" for ts
    by (induction ts) (auto simp: List.map_filter_simps row split: option.split)
  then show ?thesis by (simp only: rows e)
qed

text \<open>
  A codec with the contract, for one kind of object: a letter for the text and one \<^verbatim>\<open>1\<close> per unit of lifecycle.
\<close>

definition tally_row :: "nat \<Rightarrow> int \<Rightarrow> json" where
  "tally_row c n = JObj [(lit ''lifecycle'', JInt n), (lit ''dir'', JStr [100]), (lit ''sig_bits'', JStr (replicate 64 48)), (lit ''text'', JStr [c])]"

definition tally_parse :: "ustr \<Rightarrow> json option" where
  "tally_parse t = (case t of [] \<Rightarrow> None | c # u \<Rightarrow>
     if 97 \<le> c \<and> c \<le> 122 \<and> list_all (\<lambda>x. x = 49) u then Some (tally_row c (int (length u))) else None)"

definition tally_print :: "json \<Rightarrow> ustr" where
  "tally_print v = or_default (as_str (jget v ''text'')) [] @ replicate (nat (or_default (as_u64 (jget v ''lifecycle'')) 0)) 49"

lemma tally_contract: "json_contract tally_parse tally_print"
proof -
  have "(let w = jinsert ''lifecycle'' (JInt (int n)) v in
         (\<exists>w'. tally_parse (tally_print w) = Some w' \<and> same_fields w' w) \<and>
         10 \<notin> set (tally_print w) \<and> trim (tally_print w) = tally_print w \<and> tally_print w \<noteq> [])"
    if t: "tally_parse t = Some v" and n: "n < 2 ^ 64" for t v n
  proof -
    obtain c m where c: "97 \<le> c" "c \<le> 122" and v: "v = tally_row c m"
      using t by (auto simp: tally_parse_def split: list.splits if_splits)
    have keys: "lit ''text'' \<noteq> lit ''lifecycle''" "lit ''dir'' \<noteq> lit ''lifecycle''" "lit ''sig_bits'' \<noteq> lit ''lifecycle''"
      "lit ''text'' \<noteq> lit ''dir''" "lit ''text'' \<noteq> lit ''sig_bits''" by (simp_all add: lit_def)
    have w: "jinsert ''lifecycle'' (JInt (int n)) v = tally_row c (int n)" by (simp add: v tally_row_def jinsert_def keys)
    have p: "tally_print (tally_row c (int n)) = c # replicate n 49"
      using n keys by (simp add: tally_print_def tally_row_def jget_def as_str_def as_u64_def or_default_def)
    have "\<not> is_ws c" "\<not> is_ws 49" using c by (auto simp: is_ws_def)
    moreover have "dropWhile is_ws (replicate n 49 @ [c]) = replicate n 49 @ [c]" using calculation by (cases n) simp_all
    ultimately have "trim (c # replicate n 49) = c # replicate n 49" by (simp add: trim_def trim_start_def trim_end_def)
    then show ?thesis using c by (simp add: w p tally_parse_def list_all_iff same_fields_def)
  qed
  then show ?thesis unfolding json_contract_def by blast
qed

theorem supersede_then_load_witness:
  "load_rows tally_parse (\<lambda>_. None) [109, 49, 49, 49, 10, 107, 49, 10] =
    map (\<lambda>e. if ep_text e = [109] then e\<lparr>ep_lifecycle := of_nat 3\<rparr> else e)
      (load_rows tally_parse (\<lambda>_. None) [109, 10, 107, 49])"
proof (rule supersede_then_load [OF tally_contract, where reg = "[109, 10, 107, 49]"])
  show "from_utf8 [109, 10, 107, 49] = Some [109, 10, 107, 49]" by code_simp
  then have "mark_superseded_registry tally_parse tally_print (Some [109, 10, 107, 49]) [109] 3 =
      Some (concat (map (\<lambda>t. mark_line tally_parse tally_print [109] 3 t @ [10]) [[109], [107, 49]]))"
    by (simp add: mark_superseded_registry_def str_lines_def trim_def trim_start_def trim_end_def strip_cr_def is_ws_def)
  also have "\<dots> = Some [109, 49, 49, 49, 10, 107, 49, 10]"
    by (simp add: mark_line_def tally_parse_def tally_row_def tally_print_def jget_def jinsert_def as_str_def as_u64_def
        or_default_def lit_def numeral_eq_Suc)
  finally show "mark_superseded_registry tally_parse tally_print (Some [109, 10, 107, 49]) [109] 3 =
      Some [109, 49, 49, 49, 10, 107, 49, 10]" .
qed simp_all

end
