(* ===== verification/Kv_Decode.thy ===== *)
theory Kv_Decode
  imports Float32 Rust_Str
begin

text \<open>
  \<^verbatim>\<open>cuda_kvdecode_dispatch.rs\<close>: the safe wrappers of the resident key/value cache. The C functions behind them are
  the record \<open>kv_glue\<close> over the state of the device; a handle is an address, 0 is \<^verbatim>\<open>NULL\<close>. Slices are passed with
  their length as \<^verbatim>\<open>c_int\<close>. The wrappers check their arguments, count the decode steps and turn a status other than 0
  into the last error text of the library.
\<close>

subsection \<open>The C functions\<close>

record 'w kv_glue =
  g_open :: "nat \<Rightarrow> i32 \<Rightarrow> 'w \<Rightarrow> nat \<times> 'w"
  g_prefill :: "nat \<Rightarrow> i32 list \<Rightarrow> i32 \<Rightarrow> 'w \<Rightarrow> i32 \<times> 'w"
  g_prefill_batched :: "nat \<Rightarrow> i32 list \<Rightarrow> i32 \<Rightarrow> 'w \<Rightarrow> i32 \<times> 'w"
  g_step :: "nat \<Rightarrow> i32 \<Rightarrow> f32 list \<Rightarrow> 'w \<Rightarrow> i32 \<times> f32 list \<times> 'w"
  g_rewind :: "nat \<Rightarrow> i32 \<Rightarrow> 'w \<Rightarrow> i32 \<times> 'w"
  g_reset :: "nat \<Rightarrow> 'w \<Rightarrow> i32 \<times> 'w"
  g_reset_cold :: "nat \<Rightarrow> 'w \<Rightarrow> i32 \<times> 'w"
  g_position :: "nat \<Rightarrow> 'w \<Rightarrow> i32"
  g_close :: "nat \<Rightarrow> 'w \<Rightarrow> 'w"
  g_byteexact :: "nat \<Rightarrow> i32 \<Rightarrow> 'w \<Rightarrow> i32 \<times> 'w"
  g_kv_flags :: "nat \<Rightarrow> u32 \<Rightarrow> 'w \<Rightarrow> i32 \<times> 'w"
  g_replay :: "nat \<Rightarrow> bytes \<Rightarrow> i32 \<Rightarrow> i32 \<Rightarrow> 'w \<Rightarrow> i32 \<times> 'w"
  g_ablate :: "nat \<Rightarrow> i32 \<Rightarrow> i32 list \<Rightarrow> i32 \<Rightarrow> 'w \<Rightarrow> i32 \<times> 'w"
  g_inject_tokens :: "nat \<Rightarrow> i32 list \<Rightarrow> i32 \<Rightarrow> 'w \<Rightarrow> i32 \<times> 'w"
  g_inject_tokens_atten :: "nat \<Rightarrow> i32 list \<Rightarrow> i32 \<Rightarrow> 'w \<Rightarrow> i32 \<times> 'w"
  g_inject_frames :: "nat \<Rightarrow> f32 list \<Rightarrow> i32 \<Rightarrow> i32 \<Rightarrow> 'w \<Rightarrow> i32 \<times> 'w"
  g_read_global_k :: "nat \<Rightarrow> f32 list \<Rightarrow> i32 \<Rightarrow> 'w \<Rightarrow> i32 \<times> f32 list \<times> 'w"
  g_read_global_q :: "nat \<Rightarrow> i32 \<Rightarrow> f32 list \<Rightarrow> 'w \<Rightarrow> i32 \<times> f32 list \<times> 'w"
  g_capture_batched :: "nat \<Rightarrow> i32 list \<Rightarrow> i32 \<Rightarrow> bytes \<Rightarrow> 'w \<Rightarrow> i32 \<times> 'w"
  g_capture_feat :: "nat \<Rightarrow> nat \<Rightarrow> 'w \<Rightarrow> i32 \<times> 'w"
  g_steer :: "nat \<Rightarrow> f32 list option \<Rightarrow> f32 \<Rightarrow> 'w \<Rightarrow> i32 \<times> 'w"
  g_register :: "nat \<Rightarrow> nat \<Rightarrow> 'w \<Rightarrow> i32 \<times> 'w"
  g_last_error :: "'w \<Rightarrow> ustr"

text \<open>The device and the step counter of the process.\<close>

record 'w kv_world =
  dev :: 'w
  steps :: u64

definition step_count :: "'w kv_world \<Rightarrow> u64" where
  "step_count w = steps w"

definition reset_step_count :: "'w kv_world \<Rightarrow> 'w kv_world" where
  "reset_step_count w = w\<lparr>steps := 0\<rparr>"

text \<open>The status of a call as a result.\<close>

definition kv_call :: "'w kv_glue \<Rightarrow> i32 \<times> 'w \<Rightarrow> 'w kv_world \<Rightarrow> (ustr + unit) \<times> 'w kv_world" where
  "kv_call glue r w = (case r of (rc, d) \<Rightarrow> (if rc = 0 then Inr () else Inl (g_last_error glue d), w\<lparr>dev := d\<rparr>))"

subsection \<open>The wrappers\<close>

definition kv_open :: "'w kv_glue \<Rightarrow> nat \<Rightarrow> i32 \<Rightarrow> 'w kv_world \<Rightarrow> (ustr + nat) \<times> 'w kv_world" where
  "kv_open glue qm pmax w =
     (if qm = 0 \<or> sint pmax \<le> 0 then (Inl (lit ''kvdecode open: NULL model or non-positive pmax''), w)
      else case g_open glue qm pmax (dev w) of (h, d) \<Rightarrow>
        (if h = 0 then Inl (g_last_error glue d) else Inr h, w\<lparr>dev := d\<rparr>))"

definition kv_prefill :: "'w kv_glue \<Rightarrow> nat \<Rightarrow> i32 list \<Rightarrow> 'w kv_world \<Rightarrow> (ustr + unit) \<times> 'w kv_world" where
  "kv_prefill glue h toks w =
     (if h = 0 \<or> toks = [] then (Inl (lit ''kvdecode prefill: NULL handle or empty tokens''), w)
      else kv_call glue (g_prefill glue h toks (of_nat (length toks)) (dev w)) w)"

definition kv_prefill_batched :: "'w kv_glue \<Rightarrow> nat \<Rightarrow> i32 list \<Rightarrow> 'w kv_world \<Rightarrow> (ustr + unit) \<times> 'w kv_world" where
  "kv_prefill_batched glue h toks w =
     (if h = 0 \<or> toks = [] then (Inl (lit ''kvdecode prefill_batched: NULL handle or empty tokens''), w)
      else kv_call glue (g_prefill_batched glue h toks (of_nat (length toks)) (dev w)) w)"

text \<open>A \<^verbatim>\<open>CString\<close> is refused when the text has a NUL inside.\<close>

definition c_string :: "ustr \<Rightarrow> bytes option" where
  "c_string s = (if 0 \<in> set s then None else Some (utf8 s @ [0]))"

definition capture_batched :: "'w kv_glue \<Rightarrow> nat \<Rightarrow> i32 list \<Rightarrow> ustr \<Rightarrow> 'w kv_world \<Rightarrow> (ustr + unit) \<times> 'w kv_world" where
  "capture_batched glue qm toks out_dir w =
     (if qm = 0 \<or> toks = [] then (Inl (lit ''kvcapture_batched: NULL model or empty tokens''), w)
      else case c_string out_dir of None \<Rightarrow> (Inl (lit ''kvcapture_batched: out_dir has interior NUL''), w)
        | Some c \<Rightarrow> kv_call glue (g_capture_batched glue qm toks (of_nat (length toks)) c (dev w)) w)"

definition kv_decode_step ::
  "'w kv_glue \<Rightarrow> nat \<Rightarrow> i32 \<Rightarrow> f32 list \<Rightarrow> 'w kv_world \<Rightarrow> (ustr + unit) \<times> f32 list \<times> 'w kv_world" where
  "kv_decode_step glue h t logits w =
     (if h = 0 \<or> logits = [] then (Inl (lit ''kvdecode decode_step: NULL handle or empty logits''), logits, w)
      else case g_step glue h t logits (dev w) of (rc, l, d) \<Rightarrow>
        (if rc = 0 then Inr () else Inl (g_last_error glue d), l, w\<lparr>dev := d, steps := steps w + 1\<rparr>))"

definition kv_rewind :: "'w kv_glue \<Rightarrow> nat \<Rightarrow> i32 \<Rightarrow> 'w kv_world \<Rightarrow> (ustr + unit) \<times> 'w kv_world" where
  "kv_rewind glue h n w =
     (if h = 0 \<or> sint n < 0 then (Inl (lit ''kvdecode rewind: NULL handle or negative n''), w)
      else kv_call glue (g_rewind glue h n (dev w)) w)"

definition kv_reset :: "'w kv_glue \<Rightarrow> nat \<Rightarrow> 'w kv_world \<Rightarrow> (ustr + unit) \<times> 'w kv_world" where
  "kv_reset glue h w =
     (if h = 0 then (Inl (lit ''kvdecode reset: NULL handle''), w)
      else kv_call glue (g_reset glue h (dev w)) w)"

definition reset_cold :: "'w kv_glue \<Rightarrow> nat \<Rightarrow> 'w kv_world \<Rightarrow> (ustr + unit) \<times> 'w kv_world" where
  "reset_cold glue h w =
     (if h = 0 then (Inl (lit ''kvdecode reset_cold: NULL handle''), w)
      else kv_call glue (g_reset_cold glue h (dev w)) w)"

definition set_byteexact :: "'w kv_glue \<Rightarrow> nat \<Rightarrow> bool \<Rightarrow> 'w kv_world \<Rightarrow> (ustr + unit) \<times> 'w kv_world" where
  "set_byteexact glue h on w =
     (if h = 0 then (Inl (lit ''kvdecode set_byteexact: NULL handle''), w)
      else kv_call glue (g_byteexact glue h (if on then 1 else 0) (dev w)) w)"

definition set_kv_flags :: "'w kv_glue \<Rightarrow> nat \<Rightarrow> u32 \<Rightarrow> 'w kv_world \<Rightarrow> (ustr + unit) \<times> 'w kv_world" where
  "set_kv_flags glue h flags w =
     (if h = 0 then (Inl (lit ''kvdecode set_kv_flags: NULL handle''), w)
      else kv_call glue (g_kv_flags glue h flags (dev w)) w)"

definition kv_replay :: "'w kv_glue \<Rightarrow> nat \<Rightarrow> ustr \<Rightarrow> i32 \<Rightarrow> bool \<Rightarrow> 'w kv_world \<Rightarrow> (ustr + unit) \<times> 'w kv_world" where
  "kv_replay glue h epdir npos zero w =
     (if h = 0 \<or> sint npos \<le> 0 then (Inl (lit ''kvdecode replay: NULL handle or non-positive npos''), w)
      else case c_string epdir of None \<Rightarrow> (Inl (lit ''kvdecode replay: epdir has interior NUL''), w)
        | Some c \<Rightarrow> kv_call glue (g_replay glue h c npos (if zero then 1 else 0) (dev w)) w)"

definition kv_ablate :: "'w kv_glue \<Rightarrow> nat \<Rightarrow> i32 \<Rightarrow> i32 list \<Rightarrow> 'w kv_world \<Rightarrow> (ustr + unit) \<times> 'w kv_world" where
  "kv_ablate glue h base positions w =
     (if h = 0 then (Inl (lit ''kvdecode ablate: NULL handle''), w)
      else if positions = [] then (Inr (), w)
      else kv_call glue (g_ablate glue h base positions (of_nat (length positions)) (dev w)) w)"

definition inject_tokens :: "'w kv_glue \<Rightarrow> nat \<Rightarrow> i32 list \<Rightarrow> 'w kv_world \<Rightarrow> (ustr + unit) \<times> 'w kv_world" where
  "inject_tokens glue h toks w =
     (if h = 0 \<or> toks = [] then (Inl (lit ''kvdecode inject_tokens: NULL handle or empty tokens''), w)
      else kv_call glue (g_inject_tokens glue h toks (of_nat (length toks)) (dev w)) w)"

definition inject_tokens_atten :: "'w kv_glue \<Rightarrow> nat \<Rightarrow> i32 list \<Rightarrow> 'w kv_world \<Rightarrow> (ustr + unit) \<times> 'w kv_world" where
  "inject_tokens_atten glue h toks w =
     (if h = 0 \<or> toks = [] then (Inl (lit ''kvdecode inject_tokens_atten: NULL handle or empty tokens''), w)
      else kv_call glue (g_inject_tokens_atten glue h toks (of_nat (length toks)) (dev w)) w)"

definition inject_frames :: "'w kv_glue \<Rightarrow> nat \<Rightarrow> f32 list \<Rightarrow> i32 \<Rightarrow> i32 \<Rightarrow> 'w kv_world \<Rightarrow> (ustr + unit) \<times> 'w kv_world" where
  "inject_frames glue h frames n ph w =
     (if h = 0 \<or> frames = [] \<or> sint n \<le> 0 then (Inl (lit ''kvdecode inject_frames: NULL handle or empty frames''), w)
      else kv_call glue (g_inject_frames glue h frames n ph (dev w)) w)"

definition read_global_k ::
  "'w kv_glue \<Rightarrow> nat \<Rightarrow> f32 list \<Rightarrow> i32 \<Rightarrow> 'w kv_world \<Rightarrow> (ustr + i32) \<times> f32 list \<times> 'w kv_world" where
  "read_global_k glue h out npos w =
     (if h = 0 \<or> out = [] \<or> sint npos \<le> 0
      then (Inl (lit ''kvdecode read_global_k: NULL handle / empty out / non-positive npos''), out, w)
      else case g_read_global_k glue h out npos (dev w) of (n, out', d) \<Rightarrow>
        (if 0 < sint n then Inr n else Inl (g_last_error glue d), out', w\<lparr>dev := d\<rparr>))"

definition read_global_q ::
  "'w kv_glue \<Rightarrow> nat \<Rightarrow> i32 \<Rightarrow> f32 list \<Rightarrow> 'w kv_world \<Rightarrow> (ustr + i32) \<times> f32 list \<times> 'w kv_world" where
  "read_global_q glue h t out w =
     (if h = 0 \<or> out = [] then (Inl (lit ''kvdecode read_global_q: NULL handle / empty out''), out, w)
      else case g_read_global_q glue h t out (dev w) of (n, out', d) \<Rightarrow>
        (if 0 < sint n then Inr n else Inl (g_last_error glue d), out', w\<lparr>dev := d\<rparr>))"

definition kv_position :: "'w kv_glue \<Rightarrow> nat \<Rightarrow> 'w kv_world \<Rightarrow> i32" where
  "kv_position glue h w = g_position glue h (dev w)"

definition kv_close :: "'w kv_glue \<Rightarrow> nat \<Rightarrow> 'w kv_world \<Rightarrow> 'w kv_world" where
  "kv_close glue h w = (if h \<noteq> 0 then w\<lparr>dev := g_close glue h (dev w)\<rparr> else w)"

definition capture_feat_arm :: "'w kv_glue \<Rightarrow> nat \<Rightarrow> nat \<Rightarrow> 'w kv_world \<Rightarrow> (ustr + unit) \<times> 'w kv_world" where
  "capture_feat_arm glue h n w =
     (if h = 0 \<or> n = 0 then (Inl (lit ''kvdecode capture_feat_arm: NULL handle or empty buffer''), w)
      else kv_call glue (g_capture_feat glue h n (dev w)) w)"

text \<open>An empty vector or a strength of zero (of either sign) disarms the steering.\<close>

definition steer_set :: "'w kv_glue \<Rightarrow> nat \<Rightarrow> f32 list \<Rightarrow> f32 \<Rightarrow> 'w kv_world \<Rightarrow> (ustr + unit) \<times> 'w kv_world" where
  "steer_set glue h vec alpha w =
     (if h = 0 then (Inl (lit ''kvdecode steer_set: NULL handle''), w)
      else let disarm = vec = [] \<or> alpha AND 0x7FFFFFFF = 0 in
           kv_call glue (g_steer glue h (if disarm then None else Some vec) (if disarm then 0 else alpha) (dev w)) w)"

subsection \<open>The dispatch table and the registration\<close>

text \<open>The trampolines of the table; \<open>out\<close> tells whether the caller passed a place for the handle.\<close>

definition tramp_open :: "'w kv_glue \<Rightarrow> nat \<Rightarrow> i32 \<Rightarrow> bool \<Rightarrow> 'w kv_world \<Rightarrow> i32 \<times> nat option \<times> 'w kv_world" where
  "tramp_open glue qm pmax out w =
     (case g_open glue qm pmax (dev w) of (h, d) \<Rightarrow>
        if h = 0 then (- 1, None, w\<lparr>dev := d\<rparr>) else (0, if out then Some h else None, w\<lparr>dev := d\<rparr>))"

definition tramp_decode_step :: "'w kv_glue \<Rightarrow> nat \<Rightarrow> i32 \<Rightarrow> f32 list \<Rightarrow> 'w kv_world \<Rightarrow> i32 \<times> f32 list \<times> 'w kv_world" where
  "tramp_decode_step glue h t logits w =
     (case g_step glue h t logits (dev w) of (rc, l, d) \<Rightarrow> (rc, l, w\<lparr>dev := d, steps := steps w + 1\<rparr>))"

definition register_with_session ::
  "'w kv_glue \<Rightarrow> (i32 \<Rightarrow> ustr) \<Rightarrow> nat \<Rightarrow> nat \<Rightarrow> i32 \<Rightarrow> 'w kv_world \<Rightarrow> (ustr + nat) \<times> 'w kv_world" where
  "register_with_session glue show_rc session qm pmax w =
     (case kv_open glue qm pmax w of
        (Inl e, w1) \<Rightarrow> (Inl e, w1)
      | (Inr h, w1) \<Rightarrow>
          (case g_register glue session h (dev w1) of (rc, d) \<Rightarrow>
             if rc \<noteq> 0
             then let w2 = kv_close glue h (w1\<lparr>dev := d\<rparr>) in
                  (Inl (lit ''sp_session_register_kvdecode_backend '' @ [8594] @ lit '' status='' @ show_rc rc @ lit '': '' @
                        g_last_error glue (dev w2)), w2)
             else (Inr h, w1\<lparr>dev := d\<rparr>)))"

definition release_for_model :: "'w kv_glue \<Rightarrow> nat \<Rightarrow> 'w kv_world \<Rightarrow> 'w kv_world" where
  "release_for_model glue h w = kv_close glue h w"

subsection \<open>What the library promises\<close>

text \<open>
  \<open>live d\<close> are the open handles, \<open>pos d h\<close> the decode position the library has counted for a handle (\<^verbatim>\<open>dpos_host\<close> of
  \<^verbatim>\<open>src/backends/cuda/cuda_forward.cu\<close>). The promise is deliberately weak. No call but open and close changes the open
  handles, and no call touches the position of another handle. A status of 0 means that the position was moved as asked;
  of a failed call nothing is promised about the position of its own handle, since a decode can fail after the position
  was advanced, a replay after it was moved, and a rewind is refused when it crosses the ring journal or fails after the
  position was taken back. The theory \<open>G4_Cache\<close> models that side of the library and proves the promise of it.
\<close>

definition moves :: "('w \<Rightarrow> nat set) \<Rightarrow> ('w \<Rightarrow> nat \<Rightarrow> 'p) \<Rightarrow> nat \<Rightarrow> 'w \<Rightarrow> 'w \<Rightarrow> bool" where
  "moves live pos h d d' \<longleftrightarrow> live d' = live d \<and> (\<forall>h'. h' \<noteq> h \<longrightarrow> pos d' h' = pos d h')"

definition kv_contract :: "'w kv_glue \<Rightarrow> ('w \<Rightarrow> nat set) \<Rightarrow> ('w \<Rightarrow> nat \<Rightarrow> nat) \<Rightarrow> bool" where
  "kv_contract glue live pos \<longleftrightarrow>
     (\<forall>d. 0 \<notin> live d) \<and>
     (\<forall>qm pmax d. case g_open glue qm pmax d of (h, d') \<Rightarrow> (\<forall>h'. h' \<noteq> h \<longrightarrow> pos d' h' = pos d h') \<and>
        (if h = 0 then live d' = live d else h \<notin> live d \<and> live d' = insert h (live d) \<and> pos d' h = 0)) \<and>
     (\<forall>h d. live (g_close glue h d) = live d - {h} \<and> (\<forall>h'. h' \<noteq> h \<longrightarrow> pos (g_close glue h d) h' = pos d h')) \<and>
     (\<forall>s h d. live (snd (g_register glue s h d)) = live d) \<and>
     (\<forall>h t l d. h \<in> live d \<longrightarrow> (case g_step glue h t l d of (rc, l', d') \<Rightarrow>
        length l' = length l \<and> moves live pos h d d' \<and> (rc = 0 \<longrightarrow> pos d' h = pos d h + 1))) \<and>
     (\<forall>h n d. h \<in> live d \<and> 0 \<le> sint n \<longrightarrow> (case g_rewind glue h n d of (rc, d') \<Rightarrow>
        moves live pos h d d' \<and> (rc = 0 \<longrightarrow> int (pos d' h) = int (pos d h) - sint n))) \<and>
     (\<forall>h c n z d. h \<in> live d \<and> 0 < sint n \<longrightarrow> (case g_replay glue h c n z d of (rc, d') \<Rightarrow>
        moves live pos h d d' \<and> (rc = 0 \<longrightarrow> int (pos d' h) = int (pos d h) + sint n))) \<and>
     (\<forall>h b ps k d. h \<in> live d \<longrightarrow> (case g_ablate glue h b ps k d of (rc, d') \<Rightarrow> moves live pos h d d' \<and> pos d' h = pos d h))"

lemma kv_contractD:
  assumes "kv_contract glue live pos"
  shows "0 \<notin> live d"
    and "case g_open glue qm pmax d of (h, d') \<Rightarrow> (\<forall>h'. h' \<noteq> h \<longrightarrow> pos d' h' = pos d h') \<and>
      (if h = 0 then live d' = live d else h \<notin> live d \<and> live d' = insert h (live d) \<and> pos d' h = 0)"
    and "live (g_close glue h d) = live d - {h}" and "live (snd (g_register glue s h d)) = live d"
    and "h \<in> live d \<Longrightarrow> case g_step glue h t l d of (rc, l', d') \<Rightarrow>
      length l' = length l \<and> moves live pos h d d' \<and> (rc = 0 \<longrightarrow> pos d' h = pos d h + 1)"
    and "h \<in> live d \<Longrightarrow> 0 \<le> sint n \<Longrightarrow> case g_rewind glue h n d of (rc, d') \<Rightarrow>
      moves live pos h d d' \<and> (rc = 0 \<longrightarrow> int (pos d' h) = int (pos d h) - sint n)"
    and "h \<in> live d \<Longrightarrow> 0 < sint n \<Longrightarrow> case g_replay glue h c n z d of (rc, d') \<Rightarrow>
      moves live pos h d d' \<and> (rc = 0 \<longrightarrow> int (pos d' h) = int (pos d h) + sint n)"
    and "h \<in> live d \<Longrightarrow> case g_ablate glue h b ps k d of (rc, d') \<Rightarrow> moves live pos h d d' \<and> pos d' h = pos d h"
  by (insert assms [unfolded kv_contract_def]; elim conjE; simp)+

lemma moves_refl: "moves live pos h d d"
  by (simp add: moves_def)

lemma moves_trans: "moves live pos h d1 d2 \<Longrightarrow> moves live pos h d2 d3 \<Longrightarrow> moves live pos h d1 d3"
  by (simp add: moves_def)

lemma moves_live: "moves live pos h d d' \<Longrightarrow> live d' = live d"
  by (simp add: moves_def)

lemma kv_call_result: "kv_call glue (rc, d) w = (r, w') \<Longrightarrow> dev w' = d \<and> (r = Inr () \<longleftrightarrow> rc = 0)"
  by (auto simp: kv_call_def split: if_splits)

text \<open>
  The promise for a cold start: \<open>hist d h\<close> are the tokens the library has counted into the cache of a handle. A cold
  reset that fails has left them or has dropped them all; a prefill that fails has appended some first part of its tokens.
\<close>

definition cold_contract :: "'w kv_glue \<Rightarrow> ('w \<Rightarrow> nat set) \<Rightarrow> ('w \<Rightarrow> nat \<Rightarrow> i32 list) \<Rightarrow> bool" where
  "cold_contract glue live hist \<longleftrightarrow>
     (\<forall>d. 0 \<notin> live d) \<and>
     (\<forall>h d. h \<in> live d \<longrightarrow> (case g_reset_cold glue h d of (rc, d') \<Rightarrow>
        moves live hist h d d' \<and> (if rc = 0 then hist d' h = [] else hist d' h \<in> {hist d h, []}))) \<and>
     (\<forall>h ts n d. h \<in> live d \<and> sint n = int (length ts) \<longrightarrow> (case g_prefill glue h ts n d of (rc, d') \<Rightarrow>
        moves live hist h d d' \<and>
        (\<exists>m \<le> length ts. hist d' h = hist d h @ take m ts \<and> (rc = 0 \<longrightarrow> m = length ts))))"

lemma cold_contractD:
  assumes "cold_contract glue live hist"
  shows "0 \<notin> live d"
    and "h \<in> live d \<Longrightarrow> case g_reset_cold glue h d of (rc, d') \<Rightarrow>
      moves live hist h d d' \<and> (if rc = 0 then hist d' h = [] else hist d' h \<in> {hist d h, []})"
    and "h \<in> live d \<Longrightarrow> sint n = int (length ts) \<Longrightarrow> case g_prefill glue h ts n d of (rc, d') \<Rightarrow>
      moves live hist h d d' \<and> (\<exists>m \<le> length ts. hist d' h = hist d h @ take m ts \<and> (rc = 0 \<longrightarrow> m = length ts))"
  by (insert assms [unfolded cold_contract_def]; elim conjE; simp)+

text \<open>The wrappers move a handle the way the calls do.\<close>

lemma kv_decode_step_moves:
  assumes "kv_contract glue live pos" and "h \<in> live (dev w)" and "kv_decode_step glue h t l w = (r, l', w')"
  shows "length l' = length l" "moves live pos h (dev w) (dev w')" "r = Inr () \<Longrightarrow> pos (dev w') h = pos (dev w) h + 1"
proof -
  obtain rc l2 d where s: "g_step glue h t l (dev w) = (rc, l2, d)" by (metis prod_cases3)
  have m: "length l2 = length l" "moves live pos h (dev w) d" "rc = 0 \<longrightarrow> pos d h = pos (dev w) h + 1"
    using kv_contractD(5) [OF assms(1,2), where t = t and l = l] s by simp_all
  have "l' = l \<and> r \<noteq> Inr () \<and> w' = w \<or> l' = l2 \<and> dev w' = d \<and> (r = Inr () \<longleftrightarrow> rc = 0)"
    using assms(3) s by (auto simp: kv_decode_step_def split: if_splits)
  then show "length l' = length l" "moves live pos h (dev w) (dev w')" "r = Inr () \<Longrightarrow> pos (dev w') h = pos (dev w) h + 1"
    using m moves_refl [of live pos h "dev w"] by auto
qed

lemma kv_rewind_moves:
  assumes "kv_contract glue live pos" and "h \<in> live (dev w)" and "kv_rewind glue h n w = (r, w')"
  shows "moves live pos h (dev w) (dev w')" "r = Inr () \<Longrightarrow> int (pos (dev w') h) = int (pos (dev w) h) - sint n"
proof -
  obtain rc d where s: "g_rewind glue h n (dev w) = (rc, d)" by fastforce
  have "r \<noteq> Inr () \<and> w' = w \<or> 0 \<le> sint n \<and> kv_call glue (rc, d) w = (r, w')"
    using assms(3) s by (auto simp: kv_rewind_def split: if_splits)
  then have "moves live pos h (dev w) (dev w') \<and> (r = Inr () \<longrightarrow> int (pos (dev w') h) = int (pos (dev w) h) - sint n)"
    using kv_contractD(6) [OF assms(1,2), of n] s kv_call_result [of glue rc d w r w'] moves_refl by auto
  then show "moves live pos h (dev w) (dev w')" "r = Inr () \<Longrightarrow> int (pos (dev w') h) = int (pos (dev w) h) - sint n" by blast+
qed

lemma kv_replay_cases:
  assumes "kv_replay glue h dir n z w = (r, w')"
  shows "r \<noteq> Inr () \<and> w' = w \<or> 0 < sint n \<and> (\<exists>c rc d. g_replay glue h c n (if z then 1 else 0) (dev w) = (rc, d) \<and> kv_call glue (rc, d) w = (r, w'))"
proof (cases "h = 0 \<or> sint n \<le> 0 \<or> c_string dir = None")
  case True
  then show ?thesis using assms by (auto simp: kv_replay_def split: if_splits)
next
  case False
  then obtain c where c: "c_string dir = Some c" "0 < sint n" "h \<noteq> 0" by auto
  obtain rc d where "g_replay glue h c n (if z then 1 else 0) (dev w) = (rc, d)" by fastforce
  then show ?thesis using assms c by (auto simp: kv_replay_def)
qed

lemma kv_replay_moves:
  assumes "kv_contract glue live pos" and "h \<in> live (dev w)" and "kv_replay glue h dir n z w = (r, w')"
  shows "moves live pos h (dev w) (dev w')"
    "r = Inr () \<Longrightarrow> 0 < sint n \<and> int (pos (dev w') h) = int (pos (dev w) h) + sint n"
proof -
  have "moves live pos h (dev w) (dev w') \<and> (r = Inr () \<longrightarrow> 0 < sint n \<and> int (pos (dev w') h) = int (pos (dev w) h) + sint n)"
    using kv_replay_cases [OF assms(3)]
  proof (elim disjE conjE exE)
    fix c rc d
    assume g: "g_replay glue h c n (if z then 1 else 0) (dev w) = (rc, d)" and k: "kv_call glue (rc, d) w = (r, w')" and n: "0 < sint n"
    then show ?thesis using kv_contractD(7) [OF assms(1,2) n, where c = c and z = "if z then 1 else 0"] kv_call_result [OF k] by simp
  qed (simp add: moves_refl)
  then show "moves live pos h (dev w) (dev w')"
    "r = Inr () \<Longrightarrow> 0 < sint n \<and> int (pos (dev w') h) = int (pos (dev w) h) + sint n" by blast+
qed

lemma kv_ablate_moves:
  assumes "kv_contract glue live pos" and "h \<in> live (dev w)" and "kv_ablate glue h b ps w = (r, w')"
  shows "moves live pos h (dev w) (dev w')" "pos (dev w') h = pos (dev w) h"
proof -
  obtain rc d where s: "g_ablate glue h b ps (of_nat (length ps)) (dev w) = (rc, d)" by fastforce
  have "w' = w \<or> dev w' = d"
    using assms(3) s kv_call_result [of glue rc d w r w'] by (auto simp: kv_ablate_def split: if_splits)
  then show "moves live pos h (dev w) (dev w')" "pos (dev w') h = pos (dev w) h"
    using kv_contractD(8) [OF assms(1,2), where b = b and ps = ps and k = "of_nat (length ps)"] s moves_refl by auto
qed

lemma kv_open_moves:
  assumes "kv_contract glue live pos" and "kv_open glue qm pmax w = (r, w')"
  shows "case r of Inl _ \<Rightarrow> live (dev w') = live (dev w)
    | Inr h \<Rightarrow> h \<notin> live (dev w) \<and> live (dev w') = insert h (live (dev w)) \<and> pos (dev w') h = 0"
proof -
  note kv_contractD(2) [OF assms(1), where qm = qm and pmax = pmax and d = "dev w"]
  then show ?thesis using assms(2) by (auto simp: kv_open_def split: if_splits prod.splits)
qed

lemma kv_close_moves:
  assumes "kv_contract glue live pos"
  shows "live (dev (kv_close glue h w)) = live (dev w) - {h}"
proof -
  have "live (g_close glue h (dev w)) = live (dev w) - {h}" by (rule kv_contractD(3) [OF assms])
  then show ?thesis using kv_contractD(1) [OF assms] by (auto simp: kv_close_def)
qed

text \<open>
  C10. Registering a session never leaks a cache: on success exactly the returned handle is new, on every failure, also
  of the registration itself, the open handles are those before the call.
\<close>

theorem register_never_leaks:
  assumes "kv_contract glue live pos" and "register_with_session glue show_rc s qm pmax w = (r, w')"
  shows "case r of Inl _ \<Rightarrow> live (dev w') = live (dev w)
    | Inr h \<Rightarrow> h \<notin> live (dev w) \<and> live (dev w') = insert h (live (dev w))"
proof -
  obtain r1 w1 where o: "kv_open glue qm pmax w = (r1, w1)" by fastforce
  note m = kv_open_moves [OF assms(1) o]
  show ?thesis
  proof (cases r1)
    case (Inl e)
    then show ?thesis using assms(2) o m by (auto simp: register_with_session_def)
  next
    case (Inr h)
    obtain rc d where g: "g_register glue s h (dev w1) = (rc, d)" by fastforce
    have "live (snd (g_register glue s h (dev w1))) = live (dev w1)" by (rule kv_contractD(4) [OF assms(1)])
    then have d: "live d = insert h (live (dev w))" "h \<notin> live (dev w)" using m Inr g by simp_all
    have c: "live (dev (kv_close glue h (w1\<lparr>dev := d\<rparr>))) = live d - {h}" using kv_close_moves [OF assms(1)] by simp
    show ?thesis
    proof (cases "rc = 0")
      case True
      then have "r = Inr h" "w' = w1\<lparr>dev := d\<rparr>" using assms(2) o Inr g by (simp_all add: register_with_session_def)
      then show ?thesis using d by simp
    next
      case False
      then obtain e where "r = Inl e" "w' = kv_close glue h (w1\<lparr>dev := d\<rparr>)"
        using assms(2) o Inr g by (auto simp: register_with_session_def Let_def)
      then show ?thesis using c d by auto
    qed
  qed
qed

text \<open>
  A library with the contract: the positions of the open handles, the latest first; a decode fails at position 1000 and
  the registration when the session is 0.
\<close>

definition ref_live :: "(nat \<times> nat) list \<Rightarrow> nat set" where
  "ref_live d = fst ` set d - {0}"

definition ref_pos :: "(nat \<times> nat) list \<Rightarrow> nat \<Rightarrow> nat" where
  "ref_pos d h = (case map_of d h of Some p \<Rightarrow> p | None \<Rightarrow> 0)"

definition ref_glue :: "(nat \<times> nat) list kv_glue" where
  "ref_glue = \<lparr>
     g_open = (\<lambda>qm pmax d. let h = Suc (foldr max (map fst d) 0) in (h, (h, 0) # d)),
     g_prefill = (\<lambda>h ts n d. (0, d)), g_prefill_batched = (\<lambda>h ts n d. (0, d)),
     g_step = (\<lambda>h t l d. if ref_pos d h < 1000 then (0, l, (h, ref_pos d h + 1) # d) else (- 1, l, d)),
     g_rewind = (\<lambda>h n d. if h \<in> ref_live d \<and> nat (sint n) \<le> ref_pos d h then (0, (h, ref_pos d h - nat (sint n)) # d) else (- 1, d)), g_reset = (\<lambda>h d. (0, d)), g_reset_cold = (\<lambda>h d. (0, (h, 0) # d)),
     g_position = (\<lambda>h d. of_nat (ref_pos d h)), g_close = (\<lambda>h d. filter (\<lambda>p. fst p \<noteq> h) d),
     g_byteexact = (\<lambda>h b d. (0, d)), g_kv_flags = (\<lambda>h b d. (0, d)),
     g_replay = (\<lambda>h c n z d. (0, (h, ref_pos d h + nat (sint n)) # d)), g_ablate = (\<lambda>h b ps k d. (0, d)),
     g_inject_tokens = (\<lambda>h ts n d. (0, d)), g_inject_tokens_atten = (\<lambda>h ts n d. (0, d)), g_inject_frames = (\<lambda>h f n p d. (0, d)),
     g_read_global_k = (\<lambda>h b n d. (0, b, d)), g_read_global_q = (\<lambda>h t b d. (0, b, d)), g_capture_batched = (\<lambda>q ts n c d. (0, d)),
     g_capture_feat = (\<lambda>h n d. (0, d)), g_steer = (\<lambda>h v a d. (0, d)), g_register = (\<lambda>s h d. (if s = 0 then - 1 else 0, d)),
     g_last_error = (\<lambda>d. lit ''E'')\<rparr>"

lemma foldr_max_fresh: "Suc (foldr max ns 0) \<notin> set ns"
proof -
  have "\<forall>n \<in> set ns. n \<le> foldr max ns 0" by (induction ns) auto
  then show ?thesis by fastforce
qed

lemma ref_pos_simps:
  "ref_pos ((h, n) # d) = (ref_pos d)(h := n)"
  "h' \<noteq> h \<Longrightarrow> ref_pos (filter (\<lambda>p. fst p \<noteq> h) d) h' = ref_pos d h'"
proof -
  show "ref_pos ((h, n) # d) = (ref_pos d)(h := n)" by (auto simp: ref_pos_def)
  show "ref_pos (filter (\<lambda>p. fst p \<noteq> h) d) h' = ref_pos d h'" if "h' \<noteq> h"
    using that by (induction d) (auto simp: ref_pos_def)
qed

lemma ref_glue_contract: "kv_contract ref_glue ref_live ref_pos"
proof -
  have fresh: "Suc (foldr max (map fst d) 0) \<notin> fst ` set d" for d :: "(nat \<times> nat) list" using foldr_max_fresh [of "map fst d"] by simp
  have l: "h \<in> ref_live d \<Longrightarrow> ref_live ((h, n) # d) = ref_live d" for h n d by (auto simp: ref_live_def)
  show ?thesis
    by (auto simp: kv_contract_def ref_glue_def Let_def moves_def ref_pos_simps l of_nat_diff)
      (use fresh in \<open>auto simp: ref_live_def\<close>)
qed

theorem register_never_leaks_witness:
  "\<exists>e. fst (register_with_session ref_glue (\<lambda>_. []) 0 7 16 \<lparr>dev = [(1, 5)], steps = 0\<rparr>) = Inl e \<and>
     ref_live (dev (snd (register_with_session ref_glue (\<lambda>_. []) 0 7 16 \<lparr>dev = [(1, 5)], steps = 0\<rparr>))) = {1}"
proof -
  let ?w = "\<lparr>dev = [(1, 5)], steps = 0\<rparr> :: (nat \<times> nat) list kv_world"
  obtain r w' where r: "register_with_session ref_glue (\<lambda>_. []) 0 7 16 ?w = (r, w')" by fastforce
  have "\<exists>e. r = Inl e" using r by (auto simp: register_with_session_def kv_open_def ref_glue_def Let_def)
  then obtain e where e: "r = Inl e" ..
  have "ref_live (dev w') = ref_live [(1, 5)]" using register_never_leaks [OF ref_glue_contract r] e by simp
  then have "ref_live (dev w') = {1}" by (simp add: ref_live_def)
  then show ?thesis unfolding r by (simp add: e)
qed

end
