(* ===== verification/G4_Cache.thy ===== *)
theory G4_Cache
  imports Kv_Decode "HOL-Library.AList"
begin

text \<open>
  The other side of the cache wrappers: what \<^verbatim>\<open>src/backends/cuda/cuda_forward.cu\<close> keeps on the host for a resident cache
  (\<^verbatim>\<open>struct sp_g4_kv\<close>: the decode position, the tokens by position, the window of the ring journal), through the checks of
  \<^verbatim>\<open>sp_daemon_cuda_glue.c\<close>. The keys and values on the device are not modelled. Every call of the CUDA runtime, of the
  kernels and of the files of an episode takes its outcome from a list (\<open>True\<close> is success, the empty list means that the
  rest succeeds), so every failure path of the code is a run of the model. The C code adds positions as \<^verbatim>\<open>int\<close>; they are
  natural numbers here (the code keeps them within \<^verbatim>\<open>Pmax\<close>), and calls on a handle that is not open, undefined in C, answer -1.
  A failed drain of the stream answers 1 (\<^verbatim>\<open>fail_cuda\<close>), other failures -1.
\<close>

subsection \<open>The state of a cache\<close>

record g4_kv =
  Pmax :: nat
  dpos_host :: nat
  dseq :: "nat \<Rightarrow> i32"
  ring_W :: nat
  Jmax :: nat
  commit_pos :: int
  jcur :: nat

text \<open>The process: the environment it reads, the open caches, the outcomes to come.\<close>

record g4_dev =
  env_ring_W :: int
  env_Jmax :: int
  env_fit :: "nat option"
  sync_every :: nat
  caches :: "(nat \<times> g4_kv) list"
  luck :: "bool list"

fun cuda :: "bool list \<Rightarrow> bool \<times> bool list" where
  "cuda [] = (True, [])"
| "cuda (b # bs) = (b, bs)"

definition with_luck :: "g4_dev \<Rightarrow> bool \<times> g4_dev" where
  "with_luck d = (case cuda (luck d) of (ok, bs) \<Rightarrow> (ok, d\<lparr>luck := bs\<rparr>))"

text \<open>A call on an open cache.\<close>

definition on_cache :: "nat \<Rightarrow> (g4_kv \<Rightarrow> bool list \<Rightarrow> i32 \<times> g4_kv \<times> bool list) \<Rightarrow> g4_dev \<Rightarrow> i32 \<times> g4_dev" where
  "on_cache h f d =
     (case map_of (caches d) h of
        None \<Rightarrow> (- 1, d)
      | Some s \<Rightarrow> (case f s (luck d) of (rc, s', bs) \<Rightarrow> (rc, d\<lparr>caches := AList.update h s' (caches d), luck := bs\<rparr>)))"

subsection \<open>The operations\<close>

definition gemma4_kv_open :: "i32 \<Rightarrow> g4_dev \<Rightarrow> nat \<times> g4_dev" where
  "gemma4_kv_open pmax d =
     (if sint pmax \<le> 0 then (0, d)
      else case with_luck d of
        (False, d') \<Rightarrow> (0, d')
      | (True, d') \<Rightarrow>
          (let p = nat (sint pmax);
               p' = (case env_fit d of Some f \<Rightarrow> if 0 < f \<and> f < p then f else p | None \<Rightarrow> p);
               w = (if env_ring_W d < 0 \<or> int p' < env_ring_W d then 0 else nat (env_ring_W d));
               h = Suc (foldr max (map fst (caches d)) 0)
           in (h, d'\<lparr>caches := (h, \<lparr>Pmax = p', dpos_host = 0, dseq = (\<lambda>_. 0), ring_W = w, Jmax = nat (max 1 (env_Jmax d)),
                 commit_pos = 0, jcur = 0\<rparr>) # caches d\<rparr>)))"

text \<open>
  One forward step at the live position. With the ring, the journal of overwritten slots holds \<open>Jmax\<close> positions: when it
  is full its start slides forward.
\<close>

definition slide_journal :: "g4_kv \<Rightarrow> g4_kv" where
  "slide_journal s =
     (let span = int (dpos_host s) - commit_pos s in
      if 0 < ring_W s \<and> 0 < Jmax s \<and> (span < 0 \<or> int (Jmax s) \<le> span)
      then s\<lparr>commit_pos := int (dpos_host s) - (int (Jmax s) - 1), jcur := min (jcur s) (Jmax s - 1)\<rparr>
      else s)"

definition g4_kv_step :: "g4_kv \<Rightarrow> bool list \<Rightarrow> i32 \<times> g4_kv \<times> bool list" where
  "g4_kv_step s bs =
     (case cuda bs of
        (False, bs1) \<Rightarrow> (- 1, s, bs1)
      | (True, bs1) \<Rightarrow>
          (let s1 = slide_journal s in
           if 0 < ring_W s1 \<and> int (Jmax s1) \<le> int (dpos_host s1) - commit_pos s1 then (- 1, s1, bs1)
           else case cuda bs1 of (ok, bs2) \<Rightarrow> (if ok then 0 else - 1, s1, bs2)))"

text \<open>The tokens go to the slots after the position; the stream is drained every \<open>sync\<close> tokens and at the end.\<close>

definition store_tokens :: "i32 list \<Rightarrow> g4_kv \<Rightarrow> g4_kv" where
  "store_tokens toks s =
     s\<lparr>dseq := (\<lambda>i. if dpos_host s \<le> i \<and> i < dpos_host s + length toks then toks ! (i - dpos_host s) else dseq s i)\<rparr>"

fun prefill_loop :: "nat \<Rightarrow> nat \<Rightarrow> nat \<Rightarrow> g4_kv \<Rightarrow> bool list \<Rightarrow> i32 \<times> g4_kv \<times> bool list" where
  "prefill_loop sync i 0 s bs = (case cuda bs of (ok, bs1) \<Rightarrow> (if ok then 0 else 1, s, bs1))"
| "prefill_loop sync i (Suc k) s bs =
     (case g4_kv_step s bs of (rc, s1, bs1) \<Rightarrow>
        if rc \<noteq> 0 then (- 1, s1, bs1)
        else let s2 = s1\<lparr>dpos_host := dpos_host s1 + 1\<rparr> in
             if (i + 1) mod sync = 0 \<and> 0 < k
             then (case cuda bs1 of (ok, bs2) \<Rightarrow> if ok then prefill_loop sync (i + 1) k s2 bs2 else (1, s2, bs2))
             else prefill_loop sync (i + 1) k s2 bs1)"

definition gemma4_kv_prefill :: "nat \<Rightarrow> i32 list \<Rightarrow> i32 \<Rightarrow> g4_kv \<Rightarrow> bool list \<Rightarrow> i32 \<times> g4_kv \<times> bool list" where
  "gemma4_kv_prefill sync toks n s bs =
     (if sint n \<le> 0 \<or> int (Pmax s) < int (dpos_host s) + sint n then (- 1, s, bs)
      else case cuda bs of
        (False, bs1) \<Rightarrow> (- 1, s, bs1)
      | (True, bs1) \<Rightarrow> prefill_loop sync 0 (nat (sint n)) (store_tokens (take (nat (sint n)) toks) s) bs1)"

definition gemma4_kv_decode_logits :: "i32 \<Rightarrow> g4_kv \<Rightarrow> bool list \<Rightarrow> i32 \<times> g4_kv \<times> bool list" where
  "gemma4_kv_decode_logits t s bs =
     (if Pmax s \<le> dpos_host s + 1 then (- 1, s, bs)
      else case cuda bs of
        (False, bs1) \<Rightarrow> (- 1, s, bs1)
      | (True, bs1) \<Rightarrow>
          (case g4_kv_step (store_tokens [t] s) bs1 of (rc, s1, bs2) \<Rightarrow>
             if rc \<noteq> 0 then (- 1, s1, bs2)
             else case cuda bs2 of
               (False, bs3) \<Rightarrow> (- 1, s1, bs3)
             | (True, bs3) \<Rightarrow> (case cuda bs3 of (ok, bs4) \<Rightarrow> (if ok then 0 else 1, s1\<lparr>dpos_host := dpos_host s1 + 1\<rparr>, bs4))))"

definition gemma4_kv_rewind :: "i32 \<Rightarrow> g4_kv \<Rightarrow> bool list \<Rightarrow> i32 \<times> g4_kv \<times> bool list" where
  "gemma4_kv_rewind n s bs =
     (if sint n < 0 \<or> int (dpos_host s) < sint n then (- 1, s, bs)
      else if 0 < ring_W s \<and> int (dpos_host s) - commit_pos s < sint n then (- 1, s, bs)
      else case cuda bs of (ok, bs1) \<Rightarrow> (if ok then 0 else - 1, s\<lparr>dpos_host := dpos_host s - nat (sint n)\<rparr>, bs1))"

definition gemma4_kv_commit :: "g4_kv \<Rightarrow> bool list \<Rightarrow> i32 \<times> g4_kv \<times> bool list" where
  "gemma4_kv_commit s bs = (0, s\<lparr>commit_pos := int (dpos_host s), jcur := 0\<rparr>, bs)"

definition gemma4_kv_reset :: "g4_kv \<Rightarrow> bool list \<Rightarrow> i32 \<times> g4_kv \<times> bool list" where
  "gemma4_kv_reset s bs =
     (case cuda bs of (ok, bs1) \<Rightarrow> (if ok then 0 else - 1, s\<lparr>dpos_host := 0, commit_pos := 0, jcur := 0\<rparr>, bs1))"

text \<open>The cold reset clears the caches first; when that fails the position stays.\<close>

definition gemma4_kv_reset_cold :: "g4_kv \<Rightarrow> bool list \<Rightarrow> i32 \<times> g4_kv \<times> bool list" where
  "gemma4_kv_reset_cold s bs =
     (case cuda bs of
        (False, bs1) \<Rightarrow> (1, s, bs1)
      | (True, bs1) \<Rightarrow>
          (case cuda bs1 of (ok, bs2) \<Rightarrow> (if ok then 0 else - 1, s\<lparr>dpos_host := 0, commit_pos := 0, jcur := 0\<rparr>, bs2)))"

text \<open>
  The replay of a stored episode: one outcome for reading its files and allocating the buffers, one for the last copy of
  the position.
\<close>

definition gemma4_kv_replay :: "i32 \<Rightarrow> g4_kv \<Rightarrow> bool list \<Rightarrow> i32 \<times> g4_kv \<times> bool list" where
  "gemma4_kv_replay n s bs =
     (if sint n \<le> 0 \<or> int (Pmax s) < int (dpos_host s) + sint n then (- 1, s, bs)
      else if 0 < ring_W s \<and> int (Jmax s) < int (dpos_host s) - commit_pos s + sint n then (- 1, s, bs)
      else case cuda bs of
        (False, bs1) \<Rightarrow> (- 1, s, bs1)
      | (True, bs1) \<Rightarrow>
          (case cuda bs1 of (ok, bs2) \<Rightarrow> (if ok then 0 else - 1, s\<lparr>dpos_host := dpos_host s + nat (sint n)\<rparr>, bs2)))"

text \<open>The masking clears rows on the device and never fails.\<close>

definition gemma4_kv_ablate_rows :: "g4_kv \<Rightarrow> bool list \<Rightarrow> i32 \<times> g4_kv \<times> bool list" where
  "gemma4_kv_ablate_rows s bs = (0, s, bs)"

text \<open>Injected tokens and frames are prefilled one by one; a frame is first copied to the device.\<close>

fun inject_each :: "nat \<Rightarrow> i32 list \<Rightarrow> g4_kv \<Rightarrow> bool list \<Rightarrow> i32 \<times> g4_kv \<times> bool list" where
  "inject_each sync [] s bs = (0, s, bs)"
| "inject_each sync (t # ts) s bs =
     (case gemma4_kv_prefill sync [t] 1 s bs of (rc, s1, bs1) \<Rightarrow>
        if rc \<noteq> 0 then (- 1, s1, bs1) else inject_each sync ts s1 bs1)"

definition gemma4_kv_inject_tokens :: "nat \<Rightarrow> i32 list \<Rightarrow> i32 \<Rightarrow> g4_kv \<Rightarrow> bool list \<Rightarrow> i32 \<times> g4_kv \<times> bool list" where
  "gemma4_kv_inject_tokens sync toks n s bs =
     (if sint n \<le> 0 \<or> int (Pmax s) < int (dpos_host s) + sint n then (- 1, s, bs)
      else case cuda bs of
        (False, bs1) \<Rightarrow> (- 1, s, bs1)
      | (True, bs1) \<Rightarrow> inject_each sync (take (nat (sint n)) toks) s bs1)"

fun inject_frames_loop :: "nat \<Rightarrow> nat \<Rightarrow> i32 \<Rightarrow> g4_kv \<Rightarrow> bool list \<Rightarrow> i32 \<times> g4_kv \<times> bool list" where
  "inject_frames_loop sync 0 ph s bs = (0, s, bs)"
| "inject_frames_loop sync (Suc k) ph s bs =
     (case cuda bs of
        (False, bs1) \<Rightarrow> (- 1, s, bs1)
      | (True, bs1) \<Rightarrow>
          (case gemma4_kv_prefill sync [ph] 1 s bs1 of (rc, s1, bs2) \<Rightarrow>
             if rc \<noteq> 0 then (- 1, s1, bs2) else inject_frames_loop sync k ph s1 bs2))"

definition gemma4_kv_inject_seq :: "nat \<Rightarrow> i32 \<Rightarrow> i32 \<Rightarrow> g4_kv \<Rightarrow> bool list \<Rightarrow> i32 \<times> g4_kv \<times> bool list" where
  "gemma4_kv_inject_seq sync n ph s bs = (if sint n \<le> 0 then (- 1, s, bs) else inject_frames_loop sync (nat (sint n)) ph s bs)"

text \<open>The batched prefill wants a cold cache; it commits the position at the end, after every other call.\<close>

definition gemma4_kv_prefill_batched :: "i32 list \<Rightarrow> i32 \<Rightarrow> g4_kv \<Rightarrow> bool list \<Rightarrow> i32 \<times> g4_kv \<times> bool list" where
  "gemma4_kv_prefill_batched toks n s bs =
     (if sint n \<le> 0 \<or> dpos_host s \<noteq> 0 \<or> int (Pmax s) < sint n then (- 1, s, bs)
      else case cuda bs of
        (False, bs1) \<Rightarrow> (- 1, s, bs1)
      | (True, bs1) \<Rightarrow> (0, (store_tokens (take (nat (sint n)) toks) s)\<lparr>dpos_host := nat (sint n)\<rparr>, bs1))"

text \<open>
  The peek at the queries steps at the position without advancing it and gives the journal counters back; it returns
  the number of layers read.
\<close>

definition gemma4_kv_read_global_q :: "i32 \<Rightarrow> i32 \<Rightarrow> g4_kv \<Rightarrow> bool list \<Rightarrow> i32 \<times> g4_kv \<times> bool list" where
  "gemma4_kv_read_global_q gi t s bs =
     (if Pmax s \<le> dpos_host s + 1 then (- 1, s, bs)
      else case cuda bs of
        (False, bs1) \<Rightarrow> (- 1, s, bs1)
      | (True, bs1) \<Rightarrow>
          (case g4_kv_step (store_tokens [t] s) bs1 of (rc, s1, bs2) \<Rightarrow>
             if rc \<noteq> 0 then (- 1, s1, bs2)
             else let s2 = s1\<lparr>commit_pos := commit_pos s, jcur := jcur s\<rparr> in
               (case cuda bs2 of
                  (False, bs3) \<Rightarrow> (- 1, s2, bs3)
                | (True, bs3) \<Rightarrow> (case cuda bs3 of (ok, bs4) \<Rightarrow> (if ok then gi else 1, s2, bs4)))))"

definition gemma4_kv_read_global_k :: "i32 \<Rightarrow> i32 \<Rightarrow> g4_kv \<Rightarrow> bool list \<Rightarrow> i32 \<times> g4_kv \<times> bool list" where
  "gemma4_kv_read_global_k gi n s bs =
     (if sint n \<le> 0 \<or> int (dpos_host s) < sint n then (- 1, s, bs)
      else case cuda bs of (ok, bs1) \<Rightarrow> (if ok then gi else - 1, s, bs1))"

text \<open>The live position of an open cache, and its end.\<close>

definition gemma4_kv_pos :: "nat \<Rightarrow> g4_dev \<Rightarrow> i32" where
  "gemma4_kv_pos h d = (case map_of (caches d) h of Some s \<Rightarrow> of_nat (dpos_host s) | None \<Rightarrow> - 1)"

definition gemma4_kv_close :: "nat \<Rightarrow> g4_dev \<Rightarrow> g4_dev" where
  "gemma4_kv_close h d = d\<lparr>caches := filter (\<lambda>p. fst p \<noteq> h) (caches d)\<rparr>"

subsection \<open>The record of the library\<close>

text \<open>
  \<open>row\<close> is the row of logits after a history and \<open>reg\<close> the answer of the registration, which other libraries compute;
  the calls that do not touch the counters only have an outcome.
\<close>

definition g4_call :: "i32 \<Rightarrow> g4_dev \<Rightarrow> i32 \<times> g4_dev" where
  "g4_call err d = (case with_luck d of (ok, d') \<Rightarrow> (if ok then 0 else err, d'))"

definition g4_live :: "g4_dev \<Rightarrow> nat set" where
  "g4_live d = fst ` set (caches d) - {0}"

definition g4_position :: "g4_dev \<Rightarrow> nat \<Rightarrow> nat" where
  "g4_position d h = (case map_of (caches d) h of Some s \<Rightarrow> dpos_host s | None \<Rightarrow> 0)"

definition counted_tokens :: "g4_kv \<Rightarrow> i32 list" where
  "counted_tokens s = map (dseq s) [0..<dpos_host s]"

definition g4_hist :: "g4_dev \<Rightarrow> nat \<Rightarrow> i32 list" where
  "g4_hist d h = (case map_of (caches d) h of Some s \<Rightarrow> counted_tokens s | None \<Rightarrow> [])"

definition copy_row :: "f32 list \<Rightarrow> f32 list \<Rightarrow> f32 list" where
  "copy_row r l = take (length l) r @ drop (length r) l"

definition g4_glue :: "(i32 list \<Rightarrow> f32 list) \<Rightarrow> (nat \<Rightarrow> nat \<Rightarrow> i32) \<Rightarrow> g4_dev kv_glue" where
  "g4_glue row reg = \<lparr>
     g_open = (\<lambda>qm pmax d. if qm = 0 then (0, d) else gemma4_kv_open pmax d),
     g_prefill = (\<lambda>h ts n d. on_cache h (gemma4_kv_prefill (sync_every d) ts n) d),
     g_prefill_batched = (\<lambda>h ts n d. on_cache h (gemma4_kv_prefill_batched ts n) d),
     g_step = (\<lambda>h t l d. case on_cache h (gemma4_kv_decode_logits t) d of (rc, d') \<Rightarrow>
       (rc, if rc = 0 then copy_row (row (g4_hist d' h)) l else l, d')),
     g_rewind = (\<lambda>h n d. on_cache h (gemma4_kv_rewind n) d), g_reset = (\<lambda>h d. on_cache h gemma4_kv_reset d),
     g_reset_cold = (\<lambda>h d. on_cache h gemma4_kv_reset_cold d), g_position = gemma4_kv_pos, g_close = gemma4_kv_close,
     g_byteexact = (\<lambda>h b. g4_call 1), g_kv_flags = (\<lambda>h b. g4_call 1),
     g_replay = (\<lambda>h c n z d. on_cache h (gemma4_kv_replay n) d), g_ablate = (\<lambda>h b ps k d. on_cache h gemma4_kv_ablate_rows d),
     g_inject_tokens = (\<lambda>h ts n d. on_cache h (gemma4_kv_inject_tokens (sync_every d) ts n) d),
     g_inject_tokens_atten = (\<lambda>h ts n d. on_cache h (gemma4_kv_inject_tokens (sync_every d) ts n) d),
     g_inject_frames = (\<lambda>h f n p d. on_cache h (gemma4_kv_inject_seq (sync_every d) n p) d),
     g_read_global_k = (\<lambda>h b n d. case on_cache h (gemma4_kv_read_global_k 8 n) d of (rc, d') \<Rightarrow> (rc, b, d')),
     g_read_global_q = (\<lambda>h t b d. case on_cache h (gemma4_kv_read_global_q 8 t) d of (rc, d') \<Rightarrow> (rc, b, d')),
     g_capture_batched = (\<lambda>q ts n c. g4_call (- 1)), g_capture_feat = (\<lambda>h n d. (0, d)), g_steer = (\<lambda>h v a. g4_call (- 1)),
     g_register = (\<lambda>s h d. (reg s h, d)), g_last_error = (\<lambda>d. lit ''E'')\<rparr>"

subsection \<open>What the calls do to the counters\<close>

lemma on_cache_moves:
  assumes "on_cache h f d = (rc, d')"
  shows "moves g4_live g4_position h d d'" and "moves g4_live g4_hist h d d'"
proof -
  have "fst ` set (caches d') = fst ` set (caches d) \<and> (\<forall>h'. h' \<noteq> h \<longrightarrow> map_of (caches d') h' = map_of (caches d) h')"
  proof (cases "map_of (caches d) h")
    case None
    then show ?thesis using assms by (simp add: on_cache_def)
  next
    case (Some s)
    then have k: "fst ` set (AList.update h s' (caches d)) = fst ` set (caches d)" for s'
      unfolding dom_update by (metis insert_absorb insert_is_Un map_of_eq_None_iff option.distinct(1))
    obtain rc1 s' bs where "f s (luck d) = (rc1, s', bs)" by (metis prod_cases3)
    then have "caches d' = AList.update h s' (caches d)" using assms Some by (auto simp: on_cache_def)
    then show ?thesis by (simp add: k update_conv)
  qed
  then show "moves g4_live g4_position h d d'" and "moves g4_live g4_hist h d d'"
    by (auto simp: moves_def g4_live_def g4_position_def g4_hist_def)
qed

lemma on_cache_result:
  assumes "h \<in> g4_live d" and "on_cache h f d = (rc, d')"
  obtains s s' bs where "map_of (caches d) h = Some s" "f s (luck d) = (rc, s', bs)" "map_of (caches d') h = Some s'"
proof -
  have "h \<in> dom (map_of (caches d))" using assms(1) by (simp add: g4_live_def dom_map_of_conv_image_fst)
  then obtain s where s: "map_of (caches d) h = Some s" by blast
  obtain rc1 s' bs where f: "f s (luck d) = (rc1, s', bs)" by (metis prod_cases3)
  have "rc1 = rc" "map_of (caches d') h = Some s'" using assms(2) s f by (auto simp: on_cache_def update_conv)
  then show thesis using that [OF s] f by simp
qed

lemma slide_journal_simps [simp]:
  "dpos_host (slide_journal s) = dpos_host s" "dseq (slide_journal s) = dseq s" "Pmax (slide_journal s) = Pmax s"
  by (simp_all add: slide_journal_def Let_def)

lemma step_counters:
  assumes "g4_kv_step s bs = (rc, s', bs')"
  shows "dpos_host s' = dpos_host s \<and> dseq s' = dseq s"
  using assms by (auto simp: g4_kv_step_def Let_def split: prod.splits bool.splits if_splits)

lemma store_tokens_simps [simp]: "dpos_host (store_tokens ts s) = dpos_host s"
  by (simp add: store_tokens_def)

lemma decode_counters:
  assumes "gemma4_kv_decode_logits t s bs = (rc, s', bs')" and "rc = 0"
  shows "dpos_host s' = dpos_host s + 1"
  using assms step_counters [of "store_tokens [t] s"]
  by (auto simp: gemma4_kv_decode_logits_def split: prod.splits bool.splits if_splits)

lemma rewind_counters:
  assumes "gemma4_kv_rewind n s bs = (rc, s', bs')" and "rc = 0"
  shows "int (dpos_host s') = int (dpos_host s) - sint n"
  using assms by (auto simp: gemma4_kv_rewind_def split: prod.splits if_splits)

lemma replay_counters:
  assumes "gemma4_kv_replay n s bs = (rc, s', bs')" and "rc = 0"
  shows "int (dpos_host s') = int (dpos_host s) + sint n"
  using assms by (auto simp: gemma4_kv_replay_def split: prod.splits bool.splits if_splits)

lemma reset_cold_counters:
  assumes "gemma4_kv_reset_cold s bs = (rc, s', bs')"
  shows "counted_tokens s' = [] \<or> rc \<noteq> 0 \<and> s' = s"
  using assms by (auto simp: gemma4_kv_reset_cold_def counted_tokens_def split: prod.splits bool.splits if_splits)

lemma prefill_loop_counters:
  "prefill_loop sync i k s bs = (rc, s', bs') \<Longrightarrow>
     dseq s' = dseq s \<and> (\<exists>m \<le> k. dpos_host s' = dpos_host s + m \<and> (rc = 0 \<longrightarrow> m = k))"
proof (induction k arbitrary: i s bs)
  case (Suc k)
  obtain rc1 s1 bs1 where st: "g4_kv_step s bs = (rc1, s1, bs1)" by (metis prod_cases3)
  note c = step_counters [OF st]
  define s2 where "s2 = s1\<lparr>dpos_host := dpos_host s1 + 1\<rparr>"
  have s2: "dseq s2 = dseq s" "dpos_host s2 = dpos_host s + 1" using c by (simp_all add: s2_def)
  have "s' = s1 \<and> rc \<noteq> 0 \<or> s' = s2 \<and> rc \<noteq> 0 \<or> (\<exists>bs2. prefill_loop sync (i + 1) k s2 bs2 = (rc, s', bs'))"
    using Suc.prems st by (auto simp: s2_def Let_def split: prod.splits if_splits)
  then show ?case
  proof (elim disjE conjE exE)
    fix bs2
    assume "prefill_loop sync (i + 1) k s2 bs2 = (rc, s', bs')"
    then obtain m where "dseq s' = dseq s2" "m \<le> k" "dpos_host s' = dpos_host s2 + m" "rc = 0 \<longrightarrow> m = k"
      using Suc.IH by blast
    then show ?thesis using s2 by (intro conjI exI [of _ "Suc m"]) auto
  qed (use c s2 in auto)
qed (auto split: prod.splits)

text \<open>Without the ring nothing but a failing call can stop a prefill that fits.\<close>

lemma prefill_lucky:
  assumes "ring_W s = 0" and "0 < sint n" and "int (dpos_host s) + sint n \<le> int (Pmax s)"
  shows "fst (gemma4_kv_prefill sync ts n s []) = 0"
proof -
  have "ring_W s = 0 \<Longrightarrow> fst (prefill_loop sync i k s []) = 0" for i k s
  proof (induction k arbitrary: i s)
    case (Suc k)
    then have "g4_kv_step s [] = (0, s, [])" by (simp add: g4_kv_step_def slide_journal_def)
    then show ?case using Suc by (simp add: Let_def)
  qed simp
  then show ?thesis using assms by (simp add: gemma4_kv_prefill_def store_tokens_def)
qed

lemma counted_stored:
  assumes "dseq s' = dseq (store_tokens ts s)" and "dpos_host s' = dpos_host s + m" and "m \<le> length ts"
  shows "counted_tokens s' = counted_tokens s @ take m ts"
  using assms by (intro nth_equalityI) (auto simp: counted_tokens_def store_tokens_def nth_append)

lemma prefill_counters:
  assumes "gemma4_kv_prefill sync ts n s bs = (rc, s', bs')" and "sint n = int (length ts)"
  shows "\<exists>m \<le> length ts. counted_tokens s' = counted_tokens s @ take m ts \<and> (rc = 0 \<longrightarrow> m = length ts)"
proof -
  have n: "nat (sint n) = length ts" using assms(2) by simp
  consider "s' = s" "rc \<noteq> 0" | bs1 where "prefill_loop sync 0 (length ts) (store_tokens ts s) bs1 = (rc, s', bs')"
    using assms(1) by (auto simp: gemma4_kv_prefill_def n split: prod.splits bool.splits if_splits)
  then show ?thesis
  proof cases
    case (2 bs1)
    then obtain m where "dseq s' = dseq (store_tokens ts s)" "m \<le> length ts" "dpos_host s' = dpos_host s + m" "rc = 0 \<longrightarrow> m = length ts"
      using prefill_loop_counters [OF 2] unfolding store_tokens_simps by blast
    then show ?thesis using counted_stored by blast
  qed auto
qed

subsection \<open>The library keeps its promises\<close>

lemma with_luck_caches: "with_luck d = (ok, d') \<Longrightarrow> caches d' = caches d"
  by (auto simp: with_luck_def split: prod.splits)

lemma open_counters:
  assumes "gemma4_kv_open pmax d = (h, d')"
  shows "(\<forall>h'. h' \<noteq> h \<longrightarrow> g4_position d' h' = g4_position d h') \<and>
    (if h = 0 then g4_live d' = g4_live d else h \<notin> g4_live d \<and> g4_live d' = insert h (g4_live d) \<and> g4_position d' h = 0)"
proof -
  have fresh: "Suc (foldr max (map fst (caches d)) 0) \<notin> fst ` set (caches d)" using foldr_max_fresh [of "map fst (caches d)"] by simp
  obtain ok d1 where l: "with_luck d = (ok, d1)" by fastforce
  consider "h = 0" "caches d' = caches d"
    | s where "h = Suc (foldr max (map fst (caches d)) 0)" "caches d' = (h, s) # caches d" "dpos_host s = 0"
  proof (cases "sint pmax \<le> 0 \<or> \<not> ok")
    case True
    then show thesis using assms l with_luck_caches [OF l] that(1) by (auto simp: gemma4_kv_open_def split: if_splits)
  next
    case False
    then have "h = Suc (foldr max (map fst (caches d)) 0) \<and> (\<exists>s. caches d' = (h, s) # caches d \<and> dpos_host s = 0)"
      using assms l with_luck_caches [OF l] by (auto simp: gemma4_kv_open_def Let_def)
    then show thesis using that(2) by blast
  qed
  then show ?thesis using fresh by cases (auto simp: g4_live_def g4_position_def)
qed

lemma close_counters:
  "g4_live (gemma4_kv_close h d) = g4_live d - {h}" "h' \<noteq> h \<Longrightarrow> g4_position (gemma4_kv_close h d) h' = g4_position d h'"
proof -
  show "g4_live (gemma4_kv_close h d) = g4_live d - {h}" by (auto simp: g4_live_def gemma4_kv_close_def)
  show "g4_position (gemma4_kv_close h d) h' = g4_position d h'" if "h' \<noteq> h"
  proof -
    have "map_of (filter (\<lambda>p. fst p \<noteq> h) ps) h' = map_of ps h'" for ps :: "(nat \<times> g4_kv) list"
      using that by (induction ps) auto
    then show ?thesis by (simp add: g4_position_def gemma4_kv_close_def)
  qed
qed

theorem g4_glue_contract: "kv_contract (g4_glue row reg) g4_live g4_position"
proof -
  have pos: "g4_position d h = dpos_host s" if "map_of (caches d) h = Some s" for d h s using that by (simp add: g4_position_def)
  have row: "length (copy_row r l) = length l" for r l by (simp add: copy_row_def)
  have step: "moves g4_live g4_position h d d' \<and> (rc = 0 \<longrightarrow> g4_position d' h = g4_position d h + 1)"
    if "h \<in> g4_live d" "on_cache h (gemma4_kv_decode_logits t) d = (rc, d')" for h t d rc d'
    by (rule on_cache_result [OF that]) (use decode_counters on_cache_moves [OF that(2)] in \<open>auto simp: pos\<close>)
  have rewind: "moves g4_live g4_position h d d' \<and> (rc = 0 \<longrightarrow> int (g4_position d' h) = int (g4_position d h) - sint n)"
    if "h \<in> g4_live d" "on_cache h (gemma4_kv_rewind n) d = (rc, d')" for h n d rc d'
    by (rule on_cache_result [OF that]) (use rewind_counters on_cache_moves [OF that(2)] in \<open>auto simp: pos\<close>)
  have replay: "moves g4_live g4_position h d d' \<and> (rc = 0 \<longrightarrow> int (g4_position d' h) = int (g4_position d h) + sint n)"
    if "h \<in> g4_live d" "on_cache h (gemma4_kv_replay n) d = (rc, d')" for h n d rc d'
    by (rule on_cache_result [OF that]) (use replay_counters on_cache_moves [OF that(2)] in \<open>auto simp: pos\<close>)
  have ablate: "moves g4_live g4_position h d d' \<and> g4_position d' h = g4_position d h"
    if "h \<in> g4_live d" "on_cache h gemma4_kv_ablate_rows d = (rc, d')" for h d rc d'
    by (rule on_cache_result [OF that]) (use on_cache_moves [OF that(2)] in \<open>auto simp: pos gemma4_kv_ablate_rows_def\<close>)
  have zero: "0 \<notin> g4_live d" for d by (simp add: g4_live_def)
  show ?thesis
    unfolding kv_contract_def
    by (intro conjI allI)
      (simp_all add: g4_glue_def zero close_counters open_counters row step rewind replay ablate split: prod.split)
qed

theorem g4_glue_cold: "cold_contract (g4_glue row reg) g4_live g4_hist"
proof -
  have zero: "0 \<notin> g4_live d" for d by (simp add: g4_live_def)
  have hist: "g4_hist d h = counted_tokens s" if "map_of (caches d) h = Some s" for d h s using that by (simp add: g4_hist_def)
  have reset: "moves g4_live g4_hist h d d' \<and> (rc = 0 \<longrightarrow> g4_hist d' h = []) \<and> (g4_hist d' h = g4_hist d h \<or> g4_hist d' h = [])"
    if "h \<in> g4_live d" "on_cache h gemma4_kv_reset_cold d = (rc, d')" for h d rc d'
    by (rule on_cache_result [OF that]) (use reset_cold_counters on_cache_moves [OF that(2)] in \<open>fastforce simp: hist\<close>)
  have prefill: "moves g4_live g4_hist h d d' \<and>
      (\<exists>m \<le> length ts. g4_hist d' h = g4_hist d h @ take m ts \<and> (rc = 0 \<longrightarrow> m = length ts))"
    if "h \<in> g4_live d" "on_cache h (gemma4_kv_prefill sync ts n) d = (rc, d')" "sint n = int (length ts)" for h sync ts n d rc d'
    by (rule on_cache_result [OF that(1,2)]) (use prefill_counters [OF _ that(3)] on_cache_moves [OF that(2)] in \<open>simp add: hist\<close>)
  show ?thesis
    unfolding cold_contract_def
    by (intro conjI allI, simp_all add: g4_glue_def zero prefill split: prod.split) (use reset in blast)
qed

text \<open>
  The answer 1 of a failed drain of the stream is a success for the wrapper of the peek, which takes every positive
  answer as the number of layers read.
\<close>

theorem peek_failure_accepted:
  assumes "map_of (caches (dev w)) h = Some s" and "h \<noteq> 0" and "l \<noteq> []" and "dpos_host s + 1 < Pmax s" and "ring_W s = 0"
    and "luck (dev w) = [True, True, True, True, False]"
  shows "fst (read_global_q (g4_glue row reg) h t l w) = Inr 1"
  using assms
  by (simp add: read_global_q_def g4_glue_def on_cache_def gemma4_kv_read_global_q_def g4_kv_step_def slide_journal_def
      store_tokens_def Let_def)

end
