(* ===== verification/Rust_Cast.thy ===== *)
theory Rust_Cast
  imports Rust_Float
begin

text \<open>
  Conversions of the standard library that several components use: \<^verbatim>\<open>f32::max\<close>, the saturating cast of a float to
  \<^verbatim>\<open>u32\<close>, and the parsers of decimal \<^verbatim>\<open>i32\<close> and \<^verbatim>\<open>u32\<close>.
\<close>

definition f32_max :: "f32 \<Rightarrow> f32 \<Rightarrow> f32" where
  "f32_max a b = (if f32_nan a then b else if f32_nan b then a else if f32_gt b a then b else a)"

definition f32_finite :: "f32 \<Rightarrow> bool" where
  "f32_finite x \<longleftrightarrow> x AND 0x7F800000 \<noteq> 0x7F800000"

definition f32_as_u32 :: "f32 \<Rightarrow> u32" where
  "f32_as_u32 x = (if f32_nan x \<or> bit x 31 then 0 else of_nat (min (2 ^ 32 - 1) (f32_mant x * 2 ^ f32_scale x div 2 ^ 149)))"

definition parse_i32 :: "ustr \<Rightarrow> i32 option" where
  "parse_i32 s0 =
     (let (neg, s) = (case s0 of c # t \<Rightarrow> if c = 45 then (True, t) else if c = 43 then (False, t) else (False, s0) | [] \<Rightarrow> (False, []))
      in if s = [] \<or> \<not> list_all (\<lambda>c. 48 \<le> c \<and> c \<le> 57) s then None
         else let v = (if neg then - int (dec_value s) else int (dec_value s))
              in if - (2 ^ 31) \<le> v \<and> v < 2 ^ 31 then Some (word_of_int v) else None)"

definition parse_u32 :: "ustr \<Rightarrow> u32 option" where
  "parse_u32 s = (case parse_usize s of Some n \<Rightarrow> if n < 2 ^ 32 then Some (of_nat n) else None | None \<Rightarrow> None)"

lemma f32_as_u32_one: "f32_as_u32 0x447A0000 = 1000"
  by (simp add: f32_as_u32_def f32_nan_def f32_mant_def f32_scale_def bit_numeral_rec Let_def drop_bit_eq_div)

end
