(* ===== verification/Nightshift.thy ===== *)
theory Nightshift
  imports G4_Cache Recall Tokenizer Rust_Cast
begin

text \<open>
  \<^verbatim>\<open>nightshift_curator.rs\<close>: the offline pass over captured episodes. It asks the model for the secret of an episode,
  measures how much the likelihood of the secret collapses when its positions are masked in the cache, and emits a record
  under the address of the stored keys for every episode whose collapse is large. Panics (a token outside of the logits
  row) are \<open>None\<close>; the directory is the list of its entries.
\<close>

record 'd night_ops = "'d vec_ops" +
  fexp :: "f32 \<Rightarrow> f32"
  fln :: "f32 \<Rightarrow> f32"

definition CURATOR_TAU :: f32 where "CURATOR_TAU = 0xC1000000"

definition lse :: "('d, 'm) night_ops_scheme \<Rightarrow> f32 list \<Rightarrow> f32" where
  "lse ops z =
     (let m = foldl f32_max NEG_INFINITY z;
          s = foldl (\<lambda>s v. fadd ops s (fexp ops (fsub ops v m))) 0 z
      in fadd ops m (fln ops s))"

definition hex16 :: "u64 \<Rightarrow> ustr" where
  "hex16 w = map (\<lambda>i. nibble (unat (drop_bit (4 * (15 - i)) w AND 15))) [0..<16]"

definition sig_hex :: "u64 list \<Rightarrow> ustr" where
  "sig_hex s = hex16 (s ! 3) @ hex16 (s ! 2) @ hex16 (s ! 1) @ hex16 (s ! 0)"

subsection \<open>The secret of an episode\<close>

definition rfind_sub :: "ustr \<Rightarrow> ustr \<Rightarrow> nat option" where
  "rfind_sub p s = map_option (\<lambda>i. length s - i - length p) (find_sub (rev p) (rev s))"

definition distill_secret :: "ustr \<Rightarrow> ustr" where
  "distill_secret text =
     (let t = trim text in
      case rfind_sub (lit ''. '') (rev (dropWhile (\<lambda>c. c = 46) (rev t))) of
        Some idx \<Rightarrow> trim (drop (idx + 2) t)
      | None \<Rightarrow> t)"

definition extract_prompt :: "ustr \<Rightarrow> ustr" where
  "extract_prompt ep_txt =
     lit ''Extract the single distinctive fact from the text. Output ONLY the fact, nothing else.'' @ [10] @
     lit ''Text: The capital of France is Paris.'' @ [10] @ lit ''Fact: Paris'' @ [10] @
     lit ''Text: The vault access code is 8-FALCON-7729 and it expires at midnight.'' @ [10] @ lit ''Fact: 8-FALCON-7729'' @ [10] @
     lit ''Text: '' @ trim ep_txt @ [10] @ lit ''Fact:''"

fun feed_all :: "'w kv_glue \<Rightarrow> nat \<Rightarrow> i32 list \<Rightarrow> f32 list \<Rightarrow> 'w kv_world \<Rightarrow> bool \<times> f32 list \<times> 'w kv_world" where
  "feed_all glue h [] l w = (True, l, w)"
| "feed_all glue h (t # ts) l w =
     (case kv_decode_step glue h t l w of
        (Inl _, l', w') \<Rightarrow> (False, l', w')
      | (Inr _, l', w') \<Rightarrow> feed_all glue h ts l' w')"

fun extract_loop ::
  "'w kv_glue \<Rightarrow> 'e sptb_tokenizer \<Rightarrow> nat \<Rightarrow> nat \<Rightarrow> i32 \<Rightarrow> f32 list \<Rightarrow> 'w kv_world \<Rightarrow> i32 list \<Rightarrow> i32 list \<times> f32 list \<times> 'w kv_world" where
  "extract_loop glue tok h 0 next l w out = (out, l, w)"
| "extract_loop glue tok h (Suc n) next l w out =
     (if next \<in> set (eos_ids tok) \<or> 10 \<in> set (from_utf8_lossy (decode_token tok next)) then (out, l, w)
      else case kv_decode_step glue h next l w of
          (Inl _, l', w') \<Rightarrow> (out @ [next], l', w')
        | (Inr _, l', w') \<Rightarrow> extract_loop glue tok h n (dialogue_argmax l') l' w' (out @ [next]))"

definition extract_secret ::
  "'w kv_glue \<Rightarrow> nat \<Rightarrow> 'e sptb_tokenizer \<Rightarrow> ustr \<Rightarrow> f32 list \<Rightarrow> 'w kv_world \<Rightarrow> ustr option \<times> f32 list \<times> 'w kv_world" where
  "extract_secret glue qm tok ep_txt l w =
     (case encode tok (extract_prompt ep_txt) of
        Inl _ \<Rightarrow> (None, l, w)
      | Inr ptoks \<Rightarrow>
          if ptoks = [] then (None, l, w)
          else case kv_open glue qm (of_nat (length ptoks) + 32) w of
              (Inl _, w1) \<Rightarrow> (None, l, w1)
            | (Inr h, w1) \<Rightarrow>
                (case feed_all glue h ptoks l w1 of
                   (False, l2, w2) \<Rightarrow> (None, l2, kv_close glue h w2)
                 | (True, l2, w2) \<Rightarrow>
                     (case extract_loop glue tok h 16 (dialogue_argmax l2) l2 w2 [] of
                        (out, l3, w3) \<Rightarrow>
                          (let s = trim (from_utf8_lossy (concat (map (decode_token tok) out)))
                           in if out = [] \<or> s = [] then None else Some s, l3, kv_close glue h w3))))"

subsection \<open>Causal ablation\<close>

text \<open>Teacher forcing: the log-likelihood of each token after the tokens before it; \<open>None\<close> is the panic of the index.\<close>

fun teacher_loop ::
  "'w kv_glue \<Rightarrow> ('d, 'm) night_ops_scheme \<Rightarrow> nat \<Rightarrow> i32 \<Rightarrow> i32 list \<Rightarrow> f32 list \<Rightarrow> 'w kv_world \<Rightarrow>
     (i32 list \<times> f32 list \<times> f32 list \<times> 'w kv_world) option" where
  "teacher_loop glue ops h t [] l w = Some ([], [], l, w)"
| "teacher_loop glue ops h t (s # ss) l w =
     (case kv_decode_step glue h t l w of
        (Inl _, l', w') \<Rightarrow> Some ([], [], l', w')
      | (Inr _, l', w') \<Rightarrow>
          if as_usize s < length l'
          then map_option (\<lambda>(gen, lp, l2, w2). (s # gen, fsub ops (l' ! as_usize s) (lse ops l') # lp, l2, w2))
                 (teacher_loop glue ops h s ss l' w')
          else None)"

definition ablate_targets :: "i32 list \<Rightarrow> i32 \<Rightarrow> i32 list \<Rightarrow> i32 list" where
  "ablate_targets eptok npos gen =
     take 12 (map of_nat (filter (\<lambda>p. eptok ! p \<in> set gen) [0..<min (length eptok) (as_usize npos)]))"

definition admit ::
  "'w kv_glue \<Rightarrow> ('d, 'm) night_ops_scheme \<Rightarrow> 'e sptb_tokenizer \<Rightarrow> nat \<Rightarrow> ustr \<Rightarrow> i32 \<Rightarrow> i32 list \<Rightarrow> ustr \<Rightarrow> f32 list \<Rightarrow>
     'w kv_world \<Rightarrow> (f32 option \<times> f32 list \<times> 'w kv_world) option" where
  "admit glue ops tok h dir npos eptok secret l w =
     (case encode tok secret of Inl _ \<Rightarrow> Some (None, l, w)
      | Inr ids0 \<Rightarrow>
          let ids = (case ids0 of t # r \<Rightarrow> if t = 2 then r else ids0 | [] \<Rightarrow> []) in
          if ids = [] \<or> eptok = [] then Some (None, l, w)
          else let anchor = kv_position glue h w in
               case kv_replay glue h dir npos False w of
                 (Inl _, w1) \<Rightarrow> Some (None, l, w1)
               | (Inr _, w1) \<Rightarrow>
                   (case teacher_loop glue ops h (last eptok) ids l w1 of None \<Rightarrow> None
                    | Some (gen, lpe, l2, w2) \<Rightarrow>
                        let w3 = snd (kv_rewind glue h (of_nat (length gen)) w2) in
                        if gen = [] then Some (None, l2, snd (kv_rewind glue h npos w3))
                        else let w4 = snd (kv_ablate glue h anchor (ablate_targets eptok npos gen) w3) in
                             case teacher_loop glue ops h (last eptok) gen l2 w4 of None \<Rightarrow> None
                             | Some (_, lpa, l5, w5) \<Rightarrow>
                                 Some (Some (foldl (\<lambda>c (a, e). fadd ops c (fsub ops a e)) 0 (zip lpa lpe)), l5,
                                   snd (kv_rewind glue h (of_nat (length lpa) + npos) w5))))"

subsection \<open>The pass\<close>

text \<open>An entry of the directory; an unreadable file is \<open>None\<close>.\<close>

record live_entry =
  le_path :: ustr
  le_is_dir :: bool
  le_txt :: "ustr option"
  le_tok :: "ustr option"

text \<open>The record handed to the store: address, directory, topic, secret.\<close>

record okf_record =
  or_addr :: ustr
  or_blob :: ustr
  or_topic :: ustr
  or_secret :: ustr

record 'w curator =
  cu_world :: "'w kv_world"
  cu_logits :: "f32 list"
  accepted :: nat
  rejected :: nat
  secrets :: "(ustr \<times> ustr) list"
  records :: "okf_record list"

definition emit_record ::
  "('d, 'm) night_ops_scheme \<Rightarrow> (ustr \<Rightarrow> bytes option) \<Rightarrow> ustr \<Rightarrow> i32 \<Rightarrow> ustr \<Rightarrow> ustr \<Rightarrow> okf_record" where
  "emit_record ops fs dir npos text secret =
     (let (gk, ng) = or_default (load_episode_global_k fs dir npos) ([], 0);
          np = (if 0 < ng then length gk div (ng * HD) else 0);
          sg = (if 0 < np then signature ops projection gk ng np else [0, 0, 0, 0])
      in \<lparr>or_addr = lit ''c2sig_'' @ sig_hex sg, or_blob = dir, or_topic = take 60 (trim text), or_secret = secret\<rparr>)"

definition curate_entry ::
  "'w kv_glue \<Rightarrow> ('d, 'm) night_ops_scheme \<Rightarrow> nat \<Rightarrow> 'e sptb_tokenizer \<Rightarrow> (ustr \<Rightarrow> bytes option) \<Rightarrow> bool \<Rightarrow> live_entry \<Rightarrow>
     'w curator \<Rightarrow> 'w curator option" where
  "curate_entry glue ops qm tok fs emit e c =
     (case (le_txt e, le_tok e) of
        (Some text, Some toks) \<Rightarrow>
          (let eptok = List.map_filter (\<lambda>l. parse_i32 (trim l)) (str_lines toks); npos = of_nat (length eptok) in
           if \<not> le_is_dir e \<or> length eptok < 4 then Some c
           else case extract_secret glue qm tok text (cu_logits c) (cu_world c) of
             (found, l1, w1) \<Rightarrow>
               let secret = or_default found (distill_secret text);
                   c1 = c\<lparr>cu_world := w1, cu_logits := l1, secrets := secrets c @ [(le_path e, secret)]\<rparr> in
               (case kv_open glue qm (npos + 64) w1 of
                  (Inl _, w2) \<Rightarrow> Some (c1\<lparr>cu_world := w2\<rparr>)
                | (Inr h, w2) \<Rightarrow>
                    (case admit glue ops tok h (le_path e) npos eptok secret l1 w2 of None \<Rightarrow> None
                     | Some (collapse, l3, w3) \<Rightarrow>
                         let c3 = c1\<lparr>cu_world := kv_close glue h w3, cu_logits := l3\<rparr> in
                         (case collapse of
                            Some v \<Rightarrow>
                              if f32_gt CURATOR_TAU v
                              then Some (c3\<lparr>accepted := accepted c + 1,
                                   records := records c @ (if emit then [emit_record ops fs (le_path e) npos text secret] else [])\<rparr>)
                              else Some (c3\<lparr>rejected := rejected c + 1\<rparr>)
                          | None \<Rightarrow> Some (c3\<lparr>rejected := rejected c + 1\<rparr>)))))
      | _ \<Rightarrow> Some c)"

fun curator_loop ::
  "'w kv_glue \<Rightarrow> ('d, 'm) night_ops_scheme \<Rightarrow> nat \<Rightarrow> 'e sptb_tokenizer \<Rightarrow> (ustr \<Rightarrow> bytes option) \<Rightarrow> bool \<Rightarrow> live_entry list \<Rightarrow>
     'w curator \<Rightarrow> 'w curator option" where
  "curator_loop glue ops qm tok fs emit [] c = Some c"
| "curator_loop glue ops qm tok fs emit (e # es) c =
     (case curate_entry glue ops qm tok fs emit e c of None \<Rightarrow> None
      | Some c' \<Rightarrow> curator_loop glue ops qm tok fs emit es c')"

definition run_kairos_curator ::
  "'w kv_glue \<Rightarrow> ('d, 'm) night_ops_scheme \<Rightarrow> nat \<Rightarrow> 'e sptb_tokenizer \<Rightarrow> nat \<Rightarrow> (ustr \<Rightarrow> bytes option) \<Rightarrow> ustr \<Rightarrow> live_entry list \<Rightarrow>
     'w kv_world \<Rightarrow> 'w curator option" where
  "run_kairos_curator glue ops qm tok n_vocab fs okf_mem ents w =
     curator_loop glue ops qm tok fs (okf_mem \<noteq> []) ents
       \<lparr>cu_world = w, cu_logits = replicate n_vocab 0, accepted = 0, rejected = 0, secrets = [], records = []\<rparr>"

subsection \<open>The cache is left as it was\<close>

lemma feed_all_live:
  assumes "kv_contract glue live pos"
  shows "h \<in> live (dev w) \<Longrightarrow> feed_all glue h ts l w = (b, l', w') \<Longrightarrow> live (dev w') = live (dev w)"
proof (induction ts arbitrary: l w)
  case (Cons t ts)
  obtain r l1 w1 where s: "kv_decode_step glue h t l w = (r, l1, w1)" by (metis prod_cases3)
  note m = moves_live [OF kv_decode_step_moves(2) [OF assms Cons.prems(1) s]]
  show ?case using Cons.prems Cons.IH [of w1 l1] s m by (auto split: sum.splits)
qed simp

lemma extract_loop_live:
  assumes "kv_contract glue live pos"
  shows "h \<in> live (dev w) \<Longrightarrow> extract_loop glue tok h n nx l w out = (out', l', w') \<Longrightarrow> live (dev w') = live (dev w)"
proof (induction n arbitrary: nx l w out)
  case (Suc n)
  obtain r l1 w1 where s: "kv_decode_step glue h nx l w = (r, l1, w1)" by (metis prod_cases3)
  note m = moves_live [OF kv_decode_step_moves(2) [OF assms Suc.prems(1) s]]
  show ?case using Suc.prems Suc.IH [of w1 "dialogue_argmax l1" l1 "out @ [nx]"] s m by (auto split: sum.splits if_splits)
qed simp

lemma extract_secret_live:
  assumes "kv_contract glue live pos" and "extract_secret glue qm tok txt l w = (found, l', w')"
  shows "live (dev w') = live (dev w)"
proof (cases "\<exists>ids. encode tok (extract_prompt txt) = Inr ids \<and> ids \<noteq> []")
  case False
  then have "w' = w" using assms(2) by (auto simp: extract_secret_def split: sum.splits if_splits)
  then show ?thesis by simp
next
  case True
  then obtain ids where ids: "encode tok (extract_prompt txt) = Inr ids" "ids \<noteq> []" by blast
  obtain r w1 where o: "kv_open glue qm (of_nat (length ids) + 32) w = (r, w1)" by fastforce
  note mo = kv_open_moves [OF assms(1) o]
  show ?thesis
  proof (cases r)
    case (Inl e)
    then show ?thesis using assms(2) ids o mo by (simp add: extract_secret_def)
  next
    case (Inr h)
    obtain b l2 w2 where f: "feed_all glue h ids l w1 = (b, l2, w2)" by (metis prod_cases3)
    obtain out l3 w3 where x: "extract_loop glue tok h 16 (dialogue_argmax l2) l2 w2 [] = (out, l3, w3)" by (metis prod_cases3)
    have l1: "h \<notin> live (dev w)" "live (dev w1) = insert h (live (dev w))" using mo Inr by auto
    then have l2: "live (dev w2) = insert h (live (dev w))" using feed_all_live [OF assms(1) _ f] by simp
    then have "live (dev w3) = insert h (live (dev w))" using extract_loop_live [OF assms(1) _ x] by simp
    moreover have "w' = kv_close glue h (if b then w3 else w2)"
      using assms(2) ids o Inr f x by (cases b) (simp_all add: extract_secret_def)
    ultimately show ?thesis using l1 l2 kv_close_moves [OF assms(1)] by (auto split: if_splits)
  qed
qed

lemma teacher_loop_moves:
  assumes "kv_contract glue live pos"
  shows "h \<in> live (dev w) \<Longrightarrow> teacher_loop glue ops h t ids l w = Some (gen, lp, l', w') \<Longrightarrow>
    moves live pos h (dev w) (dev w')"
proof (induction ids arbitrary: t l w gen lp)
  case (Cons s ss)
  obtain r l1 w1 where st: "kv_decode_step glue h t l w = (r, l1, w1)" by (metis prod_cases3)
  note m = kv_decode_step_moves(2) [OF assms Cons.prems(1) st]
  show ?case
  proof (cases r)
    case (Inl e)
    then show ?thesis using Cons.prems(2) st m by auto
  next
    case (Inr u)
    then obtain gen' lp' where g: "teacher_loop glue ops h s ss l1 w1 = Some (gen', lp', l', w')"
      using Cons.prems(2) st by (auto split: if_splits)
    show ?thesis using moves_trans [OF m Cons.IH [OF _ g]] moves_live [OF m] Cons.prems(1) by simp
  qed
qed (simp add: moves_refl)


text \<open>The runs of the ablation oracle: nothing is called, the replay fails, no token is decoded, or all of it.\<close>

definition admit_ids :: "i32 list \<Rightarrow> i32 list" where
  "admit_ids ids0 = (case ids0 of t # r \<Rightarrow> if t = 2 then r else ids0 | [] \<Rightarrow> [])"

lemma admit_cases:
  assumes "admit glue ops tok h dir npos eptok secret l w = Some (r, l', w')"
  obtains "w' = w" "r = None"
  | e where "kv_replay glue h dir npos False w = (Inl e, w')" "r = None"
  | ids w1 lpe w2 r3 w3 r4 where "encode tok secret = Inr ids" "kv_replay glue h dir npos False w = (Inr (), w1)"
      "teacher_loop glue ops h (last eptok) (admit_ids ids) l w1 = Some ([], lpe, l', w2)"
      "kv_rewind glue h 0 w2 = (r3, w3)" "kv_rewind glue h npos w3 = (r4, w')" "r = None"
  | ids w1 gen lpe l2 w2 r3 w3 r4 w4 gen5 lpa w5 r6 where "encode tok secret = Inr ids" "kv_replay glue h dir npos False w = (Inr (), w1)"
      "teacher_loop glue ops h (last eptok) (admit_ids ids) l w1 = Some (gen, lpe, l2, w2)" "gen \<noteq> []"
      "kv_rewind glue h (of_nat (length gen)) w2 = (r3, w3)"
      "kv_ablate glue h (kv_position glue h w) (ablate_targets eptok npos gen) w3 = (r4, w4)"
      "teacher_loop glue ops h (last eptok) gen l2 w4 = Some (gen5, lpa, l', w5)"
      "kv_rewind glue h (of_nat (length lpa) + npos) w5 = (r6, w')"
proof (cases "\<exists>ids. encode tok secret = Inr ids \<and> admit_ids ids \<noteq> [] \<and> eptok \<noteq> []")
  case False
  have "w' = w \<and> r = None"
    using assms False by (auto simp: admit_def admit_ids_def Let_def split: sum.splits list.splits if_splits)
  then show thesis using that(1) by blast
next
  case True
  then obtain ids where ids: "encode tok secret = Inr ids" "admit_ids ids \<noteq> []" "eptok \<noteq> []" by blast
  note run = assms [unfolded admit_def ids(1) sum.case Let_def admit_ids_def [symmetric]]
  obtain r1 w1 where rp: "kv_replay glue h dir npos False w = (r1, w1)" by fastforce
  show thesis
  proof (cases r1)
    case (Inl e)
    then show thesis using run ids rp that(2) by simp
  next
    case (Inr u)
    obtain gen lpe l2 w2 where t1: "teacher_loop glue ops h (last eptok) (admit_ids ids) l w1 = Some (gen, lpe, l2, w2)"
      using run ids rp Inr by (auto split: option.splits)
    obtain r3 w3 where r3: "kv_rewind glue h (of_nat (length gen)) w2 = (r3, w3)" by fastforce
    show thesis
    proof (cases "gen = []")
      case True
      obtain r4 w4 where r4: "kv_rewind glue h npos w3 = (r4, w4)" by fastforce
      have "w' = w4" "l' = l2" "r = None" using run ids rp Inr t1 r3 r4 True by simp_all
      then show thesis using that(3) ids rp Inr t1 r3 r4 True by simp
    next
      case False
      obtain r4 w4 where r4: "kv_ablate glue h (kv_position glue h w) (ablate_targets eptok npos gen) w3 = (r4, w4)" by fastforce
      obtain gen5 lpa l5 w5 where t5: "teacher_loop glue ops h (last eptok) gen l2 w4 = Some (gen5, lpa, l5, w5)"
        using run ids rp Inr t1 r3 r4 False by (auto split: option.splits)
      obtain r6 w6 where r6: "kv_rewind glue h (of_nat (length lpa) + npos) w5 = (r6, w6)" by fastforce
      have "w' = w6" "l' = l5" using run ids rp Inr t1 r3 r4 False t5 r6 by simp_all
      then show thesis using that(4) ids rp Inr t1 r3 r4 False t5 r6 by simp
    qed
  qed
qed

lemma admit_moves:
  assumes "kv_contract glue live pos" and "h \<in> live (dev w)" and "admit glue ops tok h dir npos eptok secret l w = Some (r, l', w')"
  shows "moves live pos h (dev w) (dev w')"
proof -
  have stay: "h \<in> live (dev v')" if "moves live pos h (dev v) (dev v')" "h \<in> live (dev v)" for v v'
    using that by (simp add: moves_def)
  note replay = kv_replay_moves(1) [OF assms(1)] and teach = teacher_loop_moves [OF assms(1)]
    and rewind = kv_rewind_moves(1) [OF assms(1)] and ablate = kv_ablate_moves(1) [OF assms(1)]
  from assms(3) show ?thesis
  proof (cases rule: admit_cases)
    case 1
    then show ?thesis by (simp add: moves_refl)
  next
    case (2 e)
    then show ?thesis using replay [OF assms(2)] by blast
  next
    case (3 ids w1 lpe w2 r3 w3 r4)
    note m1 = replay [OF assms(2) 3(2)]
    note m2 = teach [OF stay [OF m1 assms(2)] 3(3)]
    note m3 = rewind [OF stay [OF m2 stay [OF m1 assms(2)]] 3(4)]
    note m4 = rewind [OF stay [OF m3 stay [OF m2 stay [OF m1 assms(2)]]] 3(5)]
    show ?thesis by (rule moves_trans [OF moves_trans [OF moves_trans [OF m1 m2] m3] m4])
  next
    case (4 ids w1 gen lpe l2 w2 r3 w3 r4 w4 gen5 lpa w5 r6)
    note m1 = replay [OF assms(2) 4(2)]
    note s1 = stay [OF m1 assms(2)]
    note m2 = teach [OF s1 4(3)]
    note s2 = stay [OF m2 s1]
    note m3 = rewind [OF s2 4(5)]
    note s3 = stay [OF m3 s2]
    note m4 = ablate [OF s3 4(6)]
    note s4 = stay [OF m4 s3]
    note m5 = teach [OF s4 4(7)]
    note m6 = rewind [OF stay [OF m5 s4] 4(8)]
    show ?thesis by (rule moves_trans [OF moves_trans [OF moves_trans [OF moves_trans [OF moves_trans [OF m1 m2] m3] m4] m5] m6])
  qed
qed

subsection \<open>The position after the oracle\<close>

text \<open>
  An observer of the library: it passes every call on and writes down, for the calls that may move the position of the
  handle, the status and the move it saw. The drift of a call is the move beyond what its caller counts for it: one
  position for a successful decode, the positions of a successful replay, minus the positions asked for by a rewind
  (the curator ignores the result of a rewind), nothing for a failed decode or replay.
\<close>

datatype kv_event = EvStep (ev_status: i32) int | EvRewind int (ev_status: i32) int | EvReplay int (ev_status: i32) int | EvAblate (ev_status: i32) int


type_synonym 'w logged = "'w \<times> kv_event list"





definition unlogged :: "'w logged kv_world \<Rightarrow> 'w kv_world" where
  "unlogged w = \<lparr>dev = fst (dev w), steps = steps w\<rparr>"

definition logged :: "kv_event list \<Rightarrow> 'w kv_world \<Rightarrow> 'w logged kv_world" where
  "logged es w = \<lparr>dev = (dev w, es), steps = steps w\<rparr>"

lemma unlogged_logged [simp]: "unlogged (logged es w) = w"
  by (simp add: unlogged_def logged_def)

lemma unlogged_simps [simp]:
  "dev (unlogged w) = fst (dev w)" "steps (unlogged w) = steps w"
  "unlogged (w\<lparr>dev := d\<rparr>) = (unlogged w)\<lparr>dev := fst d\<rparr>" "unlogged (w\<lparr>steps := n\<rparr>) = (unlogged w)\<lparr>steps := n\<rparr>"
  "unlogged (w\<lparr>dev := d, steps := n\<rparr>) = (unlogged w)\<lparr>dev := fst d, steps := n\<rparr>"
  by (simp_all add: unlogged_def logged_def)
















text \<open>A tokenizer that encodes everything as the tokens 2, 1, 1 (a first token 2 is dropped).\<close>

definition fixed_tok :: "i32 list \<Rightarrow> unit sptb_tokenizer" where
  "fixed_tok ids = \<lparr>inner = Some (\<lambda>_. Inr ids), c_tokenizer = None, id_to_bytes = [], eos_ids = [],
     arch_id = ARCH_QWEN3, tok_type_id = 0, bos_id = None, config_suppress = []\<rparr>"

definition night_zero :: "unit night_ops" where
  "night_zero = \<lparr>fsub = (\<lambda>x y. 0), fmul = (\<lambda>x y. 0), fdiv = (\<lambda>x y. 0), widen = (\<lambda>x. ()), dexp = id, dadd = (\<lambda>x y. ()),
     dmul = (\<lambda>x y. ()), ddiv = (\<lambda>x y. ()), dzero = (), done1 = (), dlt = (\<lambda>x y. False), dle = (\<lambda>x y. True), dfinite = (\<lambda>x. True),
     unit_of = (\<lambda>x. ()), dsqrt = id, dln = id, narrow = (\<lambda>x. 0), of_count = (\<lambda>x. ()), of_sign = (\<lambda>x. ()), fadd = (\<lambda>x y. 0),
     fexp = id, fln = id\<rparr>"

text \<open>A cache at position 5, without and with the ring; the journal of the ring holds 5 positions.\<close>

definition night_cache :: "nat \<Rightarrow> g4_dev kv_world" where
  "night_cache ring = \<lparr>dev = \<lparr>env_ring_W = 0, env_Jmax = 5, env_fit = None, sync_every = 128,
     caches = [(1, \<lparr>Pmax = 100, dpos_host = 5, dseq = (\<lambda>_. 0), ring_W = ring, Jmax = 5, commit_pos = 5, jcur = 0\<rparr>)], luck = []\<rparr>, steps = 0\<rparr>"

abbreviation night_lib :: "g4_dev kv_glue" where
  "night_lib \<equiv> g4_glue (\<lambda>_. []) (\<lambda>_ _. 0)"



subsection \<open>The pass as a whole\<close>

text \<open>What holds after every entry: no handle is left open, and every entry is counted at most once.\<close>

definition curator_ok :: "('w \<Rightarrow> nat set) \<Rightarrow> nat set \<Rightarrow> nat \<Rightarrow> 'w curator \<Rightarrow> bool" where
  "curator_ok live base n c \<longleftrightarrow> live (dev (cu_world c)) = base \<and> accepted c + rejected c \<le> length (secrets c) \<and>
     length (secrets c) \<le> n \<and> length (records c) \<le> accepted c"

lemma admit_live:
  assumes "kv_contract glue live pos" and "h \<in> live (dev w)" and "admit glue ops tok h dir npos eptok secret l w = Some (r, l', w')"
  shows "live (dev w') = live (dev w)"
  by (rule moves_live [OF admit_moves [OF assms]])

lemma curate_entry_ok:
  assumes "kv_contract glue live pos" and "curator_ok live base n c" and "curate_entry glue ops qm tok fs emit e c = Some c'"
  shows "curator_ok live base (Suc n) c'"
proof (cases "\<exists>text toks. le_txt e = Some text \<and> le_tok e = Some toks \<and> le_is_dir e \<and>
    4 \<le> length (List.map_filter (\<lambda>l. parse_i32 (trim l)) (str_lines toks))")
  case False
  then have "c' = c" using assms(3) by (auto simp: curate_entry_def Let_def not_le split: option.splits if_splits)
  then show ?thesis using assms(2) by (auto simp: curator_ok_def)
next
  case True
  then obtain tx toks where f: "le_txt e = Some tx" "le_tok e = Some toks" "le_is_dir e"
    "4 \<le> length (List.map_filter (\<lambda>l. parse_i32 (trim l)) (str_lines toks))" by blast
  let ?eptok = "List.map_filter (\<lambda>l. parse_i32 (trim l)) (str_lines toks)"
  let ?np = "of_nat (length ?eptok) :: i32"
  obtain found l1 w1 where x: "extract_secret glue qm tok tx (cu_logits c) (cu_world c) = (found, l1, w1)" by (metis prod_cases3)
  have m1: "live (dev w1) = base" using extract_secret_live [OF assms(1) x] assms(2) by (simp add: curator_ok_def)
  obtain r w2 where o: "kv_open glue qm (?np + 64) w1 = (r, w2)" by fastforce
  note mo = kv_open_moves [OF assms(1) o]
  note base = assms(2) [unfolded curator_ok_def]
  note run = assms(3) [unfolded curate_entry_def f option.case prod.case Let_def x]
  show ?thesis
  proof (cases r)
    case (Inl err)
    then show ?thesis using run f o mo m1 base by (auto simp: curator_ok_def)
  next
    case (Inr h)
    have h: "h \<in> live (dev w2)" "live (dev w2) - {h} = base" using mo Inr m1 by auto
    let ?secret = "or_default found (distill_secret tx)"
    obtain v l3 w3 where a: "admit glue ops tok h (le_path e) ?np ?eptok ?secret l1 w2 = Some (v, l3, w3)"
      using run f o Inr by (auto split: option.splits)
    have "live (dev (kv_close glue h w3)) = base" using admit_live [OF assms(1) h(1) a] h(2) kv_close_moves [OF assms(1)] by simp
    moreover have "cu_world c' = kv_close glue h w3 \<and> length (secrets c') = Suc (length (secrets c)) \<and>
      (accepted c' = Suc (accepted c) \<and> rejected c' = rejected c \<and> length (records c') \<le> Suc (length (records c)) \<or>
       accepted c' = accepted c \<and> rejected c' = Suc (rejected c) \<and> records c' = records c)"
    proof (cases "\<exists>x. v = Some x \<and> f32_gt CURATOR_TAU x")
      case True
      then obtain x where v: "v = Some x" "f32_gt CURATOR_TAU x" by blast
      have "\<not> length ?eptok < 4" using f(4) by simp
      then show ?thesis using run unfolding Inr sum.case o prod.case a option.case v(1) if_P [OF v(2)] by (auto simp: f(3))
    next
      case False
      then have "c' = c\<lparr>secrets := secrets c @ [(le_path e, ?secret)], cu_world := kv_close glue h w3, cu_logits := l3,
          rejected := Suc (rejected c)\<rparr>"
        using run a f o Inr by (cases v) simp_all
      then show ?thesis by simp
    qed
    ultimately show ?thesis using base by (elim conjE disjE) (simp_all add: curator_ok_def)
  qed
qed

lemma curator_loop_ok:
  assumes "kv_contract glue live pos"
  shows "curator_ok live base n c \<Longrightarrow> curator_loop glue ops qm tok fs emit es c = Some c' \<Longrightarrow> curator_ok live base (n + length es) c'"
proof (induction es arbitrary: n c)
  case (Cons e es)
  then obtain c1 where c1: "curate_entry glue ops qm tok fs emit e c = Some c1" "curator_loop glue ops qm tok fs emit es c1 = Some c'"
    by (auto split: option.splits)
  show ?case using Cons.IH [OF curate_entry_ok [OF assms Cons.prems(1) c1(1)] c1(2)] by simp
qed simp

text \<open>Instances: a tokenizer that refuses long texts, and arithmetic under which the masked likelihood is far below.\<close>

definition short_tok :: "unit sptb_tokenizer" where
  "short_tok = fixed_tok [] \<lparr>inner := Some (\<lambda>s. if length s < 10 then Inr [2, 1, 1] else Inl ())\<rparr>"

definition night_drop :: "unit night_ops" where
  "night_drop = night_zero\<lparr>fsub := (\<lambda>x y. 0xC2000000), fadd := (\<lambda>x y. y)\<rparr>"

lemma tape_tokens: "List.map_filter (\<lambda>l. parse_i32 (trim l)) (str_lines [48, 10, 49, 10, 48, 10, 49]) = [0, 1, 0, 1]"
  by (simp add: str_lines_def strip_cr_def trim_def trim_start_def trim_end_def is_ws_def parse_i32_def dec_value_def map_filter_simps Let_def)

text \<open>
  C22. A pass over a directory closes every cache it opened, on all error paths, and its books balance: an entry is accepted
  or rejected at most once and only after its secret was written, and there are no more records than accepted entries.
\<close>

theorem curator_closes_and_counts:
  assumes "kv_contract glue live pos" and "run_kairos_curator glue ops qm tok n fs okf_mem ents w = Some c"
  shows "live (dev (cu_world c)) = live (dev w) \<and> accepted c + rejected c \<le> length (secrets c) \<and>
    length (secrets c) \<le> length ents \<and> length (records c) \<le> accepted c"
proof -
  have "curator_ok live (live (dev w)) (0 + length ents) c"
    by (rule curator_loop_ok [OF assms(1) _ assms(2) [unfolded run_kairos_curator_def]]) (simp add: curator_ok_def)
  then show ?thesis by (simp add: curator_ok_def)
qed

text \<open>
  A pass that works: the extraction opens a cache, feeds three tokens, decodes sixteen and closes it; the oracle opens
  another one, accepts the entry and closes it.
\<close>

definition night_mid :: "nat \<Rightarrow> g4_dev kv_world \<Rightarrow> bool" where
  "night_mid k w \<longleftrightarrow> (\<exists>s. w = \<lparr>dev = (dev (night_cache 0))\<lparr>caches := (2, s) # caches (dev (night_cache 0))\<rparr>, steps = of_nat k\<rparr> \<and>
     ring_W s = 0 \<and> Pmax s = 35 \<and> dpos_host s = k)"

lemma night_step:
  assumes "night_mid k w" and "k < 34"
  shows "\<exists>w'. kv_decode_step night_lib 2 t [0, 0] w = (Inr (), [0, 0], w') \<and> night_mid (Suc k) w'"
  using assms
  by (auto simp: night_mid_def night_cache_def kv_decode_step_def g4_glue_def on_cache_def gemma4_kv_decode_logits_def g4_kv_step_def
      slide_journal_def store_tokens_def copy_row_def Let_def add.commute)

lemma night_feed:
  "night_mid k w \<Longrightarrow> k + length ts \<le> 34 \<Longrightarrow>
     \<exists>w'. feed_all night_lib 2 ts [0, 0] w = (True, [0, 0], w') \<and> night_mid (k + length ts) w'"
proof (induction ts arbitrary: k w)
  case (Cons t ts)
  obtain w1 where w1: "kv_decode_step night_lib 2 t [0, 0] w = (Inr (), [0, 0], w1)" "night_mid (Suc k) w1"
    using night_step [OF Cons.prems(1), of t] Cons.prems(2) by auto
  show ?case using Cons.IH [OF w1(2)] w1(1) Cons.prems(2) by simp
qed auto

lemma night_loop:
  "night_mid k w \<Longrightarrow> k + n \<le> 34 \<Longrightarrow>
     \<exists>w'. extract_loop night_lib (fixed_tok ids) 2 n 0 [0, 0] w out = (out @ replicate n 0, [0, 0], w') \<and> night_mid (k + n) w'"
proof (induction n arbitrary: k w out)
  case (Suc n)
  obtain w1 where w1: "kv_decode_step night_lib 2 0 [0, 0] w = (Inr (), [0, 0], w1)" "night_mid (Suc k) w1"
    using night_step [OF Suc.prems(1), of 0] Suc.prems(2) by auto
  have m: "dialogue_argmax [0, 0] = 0" by code_simp
  have d: "decode_token (fixed_tok ids) 0 = []" "eos_ids (fixed_tok ids) = []"
    by (simp_all add: decode_token_def fixed_tok_def)
  have e: "from_utf8_lossy [] = []" by code_simp
  show ?case using Suc.IH [OF w1(2), of "out @ [0]"] w1(1) Suc.prems(2) by (simp add: m d e replicate_append_same [symmetric])
qed simp

lemma night_extract:
  "extract_secret night_lib 7 (fixed_tok [2, 1, 1]) [66] [0, 0] (night_cache 0) = (None, [0, 0], (night_cache 0)\<lparr>steps := 19\<rparr>)"
proof -
  obtain w1 where o: "kv_open night_lib 7 35 (night_cache 0) = (Inr 2, w1)" "night_mid 0 w1"
    by (simp add: kv_open_def g4_glue_def gemma4_kv_open_def night_cache_def with_luck_def night_mid_def Let_def)
  obtain w2 where f: "feed_all night_lib 2 [2, 1, 1] [0, 0] w1 = (True, [0, 0], w2)" "night_mid 3 w2"
    using night_feed [OF o(2), of "[2, 1, 1]"] by (auto simp: eval_nat_numeral simp del: feed_all.simps)
  obtain w3 where x: "extract_loop night_lib (fixed_tok [2, 1, 1]) 2 16 0 [0, 0] w2 [] = (replicate 16 0, [0, 0], w3)" "night_mid 19 w3"
    using night_loop [OF f(2), of 16 "[2, 1, 1]" "[]"] by auto
  have e: "encode (fixed_tok [2, 1, 1]) tx = Inr [2, 1, 1]" for tx by (simp add: encode_def fixed_tok_def)
  have m: "dialogue_argmax [0, 0] = 0" by code_simp
  have d: "decode_token (fixed_tok [2, 1, 1]) 0 = []" "concat (replicate 16 ([] :: bytes)) = []"
    by (simp_all add: decode_token_def fixed_tok_def)
  have s: "trim (from_utf8_lossy []) = []" by code_simp
  have c: "kv_close night_lib 2 w3 = (night_cache 0)\<lparr>steps := 19\<rparr>"
    using x(2) by (auto simp: night_mid_def kv_close_def g4_glue_def gemma4_kv_close_def night_cache_def)
  show ?thesis unfolding extract_secret_def e sum.case using o(1) f(1) x(1) by (simp add: m d s c Let_def)
qed

lemma night_admit:
  assumes "s = \<lparr>Pmax = 68, dpos_host = 0, dseq = (\<lambda>_. 0), ring_W = 0, Jmax = 5, commit_pos = 0, jcur = 0\<rparr>"
  shows "\<exists>l' w'. admit night_lib night_drop (fixed_tok [2, 1, 1]) 2 [65] 4 [0, 1, 0, 1] [66] [0, 0]
    \<lparr>dev = (dev (night_cache 0))\<lparr>caches := (2, s) # caches (dev (night_cache 0))\<rparr>, steps = 19\<rparr> = Some (Some 0xC2000000, l', w')"
proof -
  have enc: "encode (fixed_tok [2, 1, 1]) [66] = Inr [2, 1, 1]" by (simp add: encode_def fixed_tok_def)
  show ?thesis
    by (simp add: assms admit_def enc night_cache_def kv_replay_def kv_call_def c_string_def g4_glue_def on_cache_def kv_decode_step_def
        kv_rewind_def kv_ablate_def gemma4_kv_replay_def gemma4_kv_decode_logits_def
        gemma4_kv_rewind_def gemma4_kv_ablate_rows_def g4_kv_step_def slide_journal_def store_tokens_def copy_row_def
        as_usize_def night_drop_def night_zero_def lse_def Let_def)
qed

theorem curator_closes_and_counts_witness:
  "\<exists>c. run_kairos_curator night_lib night_drop 7 (fixed_tok [2, 1, 1]) 2 (\<lambda>_. None) [65]
      [\<lparr>le_path = [65], le_is_dir = True, le_txt = Some [66], le_tok = Some [48, 10, 49, 10, 48, 10, 49]\<rparr>] (night_cache 0) = Some c \<and>
     accepted c = 1 \<and> length (secrets c) = 1 \<and> length (records c) = 1 \<and> g4_live (dev (cu_world c)) = {1}"
proof -
  let ?s = "\<lparr>Pmax = 68, dpos_host = 0, dseq = (\<lambda>_. 0), ring_W = 0, Jmax = 5, commit_pos = 0, jcur = 0\<rparr> :: g4_kv"
  let ?w = "\<lparr>dev = (dev (night_cache 0))\<lparr>caches := (2, ?s) # caches (dev (night_cache 0))\<rparr>, steps = 19\<rparr>"
  have o: "kv_open night_lib 7 68 ((night_cache 0)\<lparr>steps := 19\<rparr>) = (Inr 2, ?w)"
    by (simp add: kv_open_def g4_glue_def gemma4_kv_open_def night_cache_def with_luck_def Let_def)
  obtain l' w' where a: "admit night_lib night_drop (fixed_tok [2, 1, 1]) 2 [65] 4 [0, 1, 0, 1] [66] [0, 0] ?w = Some (Some 0xC2000000, l', w')"
    using night_admit [of ?s] by blast
  have d: "distill_secret [66] = [66]" and tau: "f32_gt CURATOR_TAU 0xC2000000" by code_simp+
  have rp: "replicate 2 (0 :: f32) = [0, 0]" by (simp add: numeral_2_eq_2)
  obtain c where c: "run_kairos_curator night_lib night_drop 7 (fixed_tok [2, 1, 1]) 2 (\<lambda>_. None) [65]
      [\<lparr>le_path = [65], le_is_dir = True, le_txt = Some [66], le_tok = Some [48, 10, 49, 10, 48, 10, 49]\<rparr>] (night_cache 0) = Some c"
    "accepted c = 1" "length (secrets c) = 1" "length (records c) = 1"
    by (simp add: run_kairos_curator_def curate_entry_def tape_tokens night_extract d o a tau Let_def rp or_default_def del: One_nat_def)
  have "g4_live (dev (night_cache 0)) = {1}" by (simp add: g4_live_def night_cache_def)
  then show ?thesis using curator_closes_and_counts [OF g4_glue_contract c(1)] c by auto
qed

subsection \<open>The address of a record\<close>


lemma nth_hex16: "k < 16 \<Longrightarrow> hex16 w ! k = nibble (unat (drop_bit (4 * (15 - k)) w AND 15))"
  by (simp add: hex16_def)

lemma nibble_small: "unat (w AND 15 :: u64) < 16"
  using word_and_le1 [of w 15] by (simp add: word_le_nat_alt)

lemma nth_sig_hex:
  assumes "k < 64"
  shows "sig_hex s ! k = nibble (unat (drop_bit (4 * (15 - k mod 16)) (s ! (3 - k div 16)) AND 15))"
proof -
  have l: "length (hex16 w) = 16" for w by (simp add: hex16_def)
  consider "k < 16" | "16 \<le> k" "k < 32" | "32 \<le> k" "k < 48" | "48 \<le> k" "k < 64" using assms by linarith
  then show ?thesis
  proof cases
    case 1
    then show ?thesis by (simp add: sig_hex_def nth_append l nth_hex16)
  next
    case 2
    then have d: "k div 16 = 1" by (intro div_nat_eqI) simp_all
    then have "k mod 16 = k - 16" "k - 16 < 16" using minus_div_mult_eq_mod [of k 16] 2 by simp_all
    then show ?thesis using d 2 by (simp add: sig_hex_def nth_append l nth_hex16)
  next
    case 3
    then have d: "k div 16 = 2" by (intro div_nat_eqI) simp_all
    then have "k mod 16 = k - 32" "\<not> k - 16 < 16" "k - 32 < 16" using minus_div_mult_eq_mod [of k 16] 3 by simp_all
    then show ?thesis using d 3 by (simp add: sig_hex_def nth_append l nth_hex16)
  next
    case 4
    then have d: "k div 16 = 3" by (intro div_nat_eqI) simp_all
    then have "k mod 16 = k - 48" "\<not> k - 16 < 16" "\<not> k - 32 < 16" "k - 48 < 16" using minus_div_mult_eq_mod [of k 16] 4 by simp_all
    then show ?thesis using d 4 by (simp add: sig_hex_def nth_append l nth_hex16)
  qed
qed

lemma digit_position:
  assumes "i < 256"
  shows "3 - (63 - i div 4) div 16 = i div 64" "4 * (15 - (63 - i div 4) mod 16) + i mod 4 = i mod (64 :: nat)"
proof -
  define a b where "a = i div 4 div 16" and "b = i div 4 mod 16"
  have q: "i div 4 = 16 * a + b" "b < 16" "a < 4" using assms by (simp_all add: a_def b_def less_mult_imp_div_less)
  define c where "c = 3 - a"
  have c: "a + c = 3" using q(3) by (simp add: c_def)
  then have s: "63 - i div 4 = 16 * c + (15 - b)" using q by linarith
  then have "(63 - i div 4) div 16 = c" unfolding s by simp
  then have d: "(63 - i div 4) div 16 = 3 - a" by (simp add: c_def)
  then have "(63 - i div 4) mod 16 = 15 - b" unfolding s by simp
  moreover have "i div 64 = a" "i mod 64 = 4 * b + i mod 4"
    using div_mult2_eq [of i 4 16] mod_mult2_eq [of i 4 16] by (simp_all add: a_def b_def)
  ultimately show "3 - (63 - i div 4) div 16 = i div 64" "4 * (15 - (63 - i div 4) mod 16) + i mod 4 = i mod 64"
    using d q by simp_all
qed

lemma sig_hex_text:
  shows "length (sig_hex s) = 64" and "utf8 (sig_hex s) = map of_nat (sig_hex s)"
    and "k < 64 \<Longrightarrow> unat (utf8 (sig_hex s) ! k) = sig_hex s ! k"
    and "k < 64 \<Longrightarrow> unnibble (sig_hex s ! k) = Some (unat (drop_bit (4 * (15 - k mod 16)) (s ! (3 - k div 16)) AND 15))"
proof -
  show len: "length (sig_hex s) = 64" by (simp add: sig_hex_def hex16_def)
  have dig: "unnibble (sig_hex s ! k) = Some (unat (drop_bit (4 * (15 - k mod 16)) (s ! (3 - k div 16)) AND 15))"
    "sig_hex s ! k < 128" if "k < 64" for k
    using nth_sig_hex [OF that, of s] nibble_props [OF nibble_small [of "drop_bit (4 * (15 - k mod 16)) (s ! (3 - k div 16))"]]
    by (auto simp: hex_digit_def)
  show u: "utf8 (sig_hex s) = map of_nat (sig_hex s)"
    by (rule utf8_ascii) (use dig(2) len in \<open>auto simp: ascii_def list_all_length\<close>)
  show "unat (utf8 (sig_hex s) ! k) = sig_hex s ! k" if "k < 64"
    using that len dig(2) [OF that] by (simp add: u unat_of_nat take_bit_nat_eq_self)
  show "unnibble (sig_hex s ! k) = Some (unat (drop_bit (4 * (15 - k mod 16)) (s ! (3 - k div 16)) AND 15))" if "k < 64"
    by (rule dig(1) [OF that])
qed

lemma sig_hex_digits: "\<forall>c \<in> set (utf8 (sig_hex s)). unnibble (unat c) \<noteq> None"
proof
  fix c
  assume "c \<in> set (utf8 (sig_hex s))"
  then obtain k where "k < 64" "c = utf8 (sig_hex s) ! k" by (auto simp: in_set_conv_nth sig_hex_text(1,2))
  then show "unnibble (unat c) \<noteq> None" using sig_hex_text(3,4) by simp
qed

text \<open>
  The hexadecimal address of a signature is read back as the signature by the reader of the store.
\<close>

theorem address_parse_roundtrip:
  assumes "length s = 4"
  shows "parse_sig_hex (sig_hex s) = Some s"
proof -
  have "bit (s ! (i div 64)) (i mod 64) \<longleftrightarrow> bit (the (unnibble (unat (utf8 (sig_hex s) ! (63 - i div 4))))) (i mod 4)" if i: "i < 256" for i
  proof -
    let ?k = "63 - i div 4"
    note k = le_less_trans [OF diff_le_self [of 63 "i div 4"], of 64, simplified] digit_position [OF i]
    have "i mod 4 = 0 \<or> i mod 4 = 1 \<or> i mod 4 = 2 \<or> i mod 4 = 3" by auto
    then have "bit (15 :: u64) (i mod 4)" by (elim disjE) simp_all
    then have "bit (unat (drop_bit (4 * (15 - ?k mod 16)) (s ! (i div 64)) AND 15 :: u64)) (i mod 4) = bit (s ! (i div 64)) (i mod 64)"
      using k(3) by (simp add: bit_unsigned_iff bit_and_iff bit_drop_bit_eq)
    then show ?thesis using sig_hex_text(3,4) [OF k(1)] k(2) by simp
  qed
  then show ?thesis using assms sig_hex_digits [of s] sig_hex_text(1,2) [of s] by (subst parse_sig_exact) simp
qed

theorem address_parse_roundtrip_witness: "parse_sig_hex (sig_hex [1, 2, 3, 0xABCDEF0123456789]) = Some [1, 2, 3, 0xABCDEF0123456789]"
  using address_parse_roundtrip [of "[1, 2, 3, 0xABCDEF0123456789]"] by simp

subsection \<open>The emitted records\<close>

definition record_typed :: "(ustr \<times> ustr) list \<Rightarrow> okf_record \<Rightarrow> bool" where
  "record_typed written r \<longleftrightarrow> (\<exists>h. or_addr r = lit ''c2sig_'' @ h \<and> parse_sig_hex h \<noteq> None) \<and>
     length (or_topic r) \<le> 60 \<and> (or_blob r, or_secret r) \<in> set written"

lemma curate_entry_effect:
  assumes "curate_entry glue ops qm tok fs emit e c = Some c'"
  shows "secrets c' = secrets c \<and> records c' = records c \<or>
    (\<exists>secret text npos. secrets c' = secrets c @ [(le_path e, secret)] \<and>
       (records c' = records c \<or> records c' = records c @ [emit_record ops fs (le_path e) npos text secret]))"
  using assms unfolding curate_entry_def Let_def
  by (auto split: option.splits prod.splits sum.splits if_splits) blast+

lemma sig_hex_parses: "parse_sig_hex (sig_hex s) \<noteq> None"
  using hex_loop_total [OF sig_hex_digits] sig_hex_text(1,2) by (simp add: parse_sig_hex_def blen_def R_BITS_def)

lemma emit_record_typed: "record_typed [(d, s)] (emit_record ops fs d npos text s)"
  using sig_hex_parses by (auto simp: record_typed_def emit_record_def Let_def split: prod.split)

lemma record_typed_mono: "record_typed ws r \<Longrightarrow> set ws \<subseteq> set vs \<Longrightarrow> record_typed vs r"
  by (auto simp: record_typed_def)

lemma curator_loop_typed:
  assumes "\<forall>r \<in> set (records c). record_typed (secrets c) r" and "curator_loop glue ops qm tok fs emit es c = Some c'"
  shows "\<forall>r \<in> set (records c'). record_typed (secrets c') r"
  using assms
proof (induction es arbitrary: c)
  case (Cons e es)
  then obtain c1 where c1: "curate_entry glue ops qm tok fs emit e c = Some c1" "curator_loop glue ops qm tok fs emit es c1 = Some c'"
    by (auto split: option.splits)
  have "\<forall>r \<in> set (records c1). record_typed (secrets c1) r"
    using curate_entry_effect [OF c1(1)] Cons.prems(1)
    by (elim disjE exE conjE) (auto intro: record_typed_mono [OF emit_record_typed] record_typed_mono)
  then show ?case using Cons.IH c1(2) by blast
qed simp

text \<open>
  C20. Every record handed to the store is well-typed: its address is the prefix and a signature that the reader of the
  store accepts, its topic has at most 60 characters, and its secret is the one written into the directory it names.
\<close>

theorem curator_records_typed:
  assumes "run_kairos_curator glue ops qm tok n fs okf_mem ents w = Some c"
  shows "list_all (record_typed (secrets c)) (records c)"
  unfolding list_all_iff
  by (rule curator_loop_typed [OF _ assms [unfolded run_kairos_curator_def]]) simp

theorem curator_records_typed_witness:
  "\<exists>c. run_kairos_curator ref_glue night_drop 7 short_tok 2 (\<lambda>_. None) [65]
      [\<lparr>le_path = [65], le_is_dir = True, le_txt = Some [66], le_tok = Some [48, 10, 49, 10, 48, 10, 49]\<rparr>] \<lparr>dev = [(1, 5)], steps = 0\<rparr> = Some c \<and>
     length (records c) = 1 \<and> list_all (record_typed (secrets c)) (records c)"
proof -
  have x: "extract_secret ref_glue 7 short_tok [66] l w = (None, l, w)" for l w
    by (simp add: extract_secret_def extract_prompt_def lit_def encode_def short_tok_def fixed_tok_def)
  have d: "distill_secret [66] = [66]" by code_simp
  have e: "encode short_tok [66] = Inr [2, 1, 1]" by (simp add: encode_def short_tok_def fixed_tok_def)
  have tau: "f32_gt CURATOR_TAU 0xC2000000" by code_simp
  let ?w = "\<lparr>dev = [(2, 0), (1, 5)], steps = 0\<rparr> :: (nat \<times> nat) list kv_world"
  have o: "kv_open ref_glue 7 68 \<lparr>dev = [(1, 5)], steps = 0\<rparr> = (Inr 2, ?w)" by (simp add: kv_open_def ref_glue_def Let_def)
  have "\<exists>l' w'. admit ref_glue night_drop short_tok 2 [65] 4 [0, 1, 0, 1] [66] [0, 0] ?w = Some (Some 0xC2000000, l', w')"
    by (simp add: admit_def e kv_replay_def kv_call_def c_string_def ref_glue_def ref_pos_def kv_decode_step_def kv_rewind_def
        kv_ablate_def as_usize_def night_drop_def night_zero_def lse_def Let_def)
  then obtain l' w' where a: "admit ref_glue night_drop short_tok 2 [65] 4 [0, 1, 0, 1] [66] [0, 0] ?w = Some (Some 0xC2000000, l', w')" by blast
  have rp: "replicate 2 (0 :: f32) = [0, 0]" by (simp add: numeral_2_eq_2)
  obtain c where c: "run_kairos_curator ref_glue night_drop 7 short_tok 2 (\<lambda>_. None) [65]
      [\<lparr>le_path = [65], le_is_dir = True, le_txt = Some [66], le_tok = Some [48, 10, 49, 10, 48, 10, 49]\<rparr>] \<lparr>dev = [(1, 5)], steps = 0\<rparr> = Some c"
    "length (records c) = 1"
    by (simp add: run_kairos_curator_def curate_entry_def tape_tokens x d o a tau Let_def rp or_default_def del: One_nat_def)
  then show ?thesis using curator_records_typed [OF c(1)] by blast
qed

end
