(* ===== verification/Spine.thy ===== *)
theory Spine
  imports Recall G4_Cache Tokenizer Rust_Cast
begin

text \<open>
  \<^verbatim>\<open>spine.rs\<close>: the pipeline that decides what a turn does with the memory, and its execution on the resident cache. A
  decider maps a view of the turn and the decision so far to a decision; \<^verbatim>\<open>Box<dyn Decider>\<close> is the datatype of its
  implementors. \<open>None\<close> is a panic (the scoring of the learned head). Log lines are left out.
\<close>

subsection \<open>Decisions\<close>

datatype delivery = SystemEcho | SystemPlain | Sandwich | FactEcho | Recite

definition delivery_from_env :: "ustr \<Rightarrow> delivery" where
  "delivery_from_env v =
     (if v = lit ''system'' then SystemPlain else if v = lit ''sandwich'' then Sandwich
      else if v = lit ''factecho'' then FactEcho else if v = lit ''recite'' then Recite else SystemEcho)"

record episode_ref =
  er_name :: ustr
  er_text :: ustr
  er_score :: u32

datatype latent_decision = Pass | Deliver episode_ref delivery | Decline ustr | Route u32

fun is_terminal :: "latent_decision \<Rightarrow> bool" where
  "is_terminal (Decline _) = True"
| "is_terminal (Route _) = True"
| "is_terminal _ = False"

record latent_view =
  raw_user :: ustr
  global_q :: "f32 list"
  l5_query :: "f32 list"
  registry :: "episode list"
  nightshift :: "episode list"
  interrogative :: bool
  qonly :: bool
  tau_l5 :: f32
  tau_margin :: f32
  attr_tau :: f32
  attr_gate :: bool
  view_framing :: delivery

definition candidates :: "latent_view \<Rightarrow> episode list" where
  "candidates view = registry view @ nightshift view"

subsection \<open>The deciders\<close>

fun l5_loop ::
  "('d, 'm) vec_ops_scheme \<Rightarrow> f32 list \<Rightarrow> episode list \<Rightarrow> (f32 \<times> episode) option \<Rightarrow> f32 \<Rightarrow> (f32 \<times> episode) option \<times> f32" where
  "l5_loop ops q [] best second = (best, second)"
| "l5_loop ops q (ep # eps) best second =
     (if length (ep_l5key ep) \<noteq> HD then l5_loop ops q eps best second
      else let c = cos512 ops q (ep_l5key ep) in
           case best of
             None \<Rightarrow> l5_loop ops q eps (Some (c, ep)) second
           | Some (b, _) \<Rightarrow>
               if f32_ge b c then l5_loop ops q eps best (if f32_gt c second then c else second)
               else l5_loop ops q eps (Some (c, ep)) b)"

definition score_milli :: "('d, 'm) vec_ops_scheme \<Rightarrow> f32 \<Rightarrow> u32" where
  "score_milli ops s = f32_as_u32 (fmul ops s 0x447A0000)"

definition l5_refine :: "('d, 'm) vec_ops_scheme \<Rightarrow> latent_view \<Rightarrow> latent_decision \<Rightarrow> latent_decision" where
  "l5_refine ops view cur =
     (if cur \<noteq> Pass \<or> (qonly view \<and> \<not> interrogative view) \<or> length (l5_query view) \<noteq> HD then cur
      else case l5_loop ops (l5_query view) (candidates view) None NEG_INFINITY of
          (None, _) \<Rightarrow> cur
        | (Some (bcos, ep), second) \<Rightarrow>
            let margin = (if f32_finite second then fsub ops bcos second else 0x7F800000) in
            if f32_gt (tau_l5 view) bcos then cur
            else if f32_gt (tau_margin view) 0 \<and> f32_gt (tau_margin view) margin then cur
            else Deliver \<lparr>er_name = ep_name ep, er_text = ep_text ep, er_score = score_milli ops bcos\<rparr> (view_framing view))"

definition attr_refine :: "uni \<Rightarrow> latent_view \<Rightarrow> latent_decision \<Rightarrow> latent_decision" where
  "attr_refine u view cur =
     (if \<not> attr_gate view then cur
      else case cur of
          Deliver ep _ \<Rightarrow>
            if f32_ge (attr_absent_ratio u (raw_user view) (er_text ep)) (attr_tau view) \<and> query_has_entity_token u (raw_user view)
            then Decline (lit ''I have a record for that entity, but it does not include that specific detail.'') else cur
        | _ \<Rightarrow> cur)"

text \<open>The adapter of a scoring head: the best candidate strictly above the reject floor.\<close>

fun head_loop :: "(episode \<Rightarrow> f32 option) \<Rightarrow> f32 \<Rightarrow> episode list \<Rightarrow> (f32 \<times> episode) option \<Rightarrow> (f32 \<times> episode) option option" where
  "head_loop score floor [] best = Some best"
| "head_loop score floor (ep # eps) best =
     (case score ep of None \<Rightarrow> None
      | Some s \<Rightarrow>
          head_loop score floor eps
            (if f32_gt s floor \<and> (case best of None \<Rightarrow> True | Some (b, _) \<Rightarrow> f32_gt s b) then Some (s, ep) else best))"

definition head_refine ::
  "('d, 'm) vec_ops_scheme \<Rightarrow> (episode \<Rightarrow> f32 option) \<Rightarrow> f32 \<Rightarrow> delivery \<Rightarrow> latent_view \<Rightarrow> latent_decision \<Rightarrow> latent_decision option" where
  "head_refine ops score floor framing view cur =
     (if cur \<noteq> Pass then Some cur
      else case head_loop score floor (candidates view) None of
          None \<Rightarrow> None
        | Some None \<Rightarrow> Some cur
        | Some (Some (s, ep)) \<Rightarrow>
            Some (Deliver \<lparr>er_name = ep_name ep, er_text = ep_text ep, er_score = score_milli ops (f32_max s 0)\<rparr> framing))"

definition wc_head_score :: "('d, 'm) vec_ops_scheme \<Rightarrow> wc_head \<Rightarrow> latent_view \<Rightarrow> episode \<Rightarrow> f32 option" where
  "wc_head_score ops head view ep =
     (if global_q view = [] \<or> ep_gk ep = [] then Some NEG_INFINITY
      else let np = min (as_usize (ep_npos ep)) (if 0 < ep_gk_ng ep then length (ep_gk ep) div (ep_gk_ng ep * HD) else 0)
           in wc_score ops (global_q view) (ep_gk ep) (ep_gk_ng ep) np head)"

datatype decider = HeadSelector wc_head delivery | L5Recall | AttrGate

fun refine :: "('d, 'm) vec_ops_scheme \<Rightarrow> uni \<Rightarrow> decider \<Rightarrow> latent_view \<Rightarrow> latent_decision \<Rightarrow> latent_decision option" where
  "refine ops u (HeadSelector head framing) view cur = head_refine ops (wc_head_score ops head view) (wc_s0 head) framing view cur"
| "refine ops u L5Recall view cur = Some (l5_refine ops view cur)"
| "refine ops u AttrGate view cur = Some (attr_refine u view cur)"

definition build_pipeline :: "wc_head option \<Rightarrow> delivery \<Rightarrow> decider list" where
  "build_pipeline wc framing = (case wc of Some head \<Rightarrow> [HeadSelector head framing] | None \<Rightarrow> []) @ [L5Recall, AttrGate]"

definition live_pipeline :: "decider list" where
  "live_pipeline = [L5Recall, AttrGate]"

fun decide_loop :: "('d, 'm) vec_ops_scheme \<Rightarrow> uni \<Rightarrow> latent_view \<Rightarrow> decider list \<Rightarrow> latent_decision \<Rightarrow> latent_decision option" where
  "decide_loop ops u view [] cur = Some cur"
| "decide_loop ops u view (d # ds) cur =
     (if is_terminal cur then Some cur
      else case refine ops u d view cur of None \<Rightarrow> None | Some cur' \<Rightarrow> decide_loop ops u view ds cur')"

definition decide :: "('d, 'm) vec_ops_scheme \<Rightarrow> uni \<Rightarrow> latent_view \<Rightarrow> decider list \<Rightarrow> latent_decision option" where
  "decide ops u view deciders = decide_loop ops u view deciders Pass"

subsection \<open>Execution\<close>









subsection \<open>What the cosine selector picks\<close>

definition keyed :: "latent_view \<Rightarrow> episode list" where
  "keyed view = filter (\<lambda>e. length (ep_l5key e) = HD) (candidates view)"

definition cosines :: "('d, 'm) vec_ops_scheme \<Rightarrow> latent_view \<Rightarrow> f32 list" where
  "cosines ops view = map (\<lambda>e. cos512 ops (l5_query view) (ep_l5key e)) (keyed view)"

text \<open>\<open>s\<close> is the largest value beside index \<open>i\<close>, minus infinity when there is none.\<close>

definition runner_up :: "f32 list \<Rightarrow> nat \<Rightarrow> f32 \<Rightarrow> bool" where
  "runner_up cs i s \<longleftrightarrow> (\<forall>j < length cs. j \<noteq> i \<longrightarrow> f32_key (cs ! j) \<le> f32_key s) \<and>
     (s = NEG_INFINITY \<or> (\<exists>j < length cs. j \<noteq> i \<and> cs ! j = s))"

lemma l5_loop_filter:
  "l5_loop ops q eps best second = l5_loop ops q (filter (\<lambda>e. length (ep_l5key e) = HD) eps) best second"
  by (induction eps arbitrary: best second) (auto simp: Let_def split: option.split)

definition l5_inv :: "f32 list \<Rightarrow> episode list \<Rightarrow> (f32 \<times> episode) option \<Rightarrow> f32 \<Rightarrow> bool" where
  "l5_inv cs es best second \<longleftrightarrow> length cs = length es \<and> \<not> f32_nan second \<and>
     (case best of None \<Rightarrow> cs = [] \<and> second = NEG_INFINITY
      | Some (b, e) \<Rightarrow> \<exists>i. first_max cs i \<and> b = cs ! i \<and> e = es ! i \<and> runner_up cs i second)"

lemma runner_up_keep:
  assumes "runner_up cs i s" and "i < length cs" and "f32_key c \<le> f32_key s"
  shows "runner_up (cs @ [c]) i s"
  using assms by (auto simp: runner_up_def nth_append less_Suc_eq)

lemma runner_up_new:
  assumes "runner_up cs i s" and "i < length cs" and "f32_key s \<le> f32_key c"
  shows "runner_up (cs @ [c]) i c"
  using assms by (fastforce simp: runner_up_def nth_append less_Suc_eq)

lemma runner_up_overtaken:
  assumes "is_max_at cs i"
  shows "runner_up (cs @ [c]) (length cs) (cs ! i)"
  using assms by (fastforce simp: runner_up_def is_max_at_def nth_append less_Suc_eq)

lemma l5_loop_inv:
  assumes "\<forall>e \<in> set eps. length (ep_l5key e) = HD" and "nan_free (cs @ map (\<lambda>e. cos512 ops q (ep_l5key e)) eps)"
    and "l5_inv cs es best second" and "l5_loop ops q eps best second = (best', second')"
  shows "l5_inv (cs @ map (\<lambda>e. cos512 ops q (ep_l5key e)) eps) (es @ eps) best' second'"
  using assms
proof (induction eps arbitrary: cs es best second)
  case (Cons ep eps)
  let ?c = "cos512 ops q (ep_l5key ep)"
  have nan: "\<not> f32_nan ?c" "nan_free cs" using Cons.prems(2) by (auto simp: nan_free_def)
  have len: "length cs = length es" and sec: "\<not> f32_nan second" using Cons.prems(3) by (auto simp: l5_inv_def)
  obtain best1 second1 where st: "l5_loop ops q eps best1 second1 = (best', second')" and inv: "l5_inv (cs @ [?c]) (es @ [ep]) best1 second1"
  proof (cases best)
    case None
    have e: "cs = []" "es = []" "second = NEG_INFINITY" using Cons.prems(3) None by (auto simp: l5_inv_def)
    have "l5_inv (cs @ [?c]) (es @ [ep]) (Some (?c, ep)) second"
      using sec e by (auto simp: l5_inv_def first_max_def is_max_at_def runner_up_def)
    then show thesis using Cons.prems(1,4) None by (intro that) (auto simp: Let_def)
  next
    case (Some p)
    then obtain b e where best: "best = Some (b, e)" by (cases p) auto
    then obtain i where i: "first_max cs i" "b = cs ! i" "e = es ! i" "runner_up cs i second"
      using Cons.prems(3) by (auto simp: l5_inv_def)
    have il: "i < length cs" using i(1) by (simp add: first_max_def is_max_at_def)
    have b: "\<not> f32_nan b" using nan(2) il i(2) by (simp add: nan_free_nth)
    have max: "first_max (cs @ [?c]) (if f32_key b < f32_key ?c then length cs else i)" by (rule first_max_snoc [OF i(1,2)])
    show thesis
    proof (cases "f32_ge b ?c")
      case True
      let ?s = "if f32_gt ?c second then ?c else second"
      have "runner_up (cs @ [?c]) i ?s"
        using runner_up_keep [OF i(4) il, of ?c] runner_up_new [OF i(4) il, of ?c] sec nan(1)
        by (auto simp: f32_gt_def)
      then have "l5_inv (cs @ [?c]) (es @ [ep]) best ?s"
        using max True il i(2,3) len sec nan(1) best
        by (auto simp: l5_inv_def f32_ge_def nth_append intro!: exI [of _ i])
      then show thesis using Cons.prems(1,4) best True by (intro that) (auto simp: Let_def)
    next
      case False
      then have lt: "f32_key b < f32_key ?c" using b nan(1) by (auto simp: f32_ge_def)
      have "runner_up (cs @ [?c]) (length cs) b" using runner_up_overtaken [of cs i ?c] i(1,2) by (simp add: first_max_def)
      then have "l5_inv (cs @ [?c]) (es @ [ep]) (Some (?c, ep)) b"
        using max lt len b by (auto simp: l5_inv_def nth_append intro!: exI [of _ "length cs"])
      then show thesis using Cons.prems(1,4) best False by (intro that) (auto simp: Let_def)
    qed
  qed
  show ?case using Cons.IH [OF _ _ inv st] Cons.prems(1,2) by simp
qed simp

text \<open>
  C5. On cosines that are numbers the selector delivers the first candidate with the largest cosine, exactly when that
  cosine reaches the threshold and, with a margin set, its distance to the second largest reaches the margin.
\<close>

theorem l5_selects_best:
  assumes "length (l5_query view) = HD" and "\<not> (qonly view \<and> \<not> interrogative view)" and "keyed view \<noteq> []"
    and "nan_free (cosines ops view)"
  shows "\<exists>i s. first_max (cosines ops view) i \<and> runner_up (cosines ops view) i s \<and>
    l5_refine ops view Pass =
      (if f32_gt (tau_l5 view) (cosines ops view ! i) \<or> f32_gt (tau_margin view) 0 \<and>
          f32_gt (tau_margin view) (if f32_finite s then fsub ops (cosines ops view ! i) s else 0x7F800000)
       then Pass
       else Deliver \<lparr>er_name = ep_name (keyed view ! i), er_text = ep_text (keyed view ! i),
              er_score = score_milli ops (cosines ops view ! i)\<rparr> (view_framing view))"
proof -
  obtain best second where run: "l5_loop ops (l5_query view) (keyed view) None NEG_INFINITY = (best, second)" by fastforce
  have "l5_inv (cosines ops view) (keyed view) best second"
    using l5_loop_inv [OF _ _ _ run, of "[]" "[]"] assms(4)
    by (simp add: cosines_def keyed_def l5_inv_def neg_infinity_not_nan)
  then obtain i where i: "first_max (cosines ops view) i" "best = Some (cosines ops view ! i, keyed view ! i)"
    "runner_up (cosines ops view) i second"
    using assms(3) by (auto simp: l5_inv_def cosines_def split: option.splits)
  have "l5_loop ops (l5_query view) (candidates view) None NEG_INFINITY = (best, second)"
    using run by (subst l5_loop_filter) (simp add: keyed_def)
  then have "l5_refine ops view Pass =
      (if f32_gt (tau_l5 view) (cosines ops view ! i) \<or> f32_gt (tau_margin view) 0 \<and>
          f32_gt (tau_margin view) (if f32_finite second then fsub ops (cosines ops view ! i) second else 0x7F800000)
       then Pass
       else Deliver \<lparr>er_name = ep_name (keyed view ! i), er_text = ep_text (keyed view ! i),
              er_score = score_milli ops (cosines ops view ! i)\<rparr> (view_framing view))"
    using assms(1,2) i(2) by (auto simp: l5_refine_def Let_def)
  then show ?thesis using i(1,3) by blast
qed

text \<open>Float operations under which every cosine is the zero of an all-zero key.\<close>

definition zero_ops :: "unit vec_ops" where
  "zero_ops = \<lparr>fsub = (\<lambda>x y. if f32_nan x then x else 0), fmul = (\<lambda>x y. 0), fdiv = (\<lambda>x y. 0), widen = (\<lambda>x. ()), dexp = id, dadd = (\<lambda>x y. ()),
     dmul = (\<lambda>x y. ()), ddiv = (\<lambda>x y. ()), dzero = (), done1 = (), dlt = (\<lambda>x y. False), dle = (\<lambda>x y. True), dfinite = (\<lambda>x. True),
     unit_of = (\<lambda>x. ()), dsqrt = id, dln = id, narrow = (\<lambda>x. 0), of_count = (\<lambda>x. ()), of_sign = (\<lambda>x. ()), fadd = (\<lambda>x y. 0)\<rparr>"

definition sample_episode :: "ustr \<Rightarrow> f32 list \<Rightarrow> episode" where
  "sample_episode n key = \<lparr>ep_name = n, ep_dir = [], ep_npos = 0, ep_topic = [], ep_text = n, ep_sig = [0, 0, 0, 0], ep_gk = [], ep_gk_ng = 0,
     ep_tokens = None, ep_l5key = key, ep_policy = None, ep_lifecycle = 0\<rparr>"

definition sample_view :: "episode list \<Rightarrow> bool \<Rightarrow> latent_view" where
  "sample_view eps gate = \<lparr>raw_user = lit ''Node-42?'', global_q = [], l5_query = replicate 512 0, registry = eps, nightshift = [], interrogative = True,
     qonly = True, tau_l5 = 0, tau_margin = 0, attr_tau = 0, attr_gate = gate, view_framing = SystemEcho\<rparr>"

lemma cos512_zero: "length a = length b \<Longrightarrow> a \<noteq> [] \<Longrightarrow> cos512 zero_ops a b = 0"
  by (simp add: cos512_def zero_ops_def)

theorem l5_selects_best_witness:
  "\<exists>er. l5_refine zero_ops (sample_view [sample_episode [65] (replicate 512 0), sample_episode [66] (replicate 512 0)] False) Pass =
     Deliver er SystemEcho \<and> er_name er = [65]"
proof -
  let ?v = "sample_view [sample_episode [65] (replicate 512 0), sample_episode [66] (replicate 512 0)] False"
  have k: "keyed ?v = [sample_episode [65] (replicate 512 0), sample_episode [66] (replicate 512 0)]"
    by (simp add: keyed_def candidates_def sample_view_def sample_episode_def HD_def)
  have c: "cosines zero_ops ?v = [0, 0]"
    by (simp add: cosines_def k cos512_zero) (simp add: sample_view_def sample_episode_def cos512_zero)
  have "\<exists>i s. first_max (cosines zero_ops ?v) i \<and> runner_up (cosines zero_ops ?v) i s \<and>
    l5_refine zero_ops ?v Pass =
      (if f32_gt (tau_l5 ?v) (cosines zero_ops ?v ! i) \<or> f32_gt (tau_margin ?v) 0 \<and>
          f32_gt (tau_margin ?v) (if f32_finite s then fsub zero_ops (cosines zero_ops ?v ! i) s else 0x7F800000)
       then Pass
       else Deliver \<lparr>er_name = ep_name (keyed ?v ! i), er_text = ep_text (keyed ?v ! i),
              er_score = score_milli zero_ops (cosines zero_ops ?v ! i)\<rparr> (view_framing ?v))"
    by (rule l5_selects_best) (simp_all add: k c, simp_all add: sample_view_def HD_def nan_free_def f32_nan_def)
  then obtain i s where i: "first_max [0, 0 :: f32] i" and d: "l5_refine zero_ops ?v Pass =
      (if f32_gt (tau_l5 ?v) ([0, 0] ! i) \<or> f32_gt (tau_margin ?v) 0 \<and>
          f32_gt (tau_margin ?v) (if f32_finite s then fsub zero_ops ([0, 0] ! i) s else 0x7F800000)
       then Pass
       else Deliver \<lparr>er_name = ep_name (keyed ?v ! i), er_text = ep_text (keyed ?v ! i),
              er_score = score_milli zero_ops ([0, 0] ! i)\<rparr> (view_framing ?v))"
    unfolding c by blast
  have "i = 0" using i by (auto simp: first_max_def is_max_at_def less_Suc_eq)
  then show ?thesis unfolding d k by (simp add: sample_view_def sample_episode_def f32_gt_def)
qed

text \<open>
  C28. A cosine that is not a number passes every threshold: when the last candidate with a key gives one, it is
  delivered, whatever the other candidates score and however the threshold and the margin are set.
\<close>

theorem l5_accepts_nan:
  assumes "length (l5_query view) = HD" and "\<not> (qonly view \<and> \<not> interrogative view)" and "keyed view = es @ [e]"
    and "c = cos512 ops (l5_query view) (ep_l5key e)" and "f32_nan c" and "\<And>s. f32_nan (fsub ops c s)"
  shows "l5_refine ops view Pass =
    Deliver \<lparr>er_name = ep_name e, er_text = ep_text e, er_score = score_milli ops c\<rparr> (view_framing view)"
proof -
  have e: "length (ep_l5key e) = HD"
  proof -
    have "e \<in> set (keyed view)" using assms(3) by simp
    then show ?thesis by (simp add: keyed_def)
  qed
  have last: "\<exists>second. l5_loop ops q (es @ [e]) best s = (Some (cos512 ops q (ep_l5key e), e), second)"
    if "f32_nan (cos512 ops q (ep_l5key e))" for q best s
    using that e by (induction es arbitrary: best s) (auto simp: Let_def f32_ge_def split: option.split)
  obtain second where "l5_loop ops (l5_query view) (keyed view) None NEG_INFINITY = (Some (c, e), second)"
    using last [of "l5_query view" None NEG_INFINITY] assms(3-5) by auto
  then have run: "l5_loop ops (l5_query view) (candidates view) None NEG_INFINITY = (Some (c, e), second)"
    by (subst l5_loop_filter) (simp add: keyed_def)
  have "\<not> f32_gt x 0x7F800000" for x :: f32
  proof -
    have "f32_key x \<le> 0x7F800000" if "\<not> f32_nan x"
    proof (cases "bit x 31")
      case True
      then show ?thesis using uint_ge_0 [of "x AND 0x7FFFFFFF"] unfolding f32_key_def by (simp only: if_True)
    next
      case False
      then have "x = x AND 0x7FFFFFFF"
        by (intro bit_word_eqI) (auto simp: bit_simps bit_numeral_rec less_Suc_eq numeral_eq_Suc)
      then have "x \<le> 0x7F800000" using that by (metis f32_nan_def not_less)
      then show ?thesis using False by (simp add: f32_key_def word_le_def)
    qed
    then show ?thesis by (auto simp: f32_gt_def f32_key_def bit_numeral_rec)
  qed
  then show ?thesis using assms(1,2,5,6) run by (auto simp: l5_refine_def Let_def f32_gt_def)
qed

text \<open>An instance: the float operations return the key's not-a-number.\<close>

theorem l5_accepts_nan_witness:
  "l5_refine (zero_ops\<lparr>dle := \<lambda>x y. False, narrow := \<lambda>x. 0x7FC00000\<rparr>)
      ((sample_view [sample_episode [65] (replicate 512 0)] False)\<lparr>tau_l5 := 0x3F800000\<rparr>) Pass =
    Deliver \<lparr>er_name = [65], er_text = [65], er_score = score_milli zero_ops 0x7FC00000\<rparr> SystemEcho"
proof -
  let ?o = "zero_ops\<lparr>dle := \<lambda>x y. False, narrow := \<lambda>x. 0x7FC00000\<rparr>"
  let ?e = "sample_episode [65] (replicate 512 0)"
  let ?v = "(sample_view [?e] False)\<lparr>tau_l5 := 0x3F800000\<rparr>"
  have k: "keyed ?v = [] @ [?e]" by (simp add: keyed_def candidates_def sample_view_def sample_episode_def HD_def)
  have c: "0x7FC00000 = cos512 ?o (l5_query ?v) (ep_l5key ?e)"
    by (simp add: cos512_def zero_ops_def sample_view_def sample_episode_def)
  have "l5_refine ?o ?v Pass = Deliver \<lparr>er_name = ep_name ?e, er_text = ep_text ?e, er_score = score_milli ?o 0x7FC00000\<rparr> (view_framing ?v)"
    by (rule l5_accepts_nan [OF _ _ k c]) (simp_all add: sample_view_def HD_def f32_nan_def zero_ops_def)
  then show ?thesis by (simp add: sample_view_def sample_episode_def score_milli_def zero_ops_def)
qed

subsection \<open>What the pipeline can decide\<close>

text \<open>The interface of the selecting deciders: a selector leaves a decision alone and turns an open one into a memory.\<close>

definition from_memory :: "latent_view \<Rightarrow> latent_decision \<Rightarrow> bool" where
  "from_memory view d \<longleftrightarrow> d = Pass \<or>
     (\<exists>ep \<in> set (candidates view). \<exists>sc f. d = Deliver \<lparr>er_name = ep_name ep, er_text = ep_text ep, er_score = sc\<rparr> f)"

locale selector =
  fixes select :: "latent_view \<Rightarrow> latent_decision \<Rightarrow> latent_decision option"
  assumes keeps: "cur \<noteq> Pass \<Longrightarrow> select view cur = Some cur"
    and selects: "select view Pass = Some d \<Longrightarrow> from_memory view d"
begin

lemma select_from_memory: "from_memory view cur \<Longrightarrow> select view cur = Some d \<Longrightarrow> from_memory view d"
  using keeps selects by (cases "cur = Pass") auto

lemma select_not_terminal: "from_memory view cur \<Longrightarrow> select view cur = Some d \<Longrightarrow> \<not> is_terminal d"
  using select_from_memory [of view cur d] by (auto simp: from_memory_def)

end

lemma l5_loop_mem: "l5_loop ops q eps best s = (Some (c, e), s') \<Longrightarrow> e \<in> set eps \<or> (\<exists>b. best = Some (b, e))"
proof (induction eps arbitrary: best s)
  case (Cons ep eps)
  then show ?case by (auto simp: Let_def split: if_splits option.splits dest!: Cons.IH)
qed simp

lemma head_loop_mem: "head_loop score floor eps best = Some (Some (c, e)) \<Longrightarrow> e \<in> set eps \<or> (\<exists>b. best = Some (b, e))"
proof (induction eps arbitrary: best)
  case (Cons ep eps)
  then show ?case by (auto split: if_splits option.splits dest!: Cons.IH)
qed simp

interpretation l5: selector "\<lambda>view cur. Some (l5_refine ops view cur)" for ops :: "('d, 'm) vec_ops_scheme"
proof
  fix view d
  assume "Some (l5_refine ops view Pass) = Some d"
  then show "from_memory view d"
    by (auto simp: l5_refine_def from_memory_def Let_def dest!: l5_loop_mem split: if_splits option.splits prod.splits)
qed (simp add: l5_refine_def)

interpretation head: selector "head_refine ops score floor framing"
  for ops :: "('d, 'm) vec_ops_scheme" and score floor framing
proof
  fix view d
  assume "head_refine ops score floor framing view Pass = Some d"
  then show "from_memory view d"
    by (auto simp: head_refine_def from_memory_def dest!: head_loop_mem split: option.splits prod.splits)
qed (simp add: head_refine_def)

text \<open>The gate refuses an episode whose text lacks what the query asks about a private entity.\<close>

definition refused :: "uni \<Rightarrow> latent_view \<Rightarrow> ustr \<Rightarrow> bool" where
  "refused u view txt \<longleftrightarrow> attr_gate view \<and> f32_ge (attr_absent_ratio u (raw_user view) txt) (attr_tau view) \<and>
     query_has_entity_token u (raw_user view)"

definition decided :: "uni \<Rightarrow> latent_view \<Rightarrow> latent_decision \<Rightarrow> bool" where
  "decided u view dec \<longleftrightarrow> dec = Pass \<or>
     (\<exists>ep \<in> set (candidates view). if refused u view (ep_text ep) then dec = Decline SECRET_MESSAGE
        else \<exists>sc f. dec = Deliver \<lparr>er_name = ep_name ep, er_text = ep_text ep, er_score = sc\<rparr> f)"

lemma attr_decided: "from_memory view cur \<Longrightarrow> decided u view (attr_refine u view cur)"
  by (auto simp: from_memory_def decided_def attr_refine_def refused_def SECRET_MESSAGE_def)

lemma decide_live:
  assumes "from_memory view cur"
  shows "decide_loop ops u view [L5Recall, AttrGate] cur = Some (attr_refine u view (l5_refine ops view cur))"
  using assms l5.select_not_terminal [of view cur ops "l5_refine ops view cur"] by (auto simp: from_memory_def)

text \<open>
  C13. Whatever the head and the scores, the pipeline decides one of three things: nothing, the delivery of the text of a
  stored episode that the gate does not refuse, or the fixed refusal, and that only when the gate refuses a stored episode.
  On a statement of the question-only mode without a learned head it decides nothing.
\<close>

theorem decide_outcomes:
  assumes "decide ops u view (build_pipeline wc framing) = Some dec"
  shows "decided u view dec \<and> (wc = None \<and> qonly view \<and> \<not> interrogative view \<longrightarrow> dec = Pass)"
proof -
  have start: "from_memory view Pass" by (simp add: from_memory_def)
  show ?thesis
  proof (cases wc)
    case None
    have "dec = attr_refine u view (l5_refine ops view Pass)"
      using assms decide_live [OF start, of ops u] None by (simp add: decide_def build_pipeline_def)
    moreover have "from_memory view (l5_refine ops view Pass)" by (rule l5.select_from_memory [OF start refl])
    ultimately show ?thesis using attr_decided by (auto simp: l5_refine_def attr_refine_def)
  next
    case (Some h)
    then obtain cur where cur: "head_refine ops (wc_head_score ops h view) (wc_s0 h) framing view Pass = Some cur"
      "decide_loop ops u view [L5Recall, AttrGate] cur = Some dec"
      using assms by (auto simp: decide_def build_pipeline_def split: option.splits)
    have mem: "from_memory view cur" by (rule head.selects [OF cur(1)])
    have "dec = attr_refine u view (l5_refine ops view cur)" using cur(2) decide_live [OF mem, of ops u] by simp
    then show ?thesis using attr_decided l5.select_from_memory [OF mem refl, of ops] Some by auto
  qed
qed

theorem decide_outcomes_witness:
  "\<exists>dec. decide zero_ops ascii_uni (sample_view [sample_episode [65] (replicate 512 0)] True) live_pipeline = Some dec \<and>
     decided ascii_uni (sample_view [sample_episode [65] (replicate 512 0)] True) dec"
proof -
  let ?v = "sample_view [sample_episode [65] (replicate 512 0)] True"
  obtain dec where d: "decide zero_ops ascii_uni ?v (build_pipeline None SystemEcho) = Some dec"
    using decide_live [of ?v Pass zero_ops ascii_uni] by (simp add: decide_def build_pipeline_def from_memory_def)
  then have "decide zero_ops ascii_uni ?v live_pipeline = Some dec" by (simp add: build_pipeline_def live_pipeline_def)
  then show ?thesis using decide_outcomes [OF d] by blast
qed

subsection \<open>Execution and the cache\<close>












end
