(* ===== verification/Telepathy.thy ===== *)
theory Telepathy
  imports Spine Session
begin

text \<open>
  \<^verbatim>\<open>telepathy.rs\<close>: the adapter file of the latent bridge and its affine transfer behind the license gate, the route
  decision (a small head read from a file, or forced), and the delegate that answers on clean text with its own model.
  Environment variables are fields of records; a panic is \<open>None\<close>.
\<close>

subsection \<open>The adapter and the bridge\<close>

definition F_DEFAULT_OFF :: u32 where "F_DEFAULT_OFF = 1"
definition F_REQUIRE_LICENSE :: u32 where "F_REQUIRE_LICENSE = 2"
definition F_REJECT_FOREIGN :: u32 where "F_REJECT_FOREIGN = 4"

record adapter =
  din :: nat
  dout :: nat
  gmu :: "f32 list"
  gsd :: "f32 list"
  qmu :: "f32 list"
  qsd :: "f32 list"
  aw :: "f32 list"

datatype adapter_error = AdapterRead | AdapterTooSmall | AdapterShort nat nat

definition f32s_at :: "bytes \<Rightarrow> nat \<Rightarrow> nat \<Rightarrow> f32 list" where
  "f32s_at b off n = map (\<lambda>i. from_le (bslice (off + 4 * i) (off + 4 * i + 4) b)) [0..<n]"

text \<open>
  The sizes are sign-extended and the total wraps at 64 bits; when the wrapped total fits but the real one does not, the
  reads run off the buffer (or the allocation is refused), a panic.
\<close>

definition adapter_load :: "bytes option \<Rightarrow> (adapter_error + adapter) option" where
  "adapter_load file =
     (case file of None \<Rightarrow> Some (Inl AdapterRead)
      | Some b \<Rightarrow>
          if length b < 8 then Some (Inl AdapterTooSmall)
          else let m = as_usize (from_le (bslice 0 4 b)); n = as_usize (from_le (bslice 4 8 b));
                   prod = m * n mod 2 ^ 64;
                   need = (8 + 4 * (2 * m + 2 * n + prod)) mod 2 ^ 64
               in if length b < need then Some (Inl (AdapterShort (length b) need))
                  else if length b < 8 + 4 * (2 * m + 2 * n + prod) then None
                  else Some (Inr \<lparr>din = m, dout = n, gmu = f32s_at b 8 m, gsd = f32s_at b (8 + 4 * m) m,
                         qmu = f32s_at b (8 + 8 * m) n, qsd = f32s_at b (8 + 8 * m + 4 * n) n,
                         aw = f32s_at b (8 + 8 * m + 8 * n) prod\<rparr>))"

record bridge =
  b_src :: ustr
  b_dst :: ustr
  b_flags :: u32
  b_scale :: f32
  license_ok :: bool
  b_adapter :: adapter

text \<open>\<open>license\<close> and \<open>scale\<close> are the two environment variables.\<close>

definition bridge_build :: "ustr option \<Rightarrow> ustr option \<Rightarrow> ustr \<Rightarrow> ustr \<Rightarrow> adapter \<Rightarrow> u32 \<Rightarrow> bridge" where
  "bridge_build license scale src dst ad flags =
     \<lparr>b_src = src, b_dst = dst, b_flags = flags,
      b_scale = (case Option.bind scale parse_f32 of Some s \<Rightarrow> s | None \<Rightarrow> F32_ONE),
      license_ok = (if flags AND F_REQUIRE_LICENSE \<noteq> 0 then (case license of Some t \<Rightarrow> trim t \<noteq> [] | None \<Rightarrow> False) else True),
      b_adapter = ad\<rparr>"

definition bridge_transfer :: "('d, 'm) vec_ops_scheme \<Rightarrow> bridge \<Rightarrow> f32 list \<Rightarrow> f32 list option" where
  "bridge_transfer ops br x =
     (let a = b_adapter br in
      if \<not> license_ok br \<or> length x \<noteq> din a then None
      else let z = map (\<lambda>k. fdiv ops (fsub ops (x ! k) (gmu a ! k)) (gsd a ! k)) [0..<din a] in
           Some (map (\<lambda>j. let s = foldl (\<lambda>s k. fadd ops s (fmul ops (z ! k) (aw a ! (k * dout a + j)))) 0 [0..<din a]
                          in fadd ops (fmul ops (fmul ops s (b_scale br)) (qsd a ! j)) (qmu a ! j)) [0..<dout a]))"

subsection \<open>Routing\<close>

datatype route_verdict = Local | Telepathy u32

definition route_probe :: "('d, 'm) vec_ops_scheme \<Rightarrow> f32 list \<Rightarrow> nat \<Rightarrow> nat \<Rightarrow> nat \<Rightarrow> f32 list \<Rightarrow> i32" where
  "route_probe ops blob h a proj feat =
     (let w1 = 2 * h; b1 = 2 * h + proj * h; w2 = b1 + proj; b2 = w2 + a * proj;
          hid = map (\<lambda>p. let s = foldl (\<lambda>s i. fadd ops s (fmul ops (blob ! (w1 + p * h + i))
                                (fdiv ops (fsub ops (feat ! i) (blob ! i)) (blob ! (h + i))))) (blob ! (b1 + p)) [0..<h]
                         in if f32_gt s 0 then s else 0) [0..<proj];
          out = map (\<lambda>c. foldl (\<lambda>s p. fadd ops s (fmul ops (blob ! (w2 + c * proj + p)) (hid ! p))) (blob ! (b2 + c)) [0..<proj]) [0..<a]
      in dialogue_argmax out)"

record route_env =
  route_head :: "ustr option"
  route_force :: "ustr option"

text \<open>The head of the file, when it has the exact size of a head over the latent.\<close>

definition head_proj :: "nat \<Rightarrow> nat \<Rightarrow> nat \<Rightarrow> nat option" where
  "head_proj n h a =
     (if n \<le> 2 * h + a then None
      else let proj = (n - 2 * h - a) div (h + 1 + a) in
           if 0 < proj \<and> n = 2 * h + proj * h + proj + a * proj + a then Some proj else None)"

definition head_blob :: "route_env \<Rightarrow> (ustr \<Rightarrow> bytes option) \<Rightarrow> f32 list option" where
  "head_blob env fs =
     (case route_head env of None \<Rightarrow> None
      | Some hp \<Rightarrow> if trim hp = [] then None else map_option (\<lambda>b. map from_le (chunks_exact 4 b)) (fs hp))"

definition decide_route :: "('d, 'm) vec_ops_scheme \<Rightarrow> route_env \<Rightarrow> (ustr \<Rightarrow> bytes option) \<Rightarrow> f32 list \<Rightarrow> route_verdict" where
  "decide_route ops env fs latent =
     (case Option.bind (head_blob env fs) (\<lambda>blob. map_option (\<lambda>proj. (blob, proj)) (head_proj (length blob) (length latent) 2)) of
        Some (blob, proj) \<Rightarrow> if route_probe ops blob (length latent) 2 proj latent = 1 then Telepathy 0 else Local
      | None \<Rightarrow>
          (case route_force env of
             Some s \<Rightarrow> if trim s \<noteq> [] then Telepathy (or_default (parse_u32 (trim s)) 0) else Local
           | None \<Rightarrow> Local))"

subsection \<open>The delegate\<close>

fun replace_sub :: "nat \<Rightarrow> ustr \<Rightarrow> ustr \<Rightarrow> ustr \<Rightarrow> ustr" where
  "replace_sub 0 p r s = s"
| "replace_sub (Suc n) p r s =
     (case find_sub p s of None \<Rightarrow> s | Some i \<Rightarrow> take i s @ r @ replace_sub n p r (drop (i + length p) s))"

record delegate_env =
  d_model :: "ustr option"
  d_tok :: "ustr option"
  d_ngen :: "ustr option"
  d_eos :: "ustr option"

text \<open>What loading the model, building the tokenizer and creating the session gives.\<close>

record ('s, 'e) loaded =
  ld_session :: 's
  ld_tokenizer :: "'e sptb_tokenizer"
  ld_vocab :: nat

datatype 'e delegate_error = EmptyTask | NotWired | LoadFailed ustr | TemplateFailed "'e tok_error" | SessionFailed session_error

fun delegate_loop :: "'s l1_api \<Rightarrow> i32 \<Rightarrow> nat \<Rightarrow> i32 \<Rightarrow> 's \<Rightarrow> f32 list \<Rightarrow> i32 list \<Rightarrow> session_error + i32 list" where
  "delegate_loop api eos 0 next s logits out = Inr out"
| "delegate_loop api eos (Suc n) next s logits out =
     (if next = eos then Inr out
      else case decode_step api s next logits of
          (Inl e, _, _) \<Rightarrow> Inl e
        | (Inr _, s', l') \<Rightarrow> delegate_loop api eos n (dialogue_argmax l') s' l' (out @ [next]))"

definition delegate_run :: "'s l1_api \<Rightarrow> ('s, 'e) loaded \<Rightarrow> nat \<Rightarrow> i32 \<Rightarrow> ustr \<Rightarrow> 'e delegate_error + ustr" where
  "delegate_run api ld n_gen eos task =
     (case apply_template_ids (ld_tokenizer ld) [\<lparr>role = lit ''user'', content = task\<rparr>] of
        Inl e \<Rightarrow> Inl (TemplateFailed e)
      | Inr prompt \<Rightarrow>
          (case prefill_chunk api (ld_session ld) prompt (replicate (ld_vocab ld) 0) of
             (Inl e, _, _) \<Rightarrow> Inl (SessionFailed e)
           | (Inr _, s, l) \<Rightarrow>
               (case delegate_loop api eos n_gen (dialogue_argmax l) s l [] of
                  Inl e \<Rightarrow> Inl (SessionFailed e)
                | Inr out \<Rightarrow> Inr (trim (from_utf8_lossy (concat (map (decode_token (ld_tokenizer ld)) out)))))))"

definition delegate_execute ::
  "'s l1_api \<Rightarrow> (ustr \<Rightarrow> ustr \<Rightarrow> ustr + ('s, 'e) loaded) \<Rightarrow> delegate_env \<Rightarrow> ustr \<Rightarrow> u32 \<Rightarrow> 'e delegate_error + ustr" where
  "delegate_execute api load_model env task bridge_id =
     (if trim task = [] then Inl EmptyTask
      else case d_model env of None \<Rightarrow> Inl NotWired
        | Some mp \<Rightarrow>
            if trim mp = [] then Inl NotWired
            else let tp = (case d_tok env of
                       Some t \<Rightarrow> if trim t \<noteq> [] then t else replace_sub (length mp) (lit ''.sp-model'') (lit ''.sp-tokenizer'') mp
                     | None \<Rightarrow> replace_sub (length mp) (lit ''.sp-model'') (lit ''.sp-tokenizer'') mp)
                 in case load_model mp tp of Inl e \<Rightarrow> Inl (LoadFailed e)
                    | Inr ld \<Rightarrow> delegate_run api ld (or_default (Option.bind (d_ngen env) parse_usize) 48)
                        (or_default (Option.bind (d_eos env) parse_i32) 151645) task)"

datatype 'e live_error = LiveSource | LiveDelegate "'e delegate_error" | NoOutput

text \<open>The verb: route on the latent, run the delegate on the task. The result is the answer, when routed.\<close>

definition run_telepathy_live ::
  "('d, 'm) vec_ops_scheme \<Rightarrow> 's l1_api \<Rightarrow> (ustr \<Rightarrow> ustr \<Rightarrow> ustr + ('s, 'e) loaded) \<Rightarrow> route_env \<Rightarrow> delegate_env \<Rightarrow>
     (ustr \<Rightarrow> bytes option) \<Rightarrow> ustr option \<Rightarrow> ustr option \<Rightarrow> 'e live_error + ustr option" where
  "run_telepathy_live ops api load_model renv denv fs task src =
     (let task = or_default task (lit ''write a python function that reverses a string'');
          latent = (case src of
              Some p \<Rightarrow> if trim p \<noteq> [] then map_option (\<lambda>b. map from_le (chunks_exact 4 b)) (fs p) else Some [0]
            | None \<Rightarrow> Some [0])
      in case latent of None \<Rightarrow> Inl LiveSource
         | Some x \<Rightarrow>
             (case decide_route ops renv fs x of
                Local \<Rightarrow> Inr None
              | Telepathy bid \<Rightarrow>
                  (case delegate_execute api load_model denv task bid of
                     Inl e \<Rightarrow> Inl (LiveDelegate e)
                   | Inr ans \<Rightarrow> if trim ans = [] then Inl NoOutput else Inr (Some ans))))"

subsection \<open>The route seam of the spine\<close>

text \<open>\<^verbatim>\<open>spine.rs\<close>: the decision before the cache is touched, and its execution; \<open>emit\<close> returns whether the client is there.\<close>

definition route_decision ::
  "('d, 'm) vec_ops_scheme \<Rightarrow> route_env \<Rightarrow> (ustr \<Rightarrow> bytes option) \<Rightarrow> ustr option \<Rightarrow> ustr \<Rightarrow> latent_decision" where
  "route_decision ops env fs chat_flag raw =
     (if chat_flag \<noteq> Some (lit ''1'') \<or> trim raw = [] then Pass
      else case decide_route ops env fs [0] of Telepathy bid \<Rightarrow> Route bid | Local \<Rightarrow> Pass)"

text \<open>\<open>None\<close>: not handled. The values \<open>emit\<close> returns are ignored, so the texts it gets are the result.\<close>

definition execute_route ::
  "('x \<Rightarrow> ustr) \<Rightarrow> (ustr \<Rightarrow> u32 \<Rightarrow> 'x + ustr) \<Rightarrow> ustr option \<Rightarrow> latent_decision \<Rightarrow> ustr \<Rightarrow> ustr list option" where
  "execute_route show_err delegate marker_flag dec raw =
     (case dec of
        Route bid \<Rightarrow>
          (let marker = marker_flag \<noteq> Some (lit ''0'') in
           Some ((if marker then [[10214] @ lit ''delegate: qwen2.5-coder'' @ [10215, 10]] else []) @
                 [case delegate (trim raw) bid of Inr ans \<Rightarrow> ans | Inl e \<Rightarrow> lit ''[delegate error: '' @ show_err e @ lit '']''] @
                 (if marker then [[10, 10214] @ lit ''/delegate'' @ [10215]] else [])))
      | _ \<Rightarrow> None)"

subsection \<open>The adapter file\<close>

definition adapter_image :: "adapter \<Rightarrow> bytes" where
  "adapter_image a = to_le 4 (of_nat (din a) :: i32) @ to_le 4 (of_nat (dout a) :: i32) @
     concat (map (to_le 4) (gmu a @ gsd a @ qmu a @ qsd a @ aw a))"

definition adapter_wf :: "adapter \<Rightarrow> bool" where
  "adapter_wf a \<longleftrightarrow> din a < 2 ^ 31 \<and> dout a < 2 ^ 31 \<and> length (gmu a) = din a \<and> length (gsd a) = din a \<and>
     length (qmu a) = dout a \<and> length (qsd a) = dout a \<and> length (aw a) = din a * dout a"

lemma f32s_at_stream:
  assumes "length p = off"
  shows "f32s_at (p @ concat (map (to_le 4) xs) @ rest) off (length xs) = xs"
proof (rule nth_equalityI)
  fix i assume i: "i < length (f32s_at (p @ concat (map (to_le 4) xs) @ rest) off (length xs))"
  then have "i < length xs" by (simp add: f32s_at_def)
  have "bslice (off + 4 * i) (off + 4 * i + 4) (p @ concat (map (to_le 4) xs) @ rest) =
      bslice (4 * i) (4 * i + 4) (concat (map (to_le 4) xs) @ rest)"
    using assms by (simp add: bslice_def)
  then show "f32s_at (p @ concat (map (to_le 4) xs) @ rest) off (length xs) ! i = xs ! i"
    using \<open>i < length xs\<close> f32_at_stream [of i xs rest] by (simp add: f32s_at_def f32_at_def)
qed (simp add: f32s_at_def)

lemma length_floats [simp]: "length (concat (map (to_le 4) (xs :: f32 list))) = 4 * length xs"
  by (simp add: length_concat comp_def sum_list_triv)

lemma stream_f32s_at:
  "off + 4 * n \<le> length b \<Longrightarrow> concat (map (to_le 4) (f32s_at b off n)) = bslice off (off + 4 * n) b"
proof (induction n)
  case 0
  then show ?case by (simp add: f32s_at_def bslice_def)
next
  case (Suc n)
  have "concat (map (to_le 4) (f32s_at b off (Suc n))) =
      concat (map (to_le 4) (f32s_at b off n)) @ to_le 4 (from_le (bslice (off + 4 * n) (off + 4 * n + 4) b) :: f32)"
    by (simp add: f32s_at_def)
  also have "\<dots> = bslice off (off + 4 * n) b @ bslice (off + 4 * n) (off + 4 * n + 4) b"
    using Suc by (simp add: to_le_from_le_widths(2))
  also have "\<dots> = bslice off (off + 4 * Suc n) b" using bslice_glue [of off "off + 4 * n" "off + 4 * n + 4" b] by (simp add: add.assoc add.commute [of 4])
  finally show ?case .
qed

lemma small_size:
  fixes x :: int
  assumes "int n = x mod 2 ^ 64" and "n < 2 ^ 63" and "- (2 ^ 31) \<le> x" and "x < 2 ^ 31"
  shows "n < 2 ^ 31"
proof (cases "x < 0")
  case True
  then have "x mod 2 ^ 64 = x + 2 ^ 64" using assms(3) mod_pos_pos_trivial [of "x + 2 ^ 64" "2 ^ 64"] by simp
  then show ?thesis using assms by simp
next
  case False
  then have "x mod 2 ^ 64 = x" using assms(4) by (intro mod_pos_pos_trivial) simp_all
  then show ?thesis using assms by simp
qed

lemma as_usize_small: "as_usize t < 2 ^ 63 \<Longrightarrow> as_usize t < 2 ^ 31 \<and> t = of_nat (as_usize t)"
proof -
  assume small: "as_usize t < 2 ^ 63"
  have "uint (scast t :: u64) = sint t mod 2 ^ 64"
    unfolding scast_eq uint_word_of_int by simp
  then have "int (as_usize t) = sint t mod 2 ^ 64" by (simp add: as_usize_def)
  from small_size [OF this small] have "as_usize t < 2 ^ 31" using sint_ge [of t] sint_less [of t] by simp
  then show ?thesis using as_usize_inv [of t] by simp
qed

lemma load_image:
  assumes "adapter_wf a" and "length (adapter_image a @ rest) < 2 ^ 63"
  shows "adapter_load (Some (adapter_image a @ rest)) = Some (Inr a)"
proof -
  define b where "b = adapter_image a @ rest"
  note wf = assms(1) [unfolded adapter_wf_def]
  let ?h = "to_le 4 (of_nat (din a) :: i32) @ to_le 4 (of_nat (dout a) :: i32)"
  let ?e = "\<lambda>xs :: f32 list. concat (map (to_le 4) xs)"
  have b: "b = ?h @ ?e (gmu a) @ ?e (gsd a) @ ?e (qmu a) @ ?e (qsd a) @ ?e (aw a) @ rest"
    by (simp add: b_def adapter_image_def)
  have hd: "as_usize (from_le (bslice 0 4 b)) = din a" "as_usize (from_le (bslice 4 8 b)) = dout a"
    using wf by (simp_all add: b bslice_def from_le_to_le as_usize_of_nat)
  have len: "length b = 8 + 4 * (2 * din a + 2 * dout a + din a * dout a) + length rest" using wf by (simp add: b)
  have small: "din a * dout a < 2 ^ 64" "8 + 4 * (2 * din a + 2 * dout a + din a * dout a) < 2 ^ 64"
    using assms(2) len unfolding b_def [symmetric] by simp_all
  have f: "f32s_at b 8 (din a) = gmu a" "f32s_at b (8 + 4 * din a) (din a) = gsd a" "f32s_at b (8 + 8 * din a) (dout a) = qmu a"
    "f32s_at b (8 + 8 * din a + 4 * dout a) (dout a) = qsd a"
    "f32s_at b (8 + 8 * din a + 8 * dout a) (din a * dout a) = aw a"
    using f32s_at_stream [of ?h 8 "gmu a" "?e (gsd a) @ ?e (qmu a) @ ?e (qsd a) @ ?e (aw a) @ rest"]
      f32s_at_stream [of "?h @ ?e (gmu a)" "8 + 4 * din a" "gsd a" "?e (qmu a) @ ?e (qsd a) @ ?e (aw a) @ rest"]
      f32s_at_stream [of "?h @ ?e (gmu a) @ ?e (gsd a)" "8 + 8 * din a" "qmu a" "?e (qsd a) @ ?e (aw a) @ rest"]
      f32s_at_stream [of "?h @ ?e (gmu a) @ ?e (gsd a) @ ?e (qmu a)" "8 + 8 * din a + 4 * dout a" "qsd a" "?e (aw a) @ rest"]
      f32s_at_stream [of "?h @ ?e (gmu a) @ ?e (gsd a) @ ?e (qmu a) @ ?e (qsd a)" "8 + 8 * din a + 8 * dout a" "aw a" rest]
      wf by (simp_all add: b)
  show ?thesis unfolding b_def [symmetric] using small by (simp add: adapter_load_def Let_def hd f len)
qed

lemma load_inv:
  assumes "adapter_load (Some b) = Some (Inr a)" and "length b < 2 ^ 63"
  shows "adapter_wf a \<and> (\<exists>rest. b = adapter_image a @ rest)"
proof -
  define m n where "m = as_usize (from_le (bslice 0 4 b))" and "n = as_usize (from_le (bslice 4 8 b))"
  define p where "p = m * n mod 2 ^ 64"
  let ?k = "8 + 4 * (2 * m + 2 * n + p)"
  have l: "8 \<le> length b" "?k \<le> length b" and a: "a = \<lparr>din = m, dout = n, gmu = f32s_at b 8 m, gsd = f32s_at b (8 + 4 * m) m,
      qmu = f32s_at b (8 + 8 * m) n, qsd = f32s_at b (8 + 8 * m + 4 * n) n, aw = f32s_at b (8 + 8 * m + 8 * n) p\<rparr>"
    using assms(1) by (auto simp: adapter_load_def Let_def m_def n_def p_def split: if_splits)
  have "m < 2 ^ 63" "n < 2 ^ 63" using l(2) assms(2) by simp_all
  then have small: "m < 2 ^ 31" "n < 2 ^ 31" and w: "(from_le (bslice 0 4 b) :: i32) = of_nat m" "(from_le (bslice 4 8 b) :: i32) = of_nat n"
    using as_usize_small unfolding m_def n_def by blast+
  have "m * n < 2 ^ 31 * 2 ^ 31" using small by (intro mult_strict_mono) simp_all
  then have p: "p = m * n" by (simp add: p_def)
  have "to_le 4 (of_nat m :: i32) = bslice 0 4 b" "to_le 4 (of_nat n :: i32) = bslice 4 8 b"
    using l(1) unfolding w [symmetric] by (simp_all add: to_le_from_le_widths(2))
  then have "adapter_image a = bslice 0 4 b @ bslice 4 8 b @ bslice 8 (8 + 4 * m) b @ bslice (8 + 4 * m) (8 + 8 * m) b @
      bslice (8 + 8 * m) (8 + 8 * m + 4 * n) b @ bslice (8 + 8 * m + 4 * n) (8 + 8 * m + 8 * n) b @ bslice (8 + 8 * m + 8 * n) ?k b"
    using l(2) stream_f32s_at [of 8 m b] stream_f32s_at [of "8 + 4 * m" m b] stream_f32s_at [of "8 + 8 * m" n b]
      stream_f32s_at [of "8 + 8 * m + 4 * n" n b] stream_f32s_at [of "8 + 8 * m + 8 * n" p b]
    by (simp add: adapter_image_def a algebra_simps)
  also have "\<dots> = take ?k b" by (simp add: bslice_glue) (simp add: bslice_def)
  finally have "b = adapter_image a @ drop ?k b" by simp
  then show ?thesis using small p by (auto simp: adapter_wf_def a f32s_at_def)
qed

text \<open>
  C26. The adapter file is read exactly: an adapter is returned if and only if it is well formed and the file starts with
  its image, bytes after it being ignored; no short file is ever read as an adapter.
\<close>

theorem adapter_file_exact:
  assumes "length b < 2 ^ 63"
  shows "adapter_load (Some b) = Some (Inr a) \<longleftrightarrow> adapter_wf a \<and> (\<exists>rest. b = adapter_image a @ rest)"
  using load_inv [OF _ assms] load_image assms by blast

theorem adapter_file_exact_witness:
  "adapter_load (Some (adapter_image \<lparr>din = 1, dout = 2, gmu = [1], gsd = [2], qmu = [3, 4], qsd = [5, 6], aw = [7, 8]\<rparr> @ [9])) =
     Some (Inr \<lparr>din = 1, dout = 2, gmu = [1], gsd = [2], qmu = [3, 4], qsd = [5, 6], aw = [7, 8]\<rparr>)"
  (is "adapter_load (Some (adapter_image ?a @ _)) = _")
proof -
  have "length (adapter_image ?a @ [9]) < 2 ^ 63" by (simp add: adapter_image_def)
  then show ?thesis using adapter_file_exact [of "adapter_image ?a @ [9]" ?a] by (auto simp: adapter_wf_def)
qed

text \<open>A negative size passes the length check, whose sum has wrapped, and ends the process.\<close>

lemma adapter_negative_panics:
  "adapter_load (Some (to_le 4 (- 1 :: i32) @ to_le 4 (2 :: i32))) = None"
proof -
  have "unat (- 1 :: u64) = 2 ^ 64 - 1" unfolding unsigned_minus_1_eq_mask mask_eq_exp_minus_1 by simp
  then show ?thesis by (simp add: adapter_load_def bslice_def from_le_to_le as_usize_def Let_def)
qed

end
