(* ===== verification/Qwen_Lane.thy ===== *)
theory Qwen_Lane
  imports Session
begin

text \<open>
  \<^verbatim>\<open>qwen36_lane.rs\<close>: one greedy turn of the hybrid model, with a fresh recurrent state. The C functions are the record
  \<open>q36_api\<close> over the state of the library, a state is an address (0 is \<^verbatim>\<open>NULL\<close>). The client callback is a function on the
  state of the client. The sum of the bound check wraps, as in a release build. Booting the GPU, the timing and the
  allocation of the output buffer are left out.
\<close>

record 'w q36_api =
  q_new :: "i32 \<Rightarrow> 'w \<Rightarrow> nat \<times> 'w"
  q_free :: "nat \<Rightarrow> 'w \<Rightarrow> 'w"
  q_step :: "nat \<Rightarrow> i32 \<Rightarrow> f32 list \<Rightarrow> 'w \<Rightarrow> i32 \<times> f32 list \<times> 'w"

record lane =
  pmax :: i32
  n_vocab :: nat

datatype lane_error = EmptyPrompt | TooLong nat nat i32 | StateNew | PrefillStep i32 | DecodeStep i32

fun lane_prefill :: "'w q36_api \<Rightarrow> nat \<Rightarrow> i32 list \<Rightarrow> f32 list \<Rightarrow> 'w \<Rightarrow> (lane_error + unit) \<times> f32 list \<times> 'w" where
  "lane_prefill api st [] l w = (Inr (), l, w)"
| "lane_prefill api st (t # ts) l w =
     (case q_step api st t l w of (rc, l', w') \<Rightarrow>
        if rc \<noteq> 0 then (Inl (PrefillStep rc), l', q_free api st w') else lane_prefill api st ts l' w')"

text \<open>The loop ends: a further step is only taken while fewer than \<open>max_new\<close> tokens are out.\<close>

function lane_loop ::
  "'w q36_api \<Rightarrow> nat \<Rightarrow> i32 list \<Rightarrow> (i32 \<Rightarrow> 'c \<Rightarrow> bool \<times> 'c) \<Rightarrow> nat \<Rightarrow> f32 list \<Rightarrow> i32 list \<Rightarrow> 'c \<Rightarrow> 'w \<Rightarrow>
     (lane_error + i32 list) \<times> 'c \<times> 'w" where
  "lane_loop api st eos on_tok max_new l out c w =
     (let nxt = dialogue_argmax l in
      if nxt \<in> set eos then (Inr out, c, w)
      else let out' = out @ [nxt]; (ok, c') = on_tok nxt c in
           if \<not> ok \<or> max_new \<le> length out' then (Inr out', c', w)
           else case q_step api st nxt l w of (rc, l', w') \<Rightarrow>
              if rc \<noteq> 0 then (Inl (DecodeStep rc), c', q_free api st w')
              else lane_loop api st eos on_tok max_new l' out' c' w')"
  by pat_completeness auto
termination
  by (relation "measure (\<lambda>(api, st, eos, on_tok, max_new, l, out, c, w). max_new - length out)") auto

declare lane_loop.simps [simp del]

definition lane_turn ::
  "'w q36_api \<Rightarrow> lane \<Rightarrow> i32 list \<Rightarrow> nat \<Rightarrow> i32 list \<Rightarrow> (i32 \<Rightarrow> 'c \<Rightarrow> bool \<times> 'c) \<Rightarrow> 'c \<Rightarrow> 'w \<Rightarrow>
     (lane_error + i32 list) \<times> 'c \<times> 'w" where
  "lane_turn api ln prompt max_new eos on_tok c w =
     (if prompt = [] then (Inl EmptyPrompt, c, w)
      else if pmax ln \<le>s of_nat (length prompt) + of_nat max_new then (Inl (TooLong (length prompt) max_new (pmax ln)), c, w)
      else case q_new api (pmax ln) w of (st, w1) \<Rightarrow>
        if st = 0 then (Inl StateNew, c, w1)
        else case lane_prefill api st prompt (replicate (n_vocab ln) 0) w1 of
            (Inl e, _, w2) \<Rightarrow> (Inl e, c, w2)
          | (Inr _, l, w2) \<Rightarrow>
              (case lane_loop api st eos on_tok max_new l [] c w2 of
                 (Inl e, c', w3) \<Rightarrow> (Inl e, c', w3)
               | (Inr out, c', w3) \<Rightarrow> (Inr out, c', q_free api st w3)))"

subsection \<open>A turn is greedy decoding\<close>

text \<open>
  What the library promises: \<open>hist d st\<close> are the tokens a live state has seen; a step appends its token and returns the
  model's logits after the whole history; a new state is empty.
\<close>

definition q36_contract :: "'w q36_api \<Rightarrow> ('w \<Rightarrow> nat \<Rightarrow> i32 list option) \<Rightarrow> (i32 list \<Rightarrow> f32 list) \<Rightarrow> bool" where
  "q36_contract api hist fwd \<longleftrightarrow>
     (\<forall>p d. case q_new api p d of (st, d') \<Rightarrow> st \<noteq> 0 \<and> hist d st = None \<and> hist d' = (hist d)(st \<mapsto> [])) \<and>
     (\<forall>st d. hist (q_free api st d) = (hist d)(st := None)) \<and>
     (\<forall>st t l d h. hist d st = Some h \<longrightarrow>
        (case q_step api st t l d of (rc, l', d') \<Rightarrow> rc = 0 \<and> l' = fwd (h @ [t]) \<and> hist d' = (hist d)(st \<mapsto> h @ [t])))"

lemma q36_contractD:
  assumes "q36_contract api hist fwd"
  shows "q_new api p d = (st, d') \<Longrightarrow> st \<noteq> 0 \<and> hist d st = None \<and> hist d' = (hist d)(st \<mapsto> [])"
    and "hist (q_free api st d) = (hist d)(st := None)"
    and "hist d st = Some h \<Longrightarrow> q_step api st t l d = (rc, l', d') \<Longrightarrow>
      rc = 0 \<and> l' = fwd (h @ [t]) \<and> hist d' = (hist d)(st \<mapsto> h @ [t])"
proof -
  note c = assms [unfolded q36_contract_def]
  show "st \<noteq> 0 \<and> hist d st = None \<and> hist d' = (hist d)(st \<mapsto> [])" if "q_new api p d = (st, d')"
    using conjunct1 [OF c, rule_format, where p = p and d = d] that by simp
  show "hist (q_free api st d) = (hist d)(st := None)" using c by blast
  show "rc = 0 \<and> l' = fwd (h @ [t]) \<and> hist d' = (hist d)(st \<mapsto> h @ [t])"
    if "hist d st = Some h" "q_step api st t l d = (rc, l', d')"
    using conjunct2 [OF conjunct2 [OF c], rule_format, OF that(1), where t = t and l = l] that(2) by simp
qed

lemma lane_prefill_greedy:
  assumes "q36_contract api hist fwd"
  shows "hist d st = Some h \<Longrightarrow> ts \<noteq> [] \<Longrightarrow> \<exists>d'. lane_prefill api st ts l d = (Inr (), fwd (h @ ts), d') \<and>
    hist d' = (hist d)(st \<mapsto> h @ ts)"
proof (induction ts arbitrary: h l d)
  case (Cons t ts)
  obtain rc l' d' where s: "q_step api st t l d = (rc, l', d')" by (metis prod_cases3)
  note m = q36_contractD(3) [OF assms Cons.prems(1) s]
  show ?case
  proof (cases "ts = []")
    case True
    then show ?thesis using s m by (auto simp: fun_eq_iff)
  next
    case False
    have "hist d' st = Some (h @ [t])" using m by simp
    then obtain d2 where d2: "lane_prefill api st ts l' d' = (Inr (), fwd (h @ t # ts), d2)" "hist d2 = (hist d')(st \<mapsto> h @ t # ts)"
      using Cons.IH [of d' "h @ [t]" l', unfolded append.assoc append_Cons append_Nil] False by blast
    then have "hist d2 = (hist d)(st \<mapsto> h @ t # ts)" using m by (auto simp: fun_eq_iff)
    then show ?thesis using d2(1) s m by (auto simp: fun_eq_iff)
  qed
qed simp

lemma lane_loop_greedy:
  assumes "q36_contract api hist fwd" and "\<forall>t c. fst (on_tok t c)"
  shows "hist d st = Some h \<Longrightarrow> l = fwd h \<Longrightarrow> length out < max_new \<or> out = [] \<Longrightarrow>
    \<exists>c' d'. lane_loop api st eos on_tok max_new l out c d =
      (Inr (out @ takeWhile (\<lambda>t. t \<notin> set eos) (greedy dialogue_argmax fwd h (max 1 (max_new - length out)))), c', d') \<and>
      (\<exists>h'. hist d' = (hist d)(st \<mapsto> h'))"
proof (induction "max_new - length out" arbitrary: h l out c d)
  case less: 0
  then have out: "out = []" "max_new = 0" by auto
  obtain c' where on: "on_tok (dialogue_argmax l) c = (True, c')" using assms(2) by (metis prod.collapse)
  have "hist d = (hist d)(st \<mapsto> h)" using less.prems(1) by auto
  then show ?case using out on less.prems by (subst lane_loop.simps) (auto simp: Let_def)
next
  case (Suc n)
  let ?t = "dialogue_argmax l"
  have m: "max 1 (max_new - length out) = Suc n" using Suc.hyps(2) by simp
  have same: "hist d = (hist d)(st \<mapsto> h)" using Suc.prems(1) by auto
  show ?case
  proof (cases "?t \<in> set eos")
    case True
    then show ?thesis using m same Suc.prems(2) by (subst lane_loop.simps) (auto simp: Let_def)
  next
    case False
    obtain c' where on: "on_tok ?t c = (True, c')" using assms(2) by (metis prod.collapse)
    show ?thesis
    proof (cases "n = 0")
      case True
      then have "max_new \<le> length (out @ [?t])" using Suc.hyps(2) by simp
      then show ?thesis using m True same False on Suc.prems(2) by (subst lane_loop.simps) (auto simp: Let_def)
    next
      case n: False
      obtain rc l' d' where s: "q_step api st ?t l d = (rc, l', d')" by (metis prod_cases3)
      note r = q36_contractD(3) [OF assms(1) Suc.prems(1) s]
      have len: "n = max_new - length (out @ [?t])" "length (out @ [?t]) < max_new" using Suc.hyps(2) n by simp_all
      have "hist d' st = Some (h @ [?t])" using r by simp
      from Suc.hyps(1) [OF len(1) this] obtain c2 d2 where rec:
        "lane_loop api st eos on_tok max_new l' (out @ [?t]) c' d' =
          (Inr ((out @ [?t]) @ takeWhile (\<lambda>t. t \<notin> set eos) (greedy dialogue_argmax fwd (h @ [?t]) (max 1 n))), c2, d2)"
        "\<exists>h'. hist d2 = (hist d')(st \<mapsto> h')"
        using r len by blast
      have "max 1 n = n" using n by simp
      then show ?thesis using rec r s on False len(2) m Suc.prems(2)
        by (subst lane_loop.simps) (auto simp: Let_def)
    qed
  qed
qed

text \<open>
  C11. A turn of the lane is greedy decoding of the prompt: the tokens before the first end token of the greedy continuation,
  at most \<open>max_new\<close> of them but one even when \<open>max_new\<close> is 0. The state it allocated is freed, all others are untouched.
\<close>

theorem lane_turn_greedy:
  assumes "q36_contract api hist fwd" and "\<forall>t c. fst (on_tok t c)" and "prompt \<noteq> []"
    and "length prompt + max_new < nat (sint (pmax ln))"
  shows "\<exists>c' w'. lane_turn api ln prompt max_new eos on_tok c w =
      (Inr (takeWhile (\<lambda>t. t \<notin> set eos) (greedy dialogue_argmax fwd prompt (max 1 max_new))), c', w') \<and> hist w' = hist w"
proof -
  have s: "sint (pmax ln) < 2 ^ 31" using sint_lt [of "pmax ln"] by simp
  have "int (length prompt + max_new) < sint (pmax ln)" using assms(4) by linarith
  then have fits: "\<not> pmax ln \<le>s of_nat (length prompt) + of_nat max_new"
    using s by (simp add: word_sle_eq signed_of_nat signed_take_bit_int_eq_self flip: of_nat_add)
  obtain st w1 where new: "q_new api (pmax ln) w = (st, w1)" by fastforce
  note n = q36_contractD(1) [OF assms(1) new]
  have "hist w1 st = Some []" using n by simp
  then obtain w2 where pre: "lane_prefill api st prompt (replicate (n_vocab ln) 0) w1 = (Inr (), fwd prompt, w2)"
    "hist w2 = (hist w1)(st \<mapsto> prompt)"
    using lane_prefill_greedy [OF assms(1) _ assms(3)] by fastforce
  have "hist w2 st = Some prompt" using pre(2) by simp
  from lane_loop_greedy [where on_tok = on_tok, OF assms(1,2) this refl, where out = "[]" and max_new = max_new and eos = eos and c = c] obtain c' w3 h' where loop:
    "lane_loop api st eos on_tok max_new (fwd prompt) [] c w2 =
      (Inr (takeWhile (\<lambda>t. t \<notin> set eos) (greedy dialogue_argmax fwd prompt (max 1 max_new))), c', w3)" "hist w3 = (hist w2)(st \<mapsto> h')"
    by auto
  have "hist (q_free api st w3) = hist w" using q36_contractD(2) [OF assms(1), of st w3] loop(2) pre(2) n by (simp add: fun_upd_idem_iff)
  then show ?thesis using assms(3) fits new n pre(1) loop(1) by (simp add: lane_turn_def)
qed

text \<open>
  The check of the context length is made on 32-bit numbers: a request for \<open>2 ^ 32 - n\<close> tokens after a prompt of \<open>n\<close> passes
  it, whatever the size of the context.
\<close>

lemma lane_bound_wraps:
  assumes "n \<le> 2 ^ 32" and "0 <s pmax ln"
  shows "\<not> pmax ln \<le>s of_nat n + of_nat (2 ^ 32 - n)"
proof -
  have "(of_nat n :: i32) + of_nat (2 ^ 32 - n) = of_nat (n + (2 ^ 32 - n))" by (rule of_nat_add [symmetric])
  also have "\<dots> = of_nat (2 ^ 32)" using assms(1) by simp
  also have "\<dots> = 0" by (simp add: word_of_nat_eq_0_iff)
  finally show ?thesis using assms(2) by (simp add: word_sless_alt word_sle_eq)
qed

text \<open>The library as the list of the live states with the tokens they have seen, and a model that always prefers token 1.\<close>

definition list_api :: "(nat \<times> i32 list) list q36_api" where
  "list_api = \<lparr>q_new = (\<lambda>p d. let st = Suc (sum_list (map fst d)) in (st, (st, []) # d)),
     q_free = (\<lambda>st d. filter (\<lambda>x. fst x \<noteq> st) d),
     q_step = (\<lambda>st t l d. (0, [0, 0x3F800000], (st, the (map_of d st) @ [t]) # d))\<rparr>"

lemma list_api_contract: "q36_contract list_api map_of (\<lambda>_. [0, 0x3F800000])"
proof -
  have fresh: "map_of d (Suc (sum_list (map fst d))) = None" for d :: "(nat \<times> i32 list) list"
  proof -
    have "Suc (sum_list (map fst d)) \<notin> set (map fst d)" using member_le_sum_list [of _ "map fst d"] by fastforce
    then show ?thesis by (simp add: map_of_eq_None_iff)
  qed
  have free: "map_of (filter (\<lambda>x. fst x \<noteq> st) d) = (map_of d)(st := None)" for st and d :: "(nat \<times> i32 list) list"
    by (induction d) (auto simp: fun_eq_iff)
  show ?thesis using fresh by (auto simp: q36_contract_def list_api_def free Let_def)
qed

theorem lane_turn_greedy_witness:
  "(\<exists>c w'. lane_turn list_api \<lparr>pmax = 16, n_vocab = 2\<rparr> [5] 3 [] (\<lambda>t c. (True, c @ [t])) [] [] = (Inr [1, 1, 1], c, w') \<and> map_of w' = map_of []) \<and>
   (\<exists>c w'. lane_turn list_api \<lparr>pmax = 16, n_vocab = 2\<rparr> [5] 0 [] (\<lambda>t c. (True, c @ [t])) [] [] = (Inr [1], c, w') \<and> map_of w' = map_of [])"
proof -
  have pick: "dialogue_argmax [0, 0x3F800000] = 1"
    by (simp add: dialogue_argmax_def f32_gt_def f32_key_def f32_nan_def NEG_INFINITY_def bit_numeral_rec)
  have g: "greedy dialogue_argmax (\<lambda>_. [0, 0x3F800000]) h 3 = [1, 1, 1]" "greedy dialogue_argmax (\<lambda>_. [0, 0x3F800000]) h 1 = [1]" for h
    by (simp_all add: numeral_3_eq_3 pick)
  show ?thesis
    using lane_turn_greedy [OF list_api_contract, of "\<lambda>t c. (True, c @ [t])" "[5]" 3 "\<lparr>pmax = 16, n_vocab = 2\<rparr>" "[]" "[]" "[]"]
      lane_turn_greedy [OF list_api_contract, of "\<lambda>t c. (True, c @ [t])" "[5]" 0 "\<lparr>pmax = 16, n_vocab = 2\<rparr>" "[]" "[]" "[]"]
    by (simp add: g pick)
qed

end
