(* ===== verification/Mining.thy ===== *)
theory Mining
  imports Rust_Str
begin

text \<open>
  \<^verbatim>\<open>mining.rs\<close>: the background loop that feeds random candidate trees to the sieve and mints a signed receipt for every
  sieve event. The sieve (a C function), the random bytes, the clock and the signature are inputs of a step; the store of
  receipts, the frontier and the round counter are its state. A panic (more events than the buffer holds) is \<open>None\<close>.
\<close>

definition BATCH_SIZE :: nat where "BATCH_SIZE = 64"
definition FRONTIER_CAP :: nat where "FRONTIER_CAP = 256"
definition LABEL_BYTES :: nat where "LABEL_BYTES = 48"
definition LABEL_OFF :: nat where "LABEL_OFF = 8"

text \<open>\<open>rnd\<close> are the 48 random bytes of the label region.\<close>

definition synthetic_kste :: "bytes \<Rightarrow> bytes" where
  "synthetic_kste rnd = [1, 3, 3] @ replicate (LABEL_OFF - 3) 0 @ rnd @ replicate (64 - LABEL_OFF - LABEL_BYTES) 0"

definition pack_receipt :: "bytes \<Rightarrow> bytes \<Rightarrow> bytes \<Rightarrow> u64 \<Rightarrow> u64 \<Rightarrow> bytes" where
  "pack_receipt sg seq_hash pubkey rnd_no minted_at_ns =
     map of_char ''SPRCPT01'' @ sg @ seq_hash @ pubkey @ to_le 8 rnd_no @ to_le 8 minted_at_ns"

definition hex_encode :: "bytes \<Rightarrow> ustr" where
  "hex_encode bs = concat (map (\<lambda>b. [nibble (unat b div 16), nibble (unat b mod 16)]) bs)"

record sieve_event =
  ev_sig :: bytes
  ev_seq_hash :: bytes

record receipt_record =
  payload_hex :: ustr
  sig_hex_text :: ustr
  rr_round :: u64

text \<open>What one call of the sieve gives: the status, the frontier, its length, the event buffer and the number of events.\<close>

record sieve_result =
  sv_rc :: int
  sv_frontier :: "bytes list"
  sv_frontier_n :: nat
  sv_events :: "sieve_event list"
  sv_n_events :: nat

record miner =
  frontier :: "bytes list"
  frontier_n :: nat
  global_round :: u64
  receipt_store :: "receipt_record list"
  minted :: "(ustr \<times> ustr) list"

definition miner_init :: miner where
  "miner_init = \<lparr>frontier = replicate FRONTIER_CAP (replicate 64 0), frontier_n = 0, global_round = 0, receipt_store = [], minted = []\<rparr>"

definition mint_one :: "(bytes \<Rightarrow> bytes) \<Rightarrow> bytes \<Rightarrow> sieve_event \<Rightarrow> u64 \<Rightarrow> miner \<Rightarrow> miner" where
  "mint_one sign pubkey ev now m =
     (let receipt = pack_receipt (ev_sig ev) (ev_seq_hash ev) pubkey (global_round m) now;
          rec = \<lparr>payload_hex = hex_encode receipt, sig_hex_text = hex_encode (sign receipt), rr_round = global_round m\<rparr>
      in m\<lparr>receipt_store := receipt_store m @ [rec], minted := minted m @ [(payload_hex rec, sig_hex_text rec)],
           global_round := global_round m + 1\<rparr>)"

text \<open>One round of the loop; \<open>clock\<close> is the time of each event, \<open>rnd\<close> the random bytes of each candidate.\<close>

definition mine_step ::
  "(bytes \<Rightarrow> bytes) \<Rightarrow> bytes \<Rightarrow> (bytes list \<Rightarrow> bytes list \<Rightarrow> nat \<Rightarrow> sieve_result) \<Rightarrow> bool \<Rightarrow> (nat \<Rightarrow> bytes) \<Rightarrow> (nat \<Rightarrow> u64) \<Rightarrow>
     miner \<Rightarrow> miner option" where
  "mine_step sign pubkey sieve inference_active rnd clock m =
     (if inference_active then Some m
      else let batch = map (\<lambda>i. synthetic_kste (rnd i)) [0..<BATCH_SIZE];
               r = sieve batch (frontier m) (frontier_n m);
               m1 = m\<lparr>frontier := sv_frontier r, frontier_n := (if sv_rc r = - 30 then 0 else sv_frontier_n r)\<rparr>
           in if length (sv_events r) < sv_n_events r then None
              else Some (foldl (\<lambda>m i. mint_one sign pubkey (sv_events r ! i) (clock i) m) m1 [0..<sv_n_events r]))"

text \<open>The miner after any number of rounds.\<close>

inductive mined :: "(bytes \<Rightarrow> bytes) \<Rightarrow> bytes \<Rightarrow> miner \<Rightarrow> bool" for sign pubkey where
  start: "mined sign pubkey miner_init"
| step: "mined sign pubkey m \<Longrightarrow>
    (\<And>b f n. let r = sieve b f n in \<forall>e \<in> set (sv_events r). length (ev_sig e) = 64 \<and> length (ev_seq_hash e) = 32) \<Longrightarrow>
    mine_step sign pubkey sieve active rnd clock m = Some m' \<Longrightarrow> mined sign pubkey m'"

subsection \<open>The receipts\<close>

lemma pack_receipt_layout:
  assumes "length sg = 64" and "length sh = 32" and "length pk = 32"
  shows "length (pack_receipt sg sh pk n t) = 152" "bslice 8 72 (pack_receipt sg sh pk n t) = sg"
    "bslice 72 104 (pack_receipt sg sh pk n t) = sh" "bslice 104 136 (pack_receipt sg sh pk n t) = pk"
    "from_le (bslice 136 144 (pack_receipt sg sh pk n t)) = n" "from_le (bslice 144 152 (pack_receipt sg sh pk n t)) = t"
  using assms by (simp_all add: pack_receipt_def bslice_def length_to_le from_le_to_le)

lemma hex_encode_ref: "hex_encode = hex_enc_ref"
  by (simp add: fun_eq_iff hex_encode_def hex_enc_ref_def)

definition mined_receipt_ok :: "(bytes \<Rightarrow> bytes) \<Rightarrow> bytes \<Rightarrow> nat \<Rightarrow> receipt_record \<Rightarrow> bool" where
  "mined_receipt_ok sign pk i r \<longleftrightarrow> rr_round r = of_nat i \<and>
     (\<exists>p. hex_dec_ref (payload_hex r) = Some p \<and> length p = 152 \<and> take 8 p = map of_char ''SPRCPT01'' \<and>
        bslice 104 136 p = pk \<and> from_le (bslice 136 144 p) = (of_nat i :: u64) \<and> hex_dec_ref (sig_hex_text r) = Some (sign p))"

definition miner_ok :: "(bytes \<Rightarrow> bytes) \<Rightarrow> bytes \<Rightarrow> miner \<Rightarrow> bool" where
  "miner_ok sign pk m \<longleftrightarrow> global_round m = of_nat (length (receipt_store m)) \<and>
     (\<forall>i < length (receipt_store m). mined_receipt_ok sign pk i (receipt_store m ! i)) \<and>
     minted m = map (\<lambda>r. (payload_hex r, sig_hex_text r)) (receipt_store m)"

lemma mint_one_ok:
  assumes "miner_ok sign pk m" and "length (ev_sig ev) = 64" and "length (ev_seq_hash ev) = 32" and "length pk = 32"
  shows "miner_ok sign pk (mint_one sign pk ev now m)"
proof -
  let ?n = "length (receipt_store m)"
  let ?p = "pack_receipt (ev_sig ev) (ev_seq_hash ev) pk (global_round m) now"
  have r: "global_round m = of_nat ?n" using assms(1) by (simp add: miner_ok_def)
  have p: "length ?p = 152" "bslice 104 136 ?p = pk" "from_le (bslice 136 144 ?p) = (of_nat ?n :: u64)"
    using pack_receipt_layout [OF assms(2-4)] r by simp_all
  have "take 8 ?p = map of_char ''SPRCPT01''" by (simp add: pack_receipt_def)
  moreover have "hex_dec_ref (hex_encode bs) = Some bs" for bs
    using hex_ref_contract by (simp add: hex_contract_def hex_encode_ref)
  ultimately have new: "mined_receipt_ok sign pk ?n \<lparr>payload_hex = hex_encode ?p, sig_hex_text = hex_encode (sign ?p), rr_round = global_round m\<rparr>"
    using p r unfolding mined_receipt_ok_def by (intro conjI exI [of _ ?p]) simp_all
  then show ?thesis using assms(1) r
    by (auto simp: miner_ok_def mint_one_def Let_def nth_append less_Suc_eq)
qed

lemma mint_all_ok:
  assumes "miner_ok sign pk m" and "\<forall>i \<in> set is. i < length evs" and "\<forall>e \<in> set evs. length (ev_sig e) = 64 \<and> length (ev_seq_hash e) = 32"
    and "length pk = 32"
  shows "miner_ok sign pk (foldl (\<lambda>m i. mint_one sign pk (evs ! i) (clock i) m) m is)"
  using assms
proof (induction "is" arbitrary: m)
  case (Cons i ks)
  then show ?case using mint_one_ok [of sign pk m "evs ! i" "clock i"] by simp
qed simp

text \<open>
  C16. Whatever the sieve reports, the store of receipts is always well-formed: the receipt at place \<open>i\<close> carries round \<open>i\<close> in
  its record and in its payload, the payload has the 152-byte layout with the node's key, the signature is the signature of
  exactly that payload, and the mint events sent are the receipts of the store in order.
\<close>

theorem mined_store_ok:
  assumes "mined sign pk m" and "length pk = 32"
  shows "miner_ok sign pk m"
  using assms
proof (induction rule: mined.induct)
  case start
  then show ?case by (simp add: miner_ok_def miner_init_def)
next
  case (step m sieve active rnd clock m')
  let ?r = "sieve (map (\<lambda>i. synthetic_kste (rnd i)) [0..<BATCH_SIZE]) (frontier m) (frontier_n m)"
  let ?m1 = "m\<lparr>frontier := sv_frontier ?r, frontier_n := (if sv_rc ?r = - 30 then 0 else sv_frontier_n ?r)\<rparr>"
  have "miner_ok sign pk ?m1" using step.IH step.prems by (simp add: miner_ok_def)
  moreover have "\<forall>e \<in> set (sv_events ?r). length (ev_sig e) = 64 \<and> length (ev_seq_hash e) = 32"
    using step.hyps(2) by (simp add: Let_def)
  ultimately have "sv_n_events ?r \<le> length (sv_events ?r) \<Longrightarrow>
      miner_ok sign pk (foldl (\<lambda>m i. mint_one sign pk (sv_events ?r ! i) (clock i) m) ?m1 [0..<sv_n_events ?r])"
    using step.prems by (intro mint_all_ok) auto
  then show ?case using step.hyps(3) step.IH step.prems by (auto simp: mine_step_def Let_def split: if_splits)
qed

theorem mined_store_ok_witness:
  "\<exists>m. mined (\<lambda>p. [1]) (replicate 32 9) m \<and> length (receipt_store m) = 1 \<and> miner_ok (\<lambda>p. [1]) (replicate 32 9) m"
proof -
  let ?ev = "\<lparr>ev_sig = replicate 64 0, ev_seq_hash = replicate 32 0\<rparr>"
  let ?sv = "\<lambda>b f n. \<lparr>sv_rc = 0, sv_frontier = f, sv_frontier_n = n, sv_events = [?ev], sv_n_events = 1\<rparr>"
  obtain m where m: "mine_step (\<lambda>p. [1]) (replicate 32 9) ?sv False (\<lambda>_. replicate 48 0) (\<lambda>_. 0) miner_init = Some m" "length (receipt_store m) = 1"
    by (simp add: mine_step_def Let_def mint_one_def miner_init_def)
  have "mined (\<lambda>p. [1]) (replicate 32 9) m" by (rule mined.step [OF mined.start _ m(1)]) simp
  then show ?thesis using mined_store_ok [of "\<lambda>p. [1]" "replicate 32 9" m] m(2) by auto
qed

end
