(* ===== verification/Spec2Isabelle.thy ===== *)
theory Spec2Isabelle
  imports Spec_Decode Pouw_Ledger Crt_Garner Dialogue_Runner Memo_Routing Quic_Shard Ring2_Quic
    Swarm_Transport Similarity Sampler Token_Stream Chat Kairos_Runner Islands_Kernels Islands_Cordic Recall
    Nightshift Telepathy Qwen_Lane Mining
begin

text \<open>
  The Shannon-Prime system engine is a local inference daemon (\<^verbatim>\<open>src/tools/sp_daemon\<close>) around a C and
  CUDA math core, with a peer-to-peer memory exchange (\<^verbatim>\<open>src/tools/sp_swarm\<close>) and two crates of exact
  dual-prime arithmetic (\<^verbatim>\<open>src/tools/sp_trick1\<close>, \<^verbatim>\<open>src/tools/sp_dsp_smoke\<close>). The math core is a
  submodule that is not in the repository; this development models the Rust code around it and takes the
  core, the crates it calls and the devices as parameters.

  \<^bold>\<open>Foundations.\<close>
  \<^item> \<open>SP_Prelude\<close>: machine words, little-endian images, byte chunks; the locales \<open>fixed_codec\<close> and
    \<open>exact_codec\<close> of byte codecs and \<open>upsert\<close> of insert-or-replace tables, interpreted where a component
    provides one.
  \<^item> \<open>Float32\<close>: \<^verbatim>\<open>f32\<close> as bit patterns with the IEEE order; the two greedy pickers and their locale
    \<open>greedy_pick\<close>. \<open>Rust_Float\<close>: decimal text to \<^verbatim>\<open>f32\<close> and back. \<open>Rust_Str\<close>: \<^verbatim>\<open>str\<close> as lists of
    scalar values, UTF-8 strict and lossy, \<^verbatim>\<open>trim\<close>, \<^verbatim>\<open>lines\<close>, \<^verbatim>\<open>split\<close>. \<open>Rust_Cast\<close>: casts, maxima and
    number parsing.
  \<^item> \<open>Session\<close> (\<^verbatim>\<open>session.rs\<close>): the wrapper around a resident decode session. Its C functions are the
    record \<open>l1_api\<close>; \<open>l1_contract\<close> is their documented behaviour, \<open>ref_api\<close> a session that has it.

  \<^bold>\<open>Decoding.\<close>
  \<^item> \<open>Spec_Decode\<close> (\<^verbatim>\<open>spec.rs\<close>): one speculative step. It returns the longest agreeing prefix of the
    greedy continuations of draft and target and leaves both sessions right after it.
  \<^item> \<open>Sampler\<close> (\<^verbatim>\<open>sampler.rs\<close>): suppression, the n-gram guard, penalties, truncation and the draw. The
    float operations and the sort are parameters; the masks and the greedy pick are exact.
  \<^item> \<open>Tokenizer\<close>, \<open>Token_Stream\<close> (\<^verbatim>\<open>tokenizer.rs\<close>): the vocabulary file, the end and suppression sets, the
    templates; the streaming buffer with its stop strings and character boundaries.
  \<^item> \<open>Chat\<close> (\<^verbatim>\<open>routes.rs\<close>, \<^verbatim>\<open>sessions.rs\<close>): the turn that composes session, sampler and buffer, as a state
    record passed through the loop with fuel \<open>max_tokens\<close> (the loop's own bound), and the registry of
    running turns with its cancel flags.
  \<^item> \<open>Dialogue\<close>, \<open>Dialogue_Runner\<close> (\<^verbatim>\<open>dialogue.rs\<close>, \<^verbatim>\<open>dialogue_runner.rs\<close>): the three-turn dialogue of two
    models, its token buffers and its 64-byte receipts.
  \<^item> \<open>Memo_Routing\<close> (\<^verbatim>\<open>memo_routing.rs\<close>): the head masks derived from a query.
  \<^item> \<open>Kairos\<close>, \<open>Kairos_Runner\<close> (\<^verbatim>\<open>kairos.rs\<close>, \<^verbatim>\<open>kairos_runner.rs\<close>): the event tape, the heartbeat with the
    stub decider, and the heartbeat whose decisions the model takes. The decision loop has the code's
    bound of 24 tokens; the tape bounds the outer loop.

  \<^bold>\<open>Receipts and arithmetic.\<close>
  \<^item> \<open>Pouw_Ledger\<close> (\<^verbatim>\<open>pouw_ledger.rs\<close>): append, iterate, sort, replay and broadcast over an explicit file
    system.
  \<^item> \<open>Crt_Garner\<close> (\<^verbatim>\<open>sp_trick1/src/lib.rs\<close>, \<^verbatim>\<open>sp_matmul_q_ref.rs\<close>): Barrett reduction, products mod two primes
    and their recombination at 64 bits; the locale \<open>crt_prime\<close> is interpreted for both primes.
  \<^item> \<open>Islands\<close> (\<^verbatim>\<open>sp_islands_q_ref.rs\<close>): the fixed-point exponential, square root, softmax, RMS norm, GELU and
    rotation, every step at its width (\<open>i64\<close>, \<open>i128\<close> are the wrapped values). \<open>Islands_Exp\<close>, \<open>Islands_Kernels\<close>
    and \<open>Islands_Cordic\<close> bound their distance to the real functions; the last step, the \<^verbatim>\<open>f64\<close> quotient of two
    integers, is a parameter.

  \<^bold>\<open>Memory recall\<close> (\<^verbatim>\<open>recall.rs\<close>).
  \<^item> \<open>Recall_Text\<close>: the lexical tests of a query, the classifier of memories, the evidence check and the parser
    of the model's reply; the case and letter tables of Unicode are the record \<open>uni\<close>.
  \<^item> \<open>Mem_Okf\<close>: the policy file beside an episode, written and parsed.
  \<^item> \<open>Recall\<close>: signatures and their match, the key files, the registry with its rewrite, the learned head. The
    JSON parser and printer are parameters under \<open>json_contract\<close>; \<open>vec_ops\<close> is the float arithmetic.

  \<^bold>\<open>The resident cache and its clients.\<close>
  \<^item> \<open>Kv_Decode\<close> (\<^verbatim>\<open>cuda_kvdecode_dispatch.rs\<close>): the safe wrapper of the decode cache on the device. Its C functions
    are the record \<open>kv_glue\<close>; \<open>kv_contract\<close> says which handles are open and at which position they stand,
    \<open>ref_glue\<close> is an instance.
  \<^item> \<open>Spine\<close> (\<^verbatim>\<open>spine.rs\<close>): the deciders of the latent control flow, the frame put before a prompt and the
    executor that prepares the cache; the locale \<open>selector\<close> is interpreted for the two ways to pick a memory.
  \<^item> \<open>Nightshift\<close> (\<^verbatim>\<open>nightshift_curator.rs\<close>): the nightly pass that extracts the secret of an episode and admits it
    when masking its positions collapses its likelihood.
  \<^item> \<open>Qwen_Lane\<close> (\<^verbatim>\<open>qwen36_lane.rs\<close>): the batch lane of a second model.
  \<^item> \<open>Telepathy\<close> (\<^verbatim>\<open>telepathy.rs\<close>): the adapter file, the license gate, the route decision and the delegate.
  \<^item> \<open>Mining\<close> (\<^verbatim>\<open>mining.rs\<close>): the sieve steps of the background miner, as the step relation \<open>mined\<close>.

  \<^bold>\<open>Network.\<close>
  \<^item> \<open>Quic_Shard\<close> (\<^verbatim>\<open>network/quic_shard.rs\<close>): residue blocks on the wire, and the assembly loop as the step
    relation \<open>garner_step\<close> whose runs are all interleavings of connections and stream tasks.
  \<^item> \<open>Ring2_Quic\<close> (\<^verbatim>\<open>network/ring2_quic.rs\<close>): a remote block store; the locale \<open>ring2_backend\<close> is the contract
    of the C registry, interpreted on the client.
  \<^item> \<open>Swarm\<close>, \<open>Similarity\<close>, \<open>Swarm_Transport\<close> (\<^verbatim>\<open>sp_swarm/src\<close>): addressed and signed memory objects, the
    similarity index, and the authenticated exchange between two nodes.

  \<^bold>\<open>What the lemmas show.\<close> For each decoder, that it implements a reference written over the model's logits
  function alone; for each store and wire format, what a reader gets back, on damaged input too; for the
  assembly loop, safety of every reachable state and delivery; for the exchange, what any peer can make a
  node accept; for the arithmetic, the exact range in which it is exact. A theorem about the C functions
  carries the contract it relies on as a hypothesis, and a witness instantiates it.

  \<^bold>\<open>Not modelled.\<close> The remaining handlers of \<^verbatim>\<open>routes.rs\<close> and the start-up code, which move data between
  axum, serde and the libraries; the wrappers of the forward passes on CUDA, Vulkan, Hexagon and the CPU and of
  the DSP calls, whose other side is not in the repository; quinn, rustls, tokio, SHA-256, Ed25519 and the tokenizer
  engines, which are parameters; \<^verbatim>\<open>f64\<close> statistics and log output; the smoke and benchmark programs.
\<close>

end
